(* ===== verification/Prelude.thy ===== *)
theory Prelude
  imports Main "HOL-Library.Word" "HOL-Library.Monad_Syntax"
begin

text \<open>
  Shared vocabulary of the development: bytes, the constants of
  \<^verbatim>\<open>common/constants.hpp\<close>, blocks of memory written and read by index ranges,
  the string streams of the C++ library that the sources use to split text, and the
  collections of rewrite rules the component theories fill.

  A call that may never come back to its caller (a loop that does not end, or a process
  ended by \<^verbatim>\<open>std::terminate\<close>) has an \<open>option\<close> result: \<open>None\<close> means that the
  caller never continues.
\<close>

type_synonym byte = "8 word"

named_theorems std_simps "equations of the standard library models"
named_theorems stream_simps "equations about socket streams"
named_theorems fs_simps "equations about the file system"

section \<open>Constants\<close>

definition kInvalidSocket :: int where
  "kInvalidSocket = -1"

definition kInvalidWrite :: int where
  "kInvalidWrite = -1"

definition kInvalidRead :: int where
  "kInvalidRead = -1"

definition kPacketSize :: nat where
  "kPacketSize = 64 * 1024"

lemma kPacketSize_pos [simp]: "0 < kPacketSize"
  by (simp add: kPacketSize_def)

lemma kPacketSize_neq0 [simp]: "kPacketSize \<noteq> 0"
  by (simp add: kPacketSize_def)

text \<open>The values of \<^verbatim>\<open>errno\<close> that the sources test for.\<close>

definition EINTR :: int where "EINTR = 4"

definition EAGAIN :: int where "EAGAIN = 11"

definition ECONNABORTED :: int where "ECONNABORTED = 103"

lemmas errno_defs = EINTR_def EAGAIN_def ECONNABORTED_def

section \<open>Memory blocks\<close>

text \<open>
  An array is a function from indices to bytes; \<open>blit off bs m\<close> copies \<open>bs\<close> into it
  from index \<open>off\<close> on, \<open>block m a b\<close> reads the bytes from \<open>a\<close> up to, not including, \<open>b\<close>.
\<close>

definition blit :: "nat \<Rightarrow> 'a list \<Rightarrow> (nat \<Rightarrow> 'a) \<Rightarrow> nat \<Rightarrow> 'a" where
  "blit off bs m = (\<lambda>i. if off \<le> i \<and> i < off + length bs then bs ! (i - off) else m i)"

definition block :: "(nat \<Rightarrow> 'a) \<Rightarrow> nat \<Rightarrow> nat \<Rightarrow> 'a list" where
  "block m a b = map m [a..<b]"

lemma length_block [simp]: "length (block m a b) = b - a"
  by (simp add: block_def)

lemma block_empty [simp]: "b \<le> a \<Longrightarrow> block m a b = []"
  by (simp add: block_def)

lemma block_eq_Nil [simp]: "block m a b = [] \<longleftrightarrow> b \<le> a"
  by (auto simp: block_def)

lemma block_nth: "i < b - a \<Longrightarrow> block m a b ! i = m (a + i)"
  by (simp add: block_def)

lemma block_split: "a \<le> b \<Longrightarrow> b \<le> c \<Longrightarrow> block m a c = block m a b @ block m b c"
  using upt_add_eq_append [of a b "c - b"] by (simp add: block_def)

lemma block_Cons: "a < b \<Longrightarrow> block m a b = m a # block m (Suc a) b"
  by (simp add: block_def upt_conv_Cons)

lemma take_block: "take n (block m a b) = block m a (min (a + n) b)"
  by (simp add: block_def take_map min_def)

lemma drop_block: "drop n (block m a b) = block m (a + n) b"
  by (simp add: block_def drop_map)

lemma block_blit_same [simp]: "b = a + length bs \<Longrightarrow> block (blit a bs m) a b = bs"
  by (rule nth_equalityI) (auto simp: block_nth blit_def)

lemma block_blit_disjoint:
  "c \<le> a \<or> a + length bs \<le> b \<Longrightarrow> block (blit a bs m) b c = block m b c"
  by (rule nth_equalityI) (auto simp: block_nth blit_def)

lemma block_blit_take: "k \<le> length bs \<Longrightarrow> block (blit 0 bs m) 0 k = take k bs"
  by (rule nth_equalityI) (auto simp: block_nth blit_def)

lemma block_fun_upd: "i < a \<or> b \<le> i \<Longrightarrow> block (m(i := x)) a b = block m a b"
  by (auto simp: block_def)

lemma block_fun_upd_end: "a \<le> i \<Longrightarrow> block (m(i := x)) a (Suc i) = block m a i @ [x]"
  by (simp add: block_def)

lemma blit_Nil [simp]: "blit a [] m = m"
  by (rule ext) (auto simp: blit_def)

lemma take_hd_tail: "xs \<noteq> [] \<Longrightarrow> 0 < k \<Longrightarrow> take k xs = hd xs # take (k - 1) (drop 1 xs)"
  by (cases xs; cases k) auto

section \<open>Little-endian numbers\<close>

fun le_bytes :: "nat \<Rightarrow> nat \<Rightarrow> byte list" where
  "le_bytes 0 x = []"
| "le_bytes (Suc k) x = of_nat x # le_bytes k (x div 256)"

fun le_val :: "byte list \<Rightarrow> nat" where
  "le_val [] = 0"
| "le_val (b # bs) = unat b + 256 * le_val bs"

lemma length_le_bytes [simp]: "length (le_bytes k x) = k"
  by (induction k arbitrary: x) auto

lemma le_val_bytes: "le_val (le_bytes k x) = x mod 256 ^ k"
proof (induction k arbitrary: x)
  case (Suc k)
  have "x mod 256 ^ Suc k = x mod 256 + 256 * (x div 256 mod 256 ^ k)"
    by (simp add: mod_mult2_eq)
  then show ?case
    by (simp add: Suc.IH unat_of_nat)
qed simp

lemma le_val_bytes_less: "x < 256 ^ k \<Longrightarrow> le_val (le_bytes k x) = x"
  by (simp add: le_val_bytes)

section \<open>String streams\<close>

text \<open>
  A \<^verbatim>\<open>std::istringstream\<close> is the text not read yet and whether its state is
  still good. Reading from a stream that is not good leaves the target string as it was
  (the sentry fails before the target is cleared).
\<close>

type_synonym istring = "string \<times> bool"

definition istringstream :: "string \<Rightarrow> istring" where
  "istringstream str = (str, True)"

text \<open>\<^verbatim>\<open>std::getline(is, str, delim)\<close>: the new value of the target and the stream.\<close>

definition getline :: "istring \<Rightarrow> string \<Rightarrow> char \<Rightarrow> string \<times> istring" where
  "getline is old delim =
     (let (txt, good) = is in
      if \<not> good then (old, is)
      else let (pre, suf) = (takeWhile (\<lambda>c. c \<noteq> delim) txt, dropWhile (\<lambda>c. c \<noteq> delim) txt)
           in (case suf of [] \<Rightarrow> (pre, ([], False)) | _ # rest \<Rightarrow> (pre, (rest, True))))"

text \<open>White space of the "C" locale, as \<^verbatim>\<open>operator>>\<close> skips it.\<close>

definition isspace :: "char \<Rightarrow> bool" where
  "isspace c = (c \<in> {CHR '' '', CHR 0x09, CHR 0x0A, CHR 0x0B, CHR 0x0C, CHR 0x0D})"

text \<open>
  \<^verbatim>\<open>is >> str\<close>: skip white space, then clear the target and read up to the next
  white space. When the stream is not good, or white space is all that is left, the target
  keeps its old value.
\<close>

definition extract_word :: "istring \<Rightarrow> string \<Rightarrow> string \<times> istring" where
  "extract_word is old =
     (let (txt, good) = is in
      if \<not> good then (old, is)
      else let t = dropWhile isspace txt in
           if t = [] then (old, ([], False))
           else let w = takeWhile (\<lambda>c. \<not> isspace c) t; rest = dropWhile (\<lambda>c. \<not> isspace c) t
                in (w, (rest, rest \<noteq> [])))"

lemma getline_found:
  "delim \<notin> set pre \<Longrightarrow> getline (pre @ delim # rest, True) old delim = (pre, (rest, True))"
  by (auto simp: getline_def takeWhile_tail dropWhile_append)

lemma getline_last:
  "delim \<notin> set txt \<Longrightarrow> getline (txt, True) old delim = (txt, ([], False))"
  by (simp add: getline_def) (metis (mono_tags, lifting) dropWhile_eq_Nil_conv list.simps(4) takeWhile_eq_all_conv)

lemma getline_not_good: "getline (txt, False) old delim = (old, (txt, False))"
  by (simp add: getline_def)

lemmas getline_simps [std_simps] = getline_found getline_last getline_not_good

end
