(* ===== verification/Commands.thy ===== *)
theory Commands
  imports Prelude
begin

text \<open>
  The command enumeration and its textual names: \<^verbatim>\<open>common/communication/commands.hpp\<close>
  and \<^verbatim>\<open>commands.cpp\<close>. A command travels as one \<^verbatim>\<open>int8_t\<close>, so a received
  value need not be one of the enumerators: \<open>wire\<close> adds those values.
\<close>

datatype Command =
    kError
  | kSuccess
  | kGetSyncDir
  | kUpload
  | kDownload
  | kDelete
  | kUsername
  | kListClient
  | kListServer
  | kExit

text \<open>The underlying \<^verbatim>\<open>int8_t\<close> of each enumerator (\<open>kError\<close> is -1).\<close>

fun cmd_code :: "Command \<Rightarrow> byte" where
  "cmd_code kError = -1"
| "cmd_code kSuccess = 0"
| "cmd_code kGetSyncDir = 1"
| "cmd_code kUpload = 2"
| "cmd_code kDownload = 3"
| "cmd_code kDelete = 4"
| "cmd_code kUsername = 5"
| "cmd_code kListClient = 6"
| "cmd_code kListServer = 7"
| "cmd_code kExit = 8"

definition all_commands :: "Command list" where
  "all_commands = [kError, kSuccess, kGetSyncDir, kUpload, kDownload, kDelete, kUsername,
     kListClient, kListServer, kExit]"

text \<open>The enumerators are what a quantifier over commands evaluates on.\<close>

instantiation Command :: enum
begin

definition enum_Command :: "Command list" where
  "enum_Command = all_commands"

definition enum_all_Command :: "(Command \<Rightarrow> bool) \<Rightarrow> bool" where
  "enum_all_Command P = list_all P all_commands"

definition enum_ex_Command :: "(Command \<Rightarrow> bool) \<Rightarrow> bool" where
  "enum_ex_Command P = list_ex P all_commands"

instance
proof
  have in_list: "c \<in> set all_commands" for c
    by (cases c) (simp_all add: all_commands_def)
  then show "UNIV = set (enum_class.enum :: Command list)"
    by (auto simp: enum_Command_def)
  show "distinct (enum_class.enum :: Command list)"
    by (simp add: enum_Command_def all_commands_def)
  show "enum_class.enum_all P \<longleftrightarrow> Ball UNIV P" for P :: "Command \<Rightarrow> bool"
    using in_list by (auto simp: enum_all_Command_def list_all_iff)
  show "enum_class.enum_ex P \<longleftrightarrow> Bex UNIV P" for P :: "Command \<Rightarrow> bool"
    using in_list by (auto simp: enum_ex_Command_def list_ex_iff)
qed

end

datatype wire = Cmd Command | Unknown byte

definition wire_of :: "byte \<Rightarrow> wire" where
  "wire_of b = (case find (\<lambda>c. cmd_code c = b) all_commands of
     Some c \<Rightarrow> Cmd c | None \<Rightarrow> Unknown b)"

fun wire_code :: "wire \<Rightarrow> byte" where
  "wire_code (Cmd c) = cmd_code c"
| "wire_code (Unknown b) = b"

section \<open>Names\<close>

text \<open>\<^verbatim>\<open>StrFromCommand\<close>: a value outside of the enumeration leaves the empty string.\<close>

fun StrFromCommand :: "wire \<Rightarrow> string" where
  "StrFromCommand (Cmd kError) = ''error''"
| "StrFromCommand (Cmd kSuccess) = ''success''"
| "StrFromCommand (Cmd kUpload) = ''upload''"
| "StrFromCommand (Cmd kDelete) = ''delete''"
| "StrFromCommand (Cmd kUsername) = ''username''"
| "StrFromCommand (Cmd kGetSyncDir) = ''get_sync_dir''"
| "StrFromCommand (Cmd kExit) = ''exit''"
| "StrFromCommand (Cmd kListClient) = ''list_client''"
| "StrFromCommand (Cmd kListServer) = ''list_server''"
| "StrFromCommand (Cmd kDownload) = ''download''"
| "StrFromCommand (Unknown _) = []"

definition kCommandMap :: "(string \<times> Command) list" where
  "kCommandMap =
     [(''upload'', kUpload), (''download'', kDownload), (''delete'', kDelete),
      (''list_server'', kListServer), (''list_client'', kListClient),
      (''get_sync_dir'', kGetSyncDir), (''exit'', kExit), (''error'', kError),
      (''success'', kSuccess), (''username'', kUsername)]"

text \<open>\<^verbatim>\<open>CommandFromStr\<close>: \<^verbatim>\<open>at\<close> throws for a missing key, which becomes \<open>None\<close>.\<close>

definition CommandFromStr :: "string \<Rightarrow> Command option" where
  "CommandFromStr str = map_of kCommandMap str"

section \<open>Facts\<close>

lemma wire_of_code [simp]: "wire_of (cmd_code c) = Cmd c"
  by (cases c) (simp_all add: wire_of_def all_commands_def)

lemma wire_code_of [simp]: "wire_code (wire_of b) = b"
  by (auto simp: wire_of_def find_Some_iff split: option.splits)

lemma cmd_code_inject [simp]: "cmd_code c = cmd_code d \<longleftrightarrow> c = d"
  by (metis wire.inject(1) wire_of_code)

text \<open>A byte outside of the range of the enumeration is no command.\<close>

lemma cmd_code_range: "\<forall>c. -1 \<le> sint (cmd_code c) \<and> sint (cmd_code c) \<le> 8"
  by code_simp

lemma wire_of_outside: "sint b < -1 \<or> 8 < sint b \<Longrightarrow> wire_of b = Unknown b"
  using cmd_code_range by (auto simp: wire_of_def find_Some_iff not_le [symmetric] split: option.split)

text \<open>
  The names printed for commands and the names parsed from user input are inverse:
  parsing the name of an enumerator gives it back, and every string that parses is the
  name of the command it parses to, so no two commands share a name.
\<close>

theorem command_names_roundtrip:
  "CommandFromStr s = Some c \<longleftrightarrow> StrFromCommand (Cmd c) = s"
  by (cases c) (auto simp: CommandFromStr_def kCommandMap_def)

end
