(* ===== verification/Archives.thy ===== *)
theory Archives
  imports Prelude
begin

text \<open>
  The interface between the program and the cereal archives it serialises with. Cereal is
  a third-party library, so nothing here models its code: a codec is a parameter of every
  definition that uses one. What an output archive writes for a value is a list of bytes
  (the byte order mark a fresh archive writes included), what an input archive does is a
  reader: a program that asks the stream for blocks of bytes. The laws the program relies
  on are the locale \<open>archive_format\<close>; the locales \<open>duplex_in\<close> and \<open>duplex\<close> are the
  interface a stream buffer offers to archives and to everything built on them.
\<close>

section \<open>Readers\<close>

datatype 'a reader = Done 'a | Raise | Need nat "byte list \<Rightarrow> 'a reader"

text \<open>
  How a load ends: with a value; with cereal's exception, which tells how many bytes of the
  missing block were read; with a \<^verbatim>\<open>system_error\<close> thrown by the stream buffer; or with
  another exception of the archive.
\<close>

datatype 'a load = Loaded 'a | ReadShort nat | SysErr int | OtherErr

primrec run_reader :: "(nat \<Rightarrow> 's \<Rightarrow> (int + byte list) \<times> 's) \<Rightarrow> 'a reader \<Rightarrow> 's \<Rightarrow> 'a load \<times> 's" where
  "run_reader get (Done x) s = (Loaded x, s)"
| "run_reader get Raise s = (OtherErr, s)"
| "run_reader get (Need n k) s = (case get n s of
      (Inl e, s') \<Rightarrow> (SysErr e, s')
    | (Inr bs, s') \<Rightarrow>
        if length bs = n then run_reader get (k bs) s' else (ReadShort (length bs), s'))"

text \<open>The same reader on a plain sequence of bytes, which ends where the sequence ends.\<close>

primrec feed :: "'a reader \<Rightarrow> byte list \<Rightarrow> 'a load \<times> byte list" where
  "feed (Done x) bs = (Loaded x, bs)"
| "feed Raise bs = (OtherErr, bs)"
| "feed (Need n k) bs =
     (if n \<le> length bs then feed (k (take n bs)) (drop n bs) else (ReadShort (length bs), []))"

section \<open>What an archive format promises\<close>

text \<open>
  Loading what was saved gives the value back and stops right behind it, and a load from a
  closed connection fails on its first block with no byte read. \<open>valid\<close> are the values the
  format can represent.
\<close>

locale archive_format =
  fixes enc :: "'a \<Rightarrow> byte list" and rd :: "'a reader" and valid :: "'a \<Rightarrow> bool"
  assumes load_saved: "valid x \<Longrightarrow> feed rd (enc x @ rest) = (Loaded x, rest)"
    and load_starved: "feed rd [] = (ReadShort 0, [])"
begin

lemma enc_nonempty: "valid x \<Longrightarrow> enc x \<noteq> []"
  using load_saved [of x "[]"] load_starved by auto

lemma enc_prefix_free: "valid x \<Longrightarrow> valid y \<Longrightarrow> enc x @ r = enc y @ s \<Longrightarrow> x = y \<and> r = s"
  by (metis load.inject(1) load_saved prod.inject)

lemma enc_inject: "valid x \<Longrightarrow> valid y \<Longrightarrow> enc x = enc y \<longleftrightarrow> x = y"
  using enc_prefix_free [of x y "[]" "[]"] by auto

end

record codec =
  enc_cmd :: "byte \<Rightarrow> byte list"
  rd_cmd :: "byte reader"
  enc_str :: "string \<Rightarrow> byte list"
  rd_str :: "string reader"
  enc_i64 :: "64 word \<Rightarrow> byte list"
  rd_i64 :: "64 word reader"

text \<open>The size of a string travels in 64 bits.\<close>

definition str_ok :: "string \<Rightarrow> bool" where
  "str_ok p = (length p < 2 ^ 64)"

definition codec_ok :: "codec \<Rightarrow> bool" where
  "codec_ok C = (archive_format (enc_cmd C) (rd_cmd C) (\<lambda>_. True)
     \<and> archive_format (enc_str C) (rd_str C) str_ok
     \<and> archive_format (enc_i64 C) (rd_i64 C) (\<lambda>_. True))"

lemma codec_okD:
  assumes "codec_ok C"
  shows "feed (rd_cmd C) (enc_cmd C b @ rest) = (Loaded b, rest)"
    and "str_ok p \<Longrightarrow> feed (rd_str C) (enc_str C p @ rest) = (Loaded p, rest)"
    and "feed (rd_i64 C) (enc_i64 C n @ rest) = (Loaded n, rest)"
    and "feed (rd_cmd C) [] = (ReadShort 0, [])"
    and "feed (rd_str C) [] = (ReadShort 0, [])"
    and "feed (rd_i64 C) [] = (ReadShort 0, [])"
  using assms by (auto simp: codec_ok_def archive_format.load_saved archive_format.load_starved)

section \<open>What a stream buffer promises\<close>

text \<open>
  \<open>inp\<close> and \<open>outp\<close> are the bytes that can still be read and the bytes written so far,
  \<open>idle\<close> says that the buffer may be written to, \<open>room\<close> how many bytes it takes.
\<close>

locale duplex_in =
  fixes get :: "nat \<Rightarrow> 's \<Rightarrow> (int + byte list) \<times> 's"
    and inp :: "'s \<Rightarrow> byte list" and outp :: "'s \<Rightarrow> byte list"
    and ok :: "'s \<Rightarrow> bool" and room :: "'s \<Rightarrow> nat"
  assumes get_law: "ok s \<Longrightarrow> get n s = (r, s') \<Longrightarrow>
    r = Inr (take n (inp s)) \<and> inp s' = drop n (inp s) \<and> outp s' = outp s \<and> ok s'
    \<and> room s \<le> room s'"
begin

lemma run_reader_feed:
  assumes "ok s" and "run_reader get rd s = (x, s')"
  shows "feed rd (inp s) = (x, inp s') \<and> outp s' = outp s \<and> ok s' \<and> room s \<le> room s'"
  using assms
proof (induction rd arbitrary: s)
  case (Need n k)
  obtain r s1 where g: "get n s = (r, s1)"
    by (cases "get n s")
  have r: "r = Inr (take n (inp s))" and s1: "inp s1 = drop n (inp s)" "outp s1 = outp s" "ok s1"
    "room s \<le> room s1"
    using get_law [OF Need.prems(1) g] by auto
  show ?case
  proof (cases "n \<le> length (inp s)")
    case True
    then have "run_reader get (k (take n (inp s))) s1 = (x, s')"
      using Need.prems(2) by (simp add: g r)
    then show ?thesis
      using Need.IH [OF rangeI s1(3)] True s1 by force
  next
    case False
    then show ?thesis
      using Need.prems(2) s1 by (auto simp: g r)
  qed
qed auto

corollary run_reader_loaded:
  assumes "ok s" and "feed rd (inp s) = (Loaded x, rest)"
  obtains s' where "run_reader get rd s = (Loaded x, s')" and "inp s' = rest"
    and "outp s' = outp s" and "ok s'" and "room s \<le> room s'"
proof -
  obtain y s' where "run_reader get rd s = (y, s')"
    by (cases "run_reader get rd s")
  then show thesis
    using run_reader_feed [OF assms(1)] assms(2) that by fastforce
qed

end

locale duplex = duplex_in +
  fixes put :: "byte list \<Rightarrow> 's \<Rightarrow> nat \<times> 's" and idle :: "'s \<Rightarrow> bool"
  assumes put_law: "ok s \<Longrightarrow> idle s \<Longrightarrow> length bs \<le> room s \<Longrightarrow> put bs s = (k, s') \<Longrightarrow>
    k = length bs \<and> inp s' = inp s \<and> outp s' = outp s @ bs \<and> ok s' \<and> idle s'
    \<and> room s' = room s - length bs"
begin

text \<open>Two writes in a row are one write of the concatenation, as far as a client can see.\<close>

lemma put_put:
  assumes "ok s" and "idle s" and "length (bs @ cs) \<le> room s"
    and "put bs s = (j, s1)" and "put cs s1 = (k, s2)"
  shows "outp s2 = outp s @ bs @ cs \<and> j + k = length (bs @ cs) \<and> ok s2 \<and> idle s2
    \<and> room s2 = room s - length (bs @ cs)"
  using put_law [of s bs j s1] put_law [of s1 cs k s2] assms by auto

end

section \<open>A concrete codec\<close>

text \<open>
  An instance of the interface for closed examples, with the layout cereal documents for
  its portable binary archives: one byte for the byte order (1 for little-endian) in front
  of each archive, numbers little-endian, a string after its length in 8 bytes.
\<close>

definition pb_rd :: "nat \<Rightarrow> (byte list \<Rightarrow> 'a reader) \<Rightarrow> 'a reader" where
  "pb_rd n k = Need 1 (\<lambda>order. Need n (\<lambda>bs. k (if order = [1] then bs else rev bs)))"

definition pb_codec :: codec where
  "pb_codec = \<lparr>
     enc_cmd = (\<lambda>b. [1, b]),
     rd_cmd = pb_rd 1 (\<lambda>bs. Done (hd bs)),
     enc_str = (\<lambda>p. 1 # le_bytes 8 (length p) @ map (\<lambda>c. of_nat (of_char c)) p),
     rd_str = pb_rd 8 (\<lambda>bs. Need (le_val bs) (\<lambda>cs. Done (map (\<lambda>c. char_of (unat c)) cs))),
     enc_i64 = (\<lambda>n. 1 # le_bytes 8 (unat n)),
     rd_i64 = pb_rd 8 (\<lambda>bs. Done (of_nat (le_val bs)))\<rparr>"

lemma feed_pb_rd:
  "length bs = n \<Longrightarrow> feed (pb_rd n k) (1 # bs @ rest) = feed (k bs) rest"
  by (simp add: pb_rd_def)

lemma feed_pb_rd_Nil: "feed (pb_rd n k) [] = (ReadShort 0, [])"
  by (simp add: pb_rd_def)

lemma char_of_byte: "char_of (unat (of_nat (of_char c) :: byte)) = c"
proof -
  have "unat (of_nat (of_char c) :: byte) = of_char c mod 256"
    by (simp add: unat_of_nat)
  then show ?thesis
    by (simp flip: char_of_take_bit_eq [of 8] add: take_bit_eq_mod)
qed

interpretation pb_cmd: archive_format "enc_cmd pb_codec" "rd_cmd pb_codec" "\<lambda>_. True"
proof unfold_locales
  fix b :: byte and rest
  show "feed (rd_cmd pb_codec) (enc_cmd pb_codec b @ rest) = (Loaded b, rest)"
    using feed_pb_rd [of "[b]" 1 "\<lambda>bs. Done (hd bs)" rest] by (simp add: pb_codec_def)
qed (simp add: pb_codec_def feed_pb_rd_Nil)

interpretation pb_str: archive_format "enc_str pb_codec" "rd_str pb_codec" str_ok
  by unfold_locales
    (simp_all add: pb_codec_def feed_pb_rd_Nil feed_pb_rd str_ok_def le_val_bytes_less
      char_of_byte comp_def)

interpretation pb_i64: archive_format "enc_i64 pb_codec" "rd_i64 pb_codec" "\<lambda>_. True"
proof unfold_locales
  fix x :: "64 word" and rest
  have "unat x < 256 ^ 8"
    using unsigned_less [of x] by simp
  then show "feed (rd_i64 pb_codec) (enc_i64 pb_codec x @ rest) = (Loaded x, rest)"
    by (simp add: pb_codec_def feed_pb_rd le_val_bytes_less)
qed (simp add: pb_codec_def feed_pb_rd_Nil)

lemma pb_codec_ok: "codec_ok pb_codec"
  by (simp add: codec_ok_def pb_cmd.archive_format_axioms pb_str.archive_format_axioms
      pb_i64.archive_format_axioms)

end
