(* ===== verification/SocketStream.thy ===== *)
theory SocketStream
  imports Prelude Archives
begin

text \<open>
  The buffered TCP stream: \<^verbatim>\<open>common/networking/SocketStream.hpp\<close> and
  \<^verbatim>\<open>SocketStream.cpp\<close>, down to the \<^verbatim>\<open>read\<close> and \<^verbatim>\<open>write\<close> system
  calls, and up to the \<^verbatim>\<open>basic_streambuf\<close>, \<^verbatim>\<open>istream\<close> and \<^verbatim>\<open>ostream\<close>
  operations of the C++ library that the program calls on it.

  One array serves as the get area and as the put area of the stream. The state keeps the
  array, the three offsets into it, the connection below it and the stream's error bits.
  \<open>oob\<close> records that a byte was stored past the end of the array, which is undefined
  behaviour in C++; the model's array has room there, so nothing it computes after that
  point speaks about the program.
\<close>

section \<open>The connection below the stream\<close>

text \<open>
  What the kernel does is data: \<open>rx\<close> lists the results of the coming reads (an empty block
  is the end of file, and so is an exhausted list: the peer has closed), \<open>wr\<close> the results
  of the coming writes (exhausted: every write takes all bytes), \<open>tx\<close> the bytes handed over.
\<close>

datatype rd_event = RdData "byte list" | RdErr int

datatype wr_event = WrCount nat | WrErr int

record endpoint =
  rx :: "rd_event list"
  wr :: "wr_event list"
  tx :: "byte list"

fun os_read :: "nat \<Rightarrow> endpoint \<Rightarrow> (int + byte list) \<times> endpoint" where
  "os_read n e = (case rx e of
     [] \<Rightarrow> (Inr [], e)
   | RdErr c # r \<Rightarrow> (Inl c, e\<lparr>rx := r\<rparr>)
   | RdData bs # r \<Rightarrow>
       if length bs \<le> n then (Inr bs, e\<lparr>rx := r\<rparr>)
       else (Inr (take n bs), e\<lparr>rx := RdData (drop n bs) # r\<rparr>))"

fun os_write :: "byte list \<Rightarrow> endpoint \<Rightarrow> (int + nat) \<times> endpoint" where
  "os_write bs e = (case wr e of
     [] \<Rightarrow> (Inr (length bs), e\<lparr>tx := tx e @ bs\<rparr>)
   | WrErr c # r \<Rightarrow> (Inl c, e\<lparr>wr := r\<rparr>)
   | WrCount k # r \<Rightarrow>
       (Inr (min k (length bs)), e\<lparr>wr := r, tx := tx e @ take k bs\<rparr>))"

text \<open>The bytes the peer delivers before the first error or end of file.\<close>

fun rx_bytes :: "rd_event list \<Rightarrow> byte list" where
  "rx_bytes (RdData (b # bs) # r) = b # bs @ rx_bytes r"
| "rx_bytes _ = []"

section \<open>The stream buffer\<close>

definition kBufferSize :: nat where
  "kBufferSize = kPacketSize"

lemma kBufferSize_pos [simp]: "0 < kBufferSize" "kBufferSize \<noteq> 0"
  by (simp_all add: kBufferSize_def)

record sstream =
  mem :: "nat \<Rightarrow> byte"     \<comment> \<open>\<^verbatim>\<open>buffer_\<close>\<close>
  pnext :: nat           \<comment> \<open>\<^verbatim>\<open>pptr() - pbase()\<close>\<close>
  gnext :: nat           \<comment> \<open>\<^verbatim>\<open>gptr() - eback()\<close>\<close>
  gend :: nat            \<comment> \<open>\<^verbatim>\<open>egptr() - eback()\<close>\<close>
  oob :: bool
  ep :: endpoint         \<comment> \<open>\<^verbatim>\<open>socket_\<close>\<close>
  errno :: int
  eofbit :: bool
  failbit :: bool
  badbit :: bool

text \<open>\<^verbatim>\<open>InitializePointers\<close>: both areas start empty at the front of the array.\<close>

definition InitializePointers :: "sstream \<Rightarrow> sstream" where
  "InitializePointers s = s\<lparr>pnext := 0, gnext := 0, gend := 0\<rparr>"

definition SocketStream :: "endpoint \<Rightarrow> sstream" where
  "SocketStream e = InitializePointers
     \<lparr>mem = (\<lambda>_. 0), pnext = 0, gnext = 0, gend = 0, oob = False, ep = e, errno = 0,
      eofbit = False, failbit = False, badbit = False\<rparr>"

text \<open>\<^verbatim>\<open>SetSocket\<close> exchanges the connection and nothing else.\<close>

definition SetSocket :: "endpoint \<Rightarrow> sstream \<Rightarrow> sstream" where
  "SetSocket e s = s\<lparr>ep := e\<rparr>"

definition ReceiveData :: "sstream \<Rightarrow> int \<times> sstream" where
  "ReceiveData s = (case os_read kBufferSize (ep s) of
     (Inl c, e) \<Rightarrow> (kInvalidRead, s\<lparr>ep := e, errno := c\<rparr>)
   | (Inr bs, e) \<Rightarrow> (int (length bs), s\<lparr>ep := e, mem := blit 0 bs (mem s)\<rparr>))"

definition SendData :: "sstream \<Rightarrow> int \<times> sstream" where
  "SendData s = (case os_write (block (mem s) 0 (pnext s)) (ep s) of
     (Inl c, e) \<Rightarrow> (kInvalidWrite, s\<lparr>ep := e, errno := c\<rparr>)
   | (Inr n, e) \<Rightarrow> (int n, s\<lparr>ep := e\<rparr>))"

text \<open>\<^verbatim>\<open>sync\<close> moves the put pointer back by the number of bytes sent.\<close>

definition sync :: "sstream \<Rightarrow> int \<times> sstream" where
  "sync s = (let (kTotalSent, s1) = SendData s in
     if kTotalSent = kInvalidWrite then (-1, s1)
     else (0, s1\<lparr>pnext := nat (int (pnext s1) - kTotalSent)\<rparr>))"

text \<open>
  \<^verbatim>\<open>underflow\<close>: \<open>Inl\<close> is the thrown \<^verbatim>\<open>system_error\<close>, \<open>Inr None\<close> the end of
  file. The result of \<^verbatim>\<open>sync\<close> is ignored.
\<close>

definition underflow :: "sstream \<Rightarrow> (int + byte option) \<times> sstream" where
  "underflow s =
     (if gnext s < gend s then (Inr (Some (mem s (gnext s))), s)
      else let s1 = snd (sync s); (kBytesReceived, s2) = ReceiveData s1 in
        if kBytesReceived = kInvalidRead then (Inl (errno s2), s2)
        else if kBytesReceived = 0 then (Inr None, s2)
        else let s3 = s2\<lparr>gnext := 0, gend := nat kBytesReceived\<rparr>
             in (Inr (Some (mem s3 (gnext s3))), s3))"

text \<open>\<^verbatim>\<open>overflow\<close>: \<open>None\<close> is \<^verbatim>\<open>traits_type::eof()\<close>, as argument and as result.\<close>

definition overflow :: "byte option \<Rightarrow> sstream \<Rightarrow> byte option \<times> sstream" where
  "overflow ch s =
     (let s1 = (case ch of None \<Rightarrow> s
        | Some c \<Rightarrow> s\<lparr>mem := (mem s)(pnext s := c), oob := (oob s \<or> kBufferSize \<le> pnext s),
                      pnext := pnext s + 1\<rparr>);
          (r, s2) = sync s1
      in if r = -1 then (None, s2) else (ch, s2))"

definition showmanyc :: "sstream \<Rightarrow> int" where
  "showmanyc s = int (gend s) - int (gnext s)"

section \<open>What the C++ library does with the buffer\<close>

text \<open>\<^verbatim>\<open>uflow\<close>: \<^verbatim>\<open>underflow\<close>, then step over the character it returned.\<close>

definition uflow :: "sstream \<Rightarrow> (int + byte option) \<times> sstream" where
  "uflow s = (case underflow s of
     (Inr (Some c), s1) \<Rightarrow> (Inr (Some c), s1\<lparr>gnext := gnext s1 + 1\<rparr>)
   | r \<Rightarrow> r)"

text \<open>
  \<^verbatim>\<open>sgetn\<close>: copy what the get area holds, then refill it one \<^verbatim>\<open>uflow\<close> at a time;
  a short result is the end of file.
\<close>

function sgetn :: "nat \<Rightarrow> sstream \<Rightarrow> (int + byte list) \<times> sstream" where
  "sgetn n s =
     (if n = 0 then (Inr [], s)
      else let len = min (gend s - gnext s) n;
               got = block (mem s) (gnext s) (gnext s + len);
               s1 = s\<lparr>gnext := gnext s + len\<rparr>
           in if len = n then (Inr got, s1)
              else (case uflow s1 of
                  (Inl c, s2) \<Rightarrow> (Inl c, s2)
                | (Inr None, s2) \<Rightarrow> (Inr got, s2)
                | (Inr (Some c), s2) \<Rightarrow>
                    (case sgetn (n - len - 1) s2 of
                       (Inl e, s3) \<Rightarrow> (Inl e, s3)
                     | (Inr bs, s3) \<Rightarrow> (Inr (got @ c # bs), s3))))"
  by pat_completeness auto
termination
  by (relation "measure fst") auto

declare sgetn.simps [simp del]

text \<open>
  \<^verbatim>\<open>sputn\<close>: fill the put area, hand the next character to \<^verbatim>\<open>overflow\<close>, go on
  until an \<^verbatim>\<open>overflow\<close> fails. The result counts the characters accepted.
\<close>

function sputn :: "byte list \<Rightarrow> sstream \<Rightarrow> nat \<times> sstream" where
  "sputn bs s =
     (if bs = [] then (0, s)
      else let len = min (kBufferSize - pnext s) (length bs);
               s1 = s\<lparr>mem := blit (pnext s) (take len bs) (mem s), pnext := pnext s + len\<rparr>
           in (case drop len bs of
                 [] \<Rightarrow> (len, s1)
               | c # r \<Rightarrow>
                   (case overflow (Some c) s1 of
                      (None, s2) \<Rightarrow> (len, s2)
                    | (Some _, s2) \<Rightarrow> (let (k, s3) = sputn r s2 in (len + 1 + k, s3)))))"
  by pat_completeness auto
termination
proof (relation "measure (length \<circ> fst)", goal_cases)
  case (2 bs s len s1 c r t a s2)
  then have "length (drop len bs) = Suc (length r)"
    by simp
  then show ?case
    by (simp del: length_drop) (simp add: length_drop)
qed simp

declare sputn.simps [simp del]

definition good :: "sstream \<Rightarrow> bool" where
  "good s = (\<not> eofbit s \<and> \<not> failbit s \<and> \<not> badbit s)"

text \<open>\<^verbatim>\<open>read(buf, n).gcount()\<close> as the list of the bytes extracted.\<close>

definition stream_read :: "int \<Rightarrow> sstream \<Rightarrow> byte list \<times> sstream" where
  "stream_read n s =
     (if \<not> good s then ([], s\<lparr>failbit := True\<rparr>)
      else (case sgetn (nat n) s of
          (Inl _, s1) \<Rightarrow> ([], s1\<lparr>badbit := True\<rparr>)
        | (Inr bs, s1) \<Rightarrow>
            if int (length bs) \<noteq> n then (bs, s1\<lparr>eofbit := True, failbit := True\<rparr>)
            else (bs, s1)))"

definition stream_write :: "byte list \<Rightarrow> sstream \<Rightarrow> sstream" where
  "stream_write bs s =
     (if \<not> good s then s\<lparr>failbit := (failbit s \<or> badbit s)\<rparr>
      else let (k, s1) = sputn bs s in
        if k \<noteq> length bs then s1\<lparr>badbit := True\<rparr> else s1)"

definition stream_flush :: "sstream \<Rightarrow> sstream" where
  "stream_flush s =
     (if \<not> good s then s\<lparr>failbit := (failbit s \<or> badbit s)\<rparr>
      else let (r, s1) = sync s in if r = -1 then s1\<lparr>badbit := True\<rparr> else s1)"

section \<open>The stream as a pair of byte sequences\<close>

text \<open>
  Seen from above, a stream is the sequence of bytes that can still be read (those in the
  get area, then those the connection delivers) and the sequence of the bytes written so
  far (those sent, then those in the put area).
\<close>

definition unread :: "sstream \<Rightarrow> byte list" where
  "unread s = block (mem s) (gnext s) (gend s)"

definition pending :: "sstream \<Rightarrow> byte list" where
  "pending s = block (mem s) 0 (pnext s)"

definition incoming :: "sstream \<Rightarrow> byte list" where
  "incoming s = unread s @ rx_bytes (rx (ep s))"

definition outgoing :: "sstream \<Rightarrow> byte list" where
  "outgoing s = tx (ep s) @ pending s"

text \<open>
  A connection is reliable when no system call on it fails, every write takes all the bytes
  it is given, and reads deliver blocks of at least one byte until the peer closes.
\<close>

fun delivers :: "rd_event \<Rightarrow> bool" where
  "delivers (RdData bs) = (bs \<noteq> [])"
| "delivers (RdErr _) = False"

definition reliable :: "sstream \<Rightarrow> bool" where
  "reliable s = (list_all delivers (rx (ep s)) \<and> wr (ep s) = [])"

text \<open>The put area may be used only while the get area is used up.\<close>

definition idle :: "sstream \<Rightarrow> bool" where
  "idle s = (gend s \<le> gnext s)"

definition room :: "sstream \<Rightarrow> nat" where
  "room s = kBufferSize - pnext s"

definition flags :: "sstream \<Rightarrow> bool \<times> bool \<times> bool" where
  "flags s = (eofbit s, failbit s, badbit s)"

lemma good_flags: "good s \<longleftrightarrow> flags s = (False, False, False)"
  by (auto simp: good_def flags_def)

lemma unread_idle: "idle s \<Longrightarrow> unread s = []"
  by (simp add: idle_def unread_def)

lemma idle_iff: "idle s \<longleftrightarrow> unread s = []"
  by (simp add: idle_def unread_def)

lemma length_pending [simp]: "length (pending s) = pnext s"
  by (simp add: pending_def)

lemma take_rx_bytes:
  "bs \<noteq> [] \<Longrightarrow> rx_bytes (RdData bs # r) = bs @ rx_bytes r"
  by (cases bs) auto

subsection \<open>Reading\<close>

lemma sync_reliable:
  assumes "reliable s"
  shows "sync s = (0, s\<lparr>pnext := 0, ep := (ep s)\<lparr>tx := outgoing s\<rparr>\<rparr>)"
  using assms
  by (simp add: sync_def SendData_def reliable_def outgoing_def pending_def kInvalidWrite_def)

lemma ReceiveData_empty:
  "rx (ep s) = [] \<Longrightarrow> ReceiveData s = (0, s)"
  by (simp add: ReceiveData_def)

lemma ReceiveData_block:
  assumes "rx (ep s) = RdData bs # r" and "bs \<noteq> []"
  obtains s' k where "ReceiveData s = (int k, s')" and "0 < k" and "k = min kBufferSize (length bs)"
    and "mem s' = blit 0 (take k bs) (mem s)"
    and "rx_bytes (rx (ep s')) = drop k bs @ rx_bytes r"
    and "list_all delivers r \<Longrightarrow> list_all delivers (rx (ep s'))"
    and "s' = s\<lparr>ep := (ep s)\<lparr>rx := rx (ep s')\<rparr>, mem := mem s'\<rparr>"
proof (cases "length bs \<le> kBufferSize")
  case True
  let ?s = "s\<lparr>ep := (ep s)\<lparr>rx := r\<rparr>, mem := blit 0 bs (mem s)\<rparr>"
  show thesis
    by (rule that [of "length bs" ?s]) (use assms True in \<open>auto simp: ReceiveData_def min_def\<close>)
next
  case False
  then have ne: "drop kBufferSize bs \<noteq> []"
    by simp
  let ?r = "RdData (drop kBufferSize bs) # r"
  let ?s = "s\<lparr>ep := (ep s)\<lparr>rx := ?r\<rparr>, mem := blit 0 (take kBufferSize bs) (mem s)\<rparr>"
  show thesis
    by (rule that [of kBufferSize ?s])
      (use assms False take_rx_bytes [OF ne] ne in \<open>auto simp: ReceiveData_def min_def\<close>)
qed

text \<open>
  Refilling an exhausted get area: either the peer has closed, or the next block is there
  and the bytes that can be read are the same as before. What was pending has been sent.
\<close>

lemma underflow_closed:
  assumes "reliable s" and "idle s" and "rx (ep s) = []"
  shows "underflow s = (Inr None, s\<lparr>pnext := 0, ep := (ep s)\<lparr>tx := outgoing s\<rparr>\<rparr>)"
  using assms
  by (simp add: underflow_def idle_def sync_reliable ReceiveData_empty kInvalidRead_def)

lemma underflow_block:
  assumes rel: "reliable s" and "idle s" and "rx (ep s) \<noteq> []"
  obtains s' where "underflow s = (Inr (Some (hd (incoming s))), s')"
    and "gnext s' < gend s'" and "incoming s' = incoming s" and "outgoing s' = outgoing s"
    and "incoming s \<noteq> []" and "pnext s' = 0"
    and "reliable s'" and "oob s' = oob s" and "flags s' = flags s" and "errno s' = errno s"
proof -
  obtain bs r where rx: "rx (ep s) = RdData bs # r" and ne: "bs \<noteq> []" and r: "list_all delivers r"
    using assms by (cases "rx (ep s)"; cases "hd (rx (ep s))") (auto simp: reliable_def)
  let ?s1 = "s\<lparr>pnext := 0, ep := (ep s)\<lparr>tx := outgoing s\<rparr>\<rparr>"
  have rx1: "rx (ep ?s1) = RdData bs # r"
    by (simp add: rx)
  obtain s2 k where rd: "ReceiveData ?s1 = (int k, s2)" and k: "0 < k" "k = min kBufferSize (length bs)"
    and mem2: "mem s2 = blit 0 (take k bs) (mem ?s1)"
    and rx2: "rx_bytes (rx (ep s2)) = drop k bs @ rx_bytes r"
    and del2: "list_all delivers r \<Longrightarrow> list_all delivers (rx (ep s2))"
    and s2: "s2 = ?s1\<lparr>ep := (ep ?s1)\<lparr>rx := rx (ep s2)\<rparr>, mem := mem s2\<rparr>"
    by (rule ReceiveData_block [OF rx1 ne]) (rule that; assumption)
  let ?s3 = "s2\<lparr>gnext := 0, gend := k\<rparr>"
  have un: "unread ?s3 = take k bs"
    using k by (simp add: unread_def mem2)
  have inp: "incoming ?s3 = bs @ rx_bytes r"
    by (simp add: incoming_def un rx2 flip: append_assoc)
  have inp0: "incoming s = bs @ rx_bytes r"
    using assms(2) ne by (simp add: incoming_def unread_idle rx take_rx_bytes)
  have hd: "mem s2 0 = hd (incoming s)"
    using k ne by (cases bs) (auto simp: mem2 inp0 blit_def)
  show thesis
  proof (rule that [of ?s3])
    show "underflow s = (Inr (Some (hd (incoming s))), ?s3)"
      using assms(2) k rd hd
      by (simp add: underflow_def idle_def sync_reliable [OF rel] kInvalidRead_def)
  next
    show "outgoing ?s3 = outgoing s"
      by (subst s2) (simp add: outgoing_def pending_def)
  next
    show "reliable ?s3"
      using del2 [OF r] rel by (subst s2) (simp add: reliable_def)
  next
    show "pnext ?s3 = 0" "oob ?s3 = oob s" "flags ?s3 = flags s" "errno ?s3 = errno s"
      by (subst s2, simp add: flags_def)+
  qed (use k ne inp inp0 in auto)
qed

text \<open>
  \<open>advances n s s'\<close>: reading \<open>n\<close> bytes took \<open>s\<close> to \<open>s'\<close>, nothing that was written
  is lost and no flag has moved.
\<close>

definition advances :: "nat \<Rightarrow> sstream \<Rightarrow> sstream \<Rightarrow> bool" where
  "advances n s s' = (incoming s' = drop n (incoming s) \<and> outgoing s' = outgoing s
     \<and> reliable s' \<and> oob s' = oob s \<and> flags s' = flags s \<and> errno s' = errno s
     \<and> pnext s' \<le> pnext s)"

lemma advances_refl: "reliable s \<Longrightarrow> advances 0 s s"
  by (simp add: advances_def)

lemma advances_trans: "advances m s t \<Longrightarrow> advances n t u \<Longrightarrow> advances (m + n) s u"
  by (auto simp: advances_def add.commute)

lemma advances_reliable: "advances n s t \<Longrightarrow> reliable t"
  by (simp add: advances_def)

lemma advances_incoming: "advances n s t \<Longrightarrow> incoming t = drop n (incoming s)"
  by (simp add: advances_def)

lemma get_area_step:
  assumes "reliable s" and "n \<le> gend s - gnext s"
  shows "advances n s (s\<lparr>gnext := gnext s + n\<rparr>)"
    and "block (mem s) (gnext s) (gnext s + n) = take n (incoming s)"
proof -
  have len: "n \<le> length (unread s)"
    using assms(2) by (simp add: unread_def)
  have take: "take n (unread s) = block (mem s) (gnext s) (gnext s + n)"
    using assms(2) by (cases "n = 0") (auto simp: unread_def take_block min_def)
  then show "block (mem s) (gnext s) (gnext s + n) = take n (incoming s)"
    using len by (simp add: incoming_def)
  have "unread (s\<lparr>gnext := gnext s + n\<rparr>) = drop n (unread s)"
    by (simp add: unread_def drop_block)
  then show "advances n s (s\<lparr>gnext := gnext s + n\<rparr>)"
    using len assms(1)
    by (simp add: advances_def incoming_def outgoing_def pending_def reliable_def flags_def)
qed

lemma uflow_reliable:
  assumes rel: "reliable s" and idl: "idle s"
  obtains s' where "uflow s = (Inr None, s')" and "incoming s = []" and "advances 0 s s'"
    | s' where "uflow s = (Inr (Some (hd (incoming s))), s')" and "incoming s \<noteq> []"
      and "advances 1 s s'"
proof (cases "rx (ep s) = []")
  case True
  have "incoming s = []"
    using idl True by (simp add: incoming_def unread_idle)
  then show thesis
    using that(1) [of "s\<lparr>pnext := 0, ep := (ep s)\<lparr>tx := outgoing s\<rparr>\<rparr>"] rel True
    by (simp add: uflow_def underflow_closed [OF rel idl True] advances_def incoming_def
        outgoing_def pending_def reliable_def flags_def unread_def)
next
  case False
  obtain s' where u: "underflow s = (Inr (Some (hd (incoming s))), s')" and g: "gnext s' < gend s'"
    and s': "incoming s' = incoming s" "outgoing s' = outgoing s" "reliable s'" "oob s' = oob s"
      "flags s' = flags s" "errno s' = errno s" "pnext s' = 0" and ne: "incoming s \<noteq> []"
    by (rule underflow_block [OF rel idl False]) (rule that; assumption)
  have "advances 0 s s'"
    using s' by (simp add: advances_def)
  moreover have "advances 1 s' (s'\<lparr>gnext := gnext s' + 1\<rparr>)"
    using s'(3) g by (intro get_area_step(1)) auto
  ultimately have "advances 1 s (s'\<lparr>gnext := gnext s' + 1\<rparr>)"
    using advances_trans by fastforce
  then show thesis
    using that(2) [of "s'\<lparr>gnext := gnext s' + 1\<rparr>"] u ne by (simp add: uflow_def)
qed

text \<open>
  \<^verbatim>\<open>sgetn\<close> on a reliable connection delivers the next \<open>n\<close> bytes in order, however the
  connection cuts them into blocks; it is short only when the peer has closed.
\<close>

lemma take_across:
  assumes "advances len s s1" and "incoming s1 \<noteq> []" and "advances 1 s1 s2" and "len < n"
  shows "take n (incoming s) = take len (incoming s) @ hd (incoming s1) # take (n - len - 1) (incoming s2)"
proof -
  have "take n (incoming s) = take len (incoming s) @ take (n - len) (incoming s1)"
    using assms(1,4) by (simp add: advances_incoming flip: take_add)
  also have "take (n - len) (incoming s1) = hd (incoming s1) # take (n - len - 1) (incoming s2)"
    using take_hd_tail [OF assms(2), of "n - len"] advances_incoming [OF assms(3)] assms(4) by simp
  finally show ?thesis .
qed

lemma sgetn_reliable:
  assumes "reliable s"
  obtains s' where "sgetn n s = (Inr (take n (incoming s)), s')" and "advances n s s'"
  using assms
proof (induction n s arbitrary: thesis rule: sgetn.induct)
  case (1 n s)
  define len where "len = min (gend s - gnext s) n"
  define s1 where "s1 = s\<lparr>gnext := gnext s + len\<rparr>"
  have adv1: "advances len s s1"
    and got: "block (mem s) (gnext s) (gnext s + len) = take len (incoming s)"
    using get_area_step [OF 1(3), of len] by (simp_all add: s1_def len_def)
  consider "n = 0" | "n \<noteq> 0" "len = n" | "n \<noteq> 0" "len < n"
    by (fastforce simp: len_def)
  then show ?case
  proof cases
    case 1
    then show ?thesis
      using "1.prems" by (auto simp: sgetn.simps advances_refl)
  next
    case 2
    then show ?thesis
      using "1.prems"(1) [of s1] adv1 got
      by (simp add: sgetn.simps [of n s] Let_def s1_def flip: len_def)
  next
    case 3
    have idl: "idle s1"
      using 3 by (auto simp: idle_def s1_def len_def min_def split: if_splits)
    have rel1: "reliable s1"
      using adv1 by (rule advances_reliable)
    show ?thesis
    proof (rule uflow_reliable [OF rel1 idl])
      fix s2
      assume u: "uflow s1 = (Inr None, s2)" and e: "incoming s1 = []" and a: "advances 0 s1 s2"
      have le: "length (incoming s) \<le> len"
        using e adv1 by (simp add: advances_incoming)
      then have "advances n s s2"
        using advances_trans [OF adv1 a] 3 by (simp add: advances_def)
      then show ?thesis
        using "1.prems"(1) [of s2] 3 u got le
        by (simp add: sgetn.simps [of n s] Let_def flip: len_def s1_def)
    next
      fix s2
      assume u: "uflow s1 = (Inr (Some (hd (incoming s1))), s2)" and ne: "incoming s1 \<noteq> []"
        and a: "advances 1 s1 s2"
      have neq: "len \<noteq> n" and rel2: "reliable s2"
        using 3 advances_reliable [OF a] by auto
      obtain s3 where g: "sgetn (n - len - 1) s2 = (Inr (take (n - len - 1) (incoming s2)), s3)"
        and b: "advances (n - len - 1) s2 s3"
        by (rule "1.IH" [OF 3(1) len_def refl s1_def neq u [symmetric] refl refl _ rel2])
          (rule that; assumption)
      have adv: "advances n s s3"
        using advances_trans [OF advances_trans [OF adv1 a] b] 3 by simp
      show ?thesis
        using "1.prems"(1) [of s3] 3 u got g adv take_across [OF adv1 ne a 3(2)]
        by (simp add: sgetn.simps [of n s] Let_def flip: len_def s1_def)
    qed
  qed
qed

subsection \<open>Writing\<close>

text \<open>
  \<open>grows bs s s'\<close>: writing \<open>bs\<close> took \<open>s\<close> to \<open>s'\<close>, and what can be read is untouched.
\<close>

definition grows :: "byte list \<Rightarrow> sstream \<Rightarrow> sstream \<Rightarrow> bool" where
  "grows bs s s' = (outgoing s' = outgoing s @ bs \<and> incoming s' = incoming s
     \<and> rx (ep s') = rx (ep s) \<and> gnext s' = gnext s \<and> gend s' = gend s
     \<and> reliable s' \<and> flags s' = flags s \<and> errno s' = errno s)"

lemma grows_refl: "reliable s \<Longrightarrow> grows [] s s"
  by (simp add: grows_def)

lemma grows_trans: "grows bs s t \<Longrightarrow> grows cs t u \<Longrightarrow> grows (bs @ cs) s u"
  by (auto simp: grows_def)

lemma grows_reliable: "grows bs s t \<Longrightarrow> reliable t"
  by (simp add: grows_def)

lemma grows_oob [simp]: "grows bs s (t\<lparr>oob := b\<rparr>) \<longleftrightarrow> grows bs s t"
  by (simp add: grows_def outgoing_def pending_def incoming_def unread_def reliable_def flags_def)

lemma grows_idle: "grows bs s t \<Longrightarrow> idle t \<longleftrightarrow> idle s"
  by (simp add: grows_def idle_def)

lemma put_area_step:
  assumes "reliable s" and "idle s"
  shows "grows bs s (s\<lparr>mem := blit (pnext s) bs (mem s), pnext := pnext s + length bs\<rparr>)"
proof -
  have "block (blit (pnext s) bs (mem s)) 0 (pnext s + length bs)
      = block (mem s) 0 (pnext s) @ bs"
    using block_split [of 0 "pnext s" "pnext s + length bs" "blit (pnext s) bs (mem s)"]
    by (simp add: block_blit_disjoint)
  then show ?thesis
    using assms
    by (simp add: grows_def outgoing_def pending_def incoming_def unread_def idle_def
        reliable_def flags_def)
qed

lemma sync_grows:
  assumes "reliable s"
  obtains s' where "sync s = (0, s')" and "grows [] s s'" and "pnext s' = 0"
    and "tx (ep s') = outgoing s" and "oob s' = oob s"
  by (rule that [of "s\<lparr>pnext := 0, ep := (ep s)\<lparr>tx := outgoing s\<rparr>\<rparr>"])
    (use assms in \<open>simp_all add: sync_reliable grows_def outgoing_def pending_def incoming_def
       unread_def reliable_def flags_def\<close>)

lemma overflow_grows:
  assumes "reliable s" and "idle s"
  obtains s' where "overflow (Some c) s = (Some c, s')" and "grows [c] s s'" and "pnext s' = 0"
    and "oob s' \<longleftrightarrow> oob s \<or> kBufferSize \<le> pnext s"
proof -
  define s1 where "s1 = s\<lparr>mem := blit (pnext s) [c] (mem s), pnext := pnext s + length [c]\<rparr>"
  define s2 where "s2 = s1\<lparr>oob := (oob s \<or> kBufferSize \<le> pnext s)\<rparr>"
  have "(mem s)(pnext s := c) = blit (pnext s) [c] (mem s)"
    by (auto simp: blit_def)
  then have s2_eq: "s2 = s\<lparr>mem := (mem s)(pnext s := c),
      oob := (oob s \<or> kBufferSize \<le> pnext s), pnext := Suc (pnext s)\<rparr>"
    by (simp add: s1_def s2_def)
  have "grows [c] s s1"
    unfolding s1_def by (rule put_area_step [OF assms])
  then have g2: "grows [c] s s2"
    by (simp add: s2_def)
  obtain s3 where "sync s2 = (0, s3)" and "grows [] s2 s3" and "pnext s3 = 0" and "oob s3 = oob s2"
    by (rule sync_grows [OF grows_reliable [OF g2]]) (rule that; assumption)
  moreover from this have "overflow (Some c) s = (Some c, s3)"
    by (simp add: overflow_def Let_def flip: s2_eq)
  ultimately show thesis
    using that [of s3] grows_trans [OF g2] by (fastforce simp: s2_def)
qed

text \<open>
  \<^verbatim>\<open>sputn\<close> on a reliable connection accepts everything, in order. It stores a byte past
  the end of the array exactly when the bytes do not fit in what is left of the put area.
\<close>

text \<open>The bytes that fit are stored in the put area; the next one makes it overflow.\<close>

lemma sputn_fits:
  assumes "reliable s" and "idle s" and "length bs \<le> room s"
  obtains s' where "sputn bs s = (length bs, s')" and "grows bs s s'" and "oob s' = oob s"
    and "pnext s' = pnext s + length bs"
proof (cases "bs = []")
  case True
  then show thesis
    using that [of s] assms(1) by (simp add: sputn.simps grows_refl)
next
  case False
  let ?s' = "s\<lparr>mem := blit (pnext s) bs (mem s), pnext := pnext s + length bs\<rparr>"
  have len: "min (kBufferSize - pnext s) (length bs) = length bs"
    using assms(3) by (simp add: room_def)
  show thesis
    by (rule that [of ?s'])
      (use False len put_area_step [OF assms(1,2), of bs] in \<open>simp_all add: sputn.simps [of bs s] Let_def\<close>)
qed

lemma sputn_reliable:
  assumes "reliable s" and "idle s"
  obtains s' where "sputn bs s = (length bs, s')" and "grows bs s s'"
    and "oob s' \<longleftrightarrow> oob s \<or> room s < length bs"
    and "length bs \<le> room s \<Longrightarrow> pnext s' = pnext s + length bs"
  using assms
proof (induction bs s arbitrary: thesis rule: sputn.induct)
  case (1 bs s)
  note rel = "1.prems"(2) and idl = "1.prems"(3)
  define len where "len = min (kBufferSize - pnext s) (length bs)"
  define s1 where "s1 = s\<lparr>mem := blit (pnext s) (take len bs) (mem s), pnext := pnext s + len\<rparr>"
  have len_le: "len \<le> length bs"
    by (simp add: len_def)
  have g1: "grows (take len bs) s s1"
    using put_area_step [OF rel idl, of "take len bs"] len_le by (simp add: s1_def min_absorb2)
  show ?case
  proof (cases "drop len bs")
    case Nil
    then have fits: "length bs \<le> room s"
      by (simp add: len_def room_def min_def split: if_splits)
    obtain s' where "sputn bs s = (length bs, s')" "grows bs s s'" "oob s' = oob s" "pnext s' = pnext s + length bs"
      by (rule sputn_fits [OF rel idl fits])
    then show ?thesis
      using "1.prems"(1) [of s'] fits by simp
  next
    case (Cons c r)
    have l: "length bs - len = Suc (length r)"
      using arg_cong [OF Cons, of length] by simp
    then have ne: "bs \<noteq> []" and len: "len = kBufferSize - pnext s" and tight: "room s < length bs"
      by (auto simp: len_def room_def min_def split: if_splits)
    have bs: "length bs = len + 1 + length r" "take len bs @ c # r = bs"
      using l append_take_drop_id [of len bs] by (simp_all add: Cons)
    obtain s2 where o: "overflow (Some c) s1 = (Some c, s2)" and g2: "grows [c] s1 s2"
      and ob2: "oob s2 \<longleftrightarrow> oob s1 \<or> kBufferSize \<le> pnext s1"
      by (rule overflow_grows [OF grows_reliable [OF g1] grows_idle [OF g1, THEN iffD2, OF idl]])
        (rule that; assumption)
    have g12: "grows (take len bs @ [c]) s s2"
      by (rule grows_trans [OF g1 g2])
    obtain s3 where p: "sputn r s2 = (length r, s3)" and g3: "grows r s2 s3"
      and ob3: "oob s3 \<longleftrightarrow> oob s2 \<or> room s2 < length r"
      by (rule "1.IH" [OF ne len_def s1_def Cons o [symmetric] refl _
            grows_reliable [OF g12] grows_idle [OF g12, THEN iffD2, OF idl]])
        (rule that; assumption)
    have "grows bs s s3"
      using grows_trans [OF g12 g3] bs(2) by simp
    moreover have "oob s3"
      using ob2 ob3 len by (simp add: s1_def) linarith
    moreover have "sputn bs s = (len + 1 + length r, s3)"
      using ne Cons o p
      by (simp add: sputn.simps [of bs s] Let_def flip: len_def s1_def)
    ultimately show ?thesis
      using "1.prems"(1) [of s3] tight bs(1) by simp
  qed
qed

subsection \<open>The duplex interface\<close>

text \<open>A stream whose connection is reliable, whose flags are clear, and that never left its array.\<close>

definition sound :: "sstream \<Rightarrow> bool" where
  "sound s = (reliable s \<and> good s \<and> \<not> oob s)"

lemma sound_reliable: "sound s \<Longrightarrow> reliable s"
  by (simp add: sound_def)

interpretation sock_in: duplex_in sgetn incoming outgoing sound room
proof unfold_locales
  fix s n r s'
  assume ok: "sound s" and eq: "sgetn n s = (r, s')"
  show "r = Inr (take n (incoming s)) \<and> incoming s' = drop n (incoming s)
      \<and> outgoing s' = outgoing s \<and> sound s' \<and> room s \<le> room s'"
    by (rule sgetn_reliable [OF sound_reliable [OF ok], of n])
      (use ok eq in \<open>auto simp: advances_def sound_def good_flags room_def\<close>)
qed

interpretation sock: duplex sgetn incoming outgoing sound room sputn idle
proof unfold_locales
  fix s bs k s'
  assume ok: "sound s" and idl: "idle s" and fits: "length bs \<le> room s" and eq: "sputn bs s = (k, s')"
  show "k = length bs \<and> incoming s' = incoming s \<and> outgoing s' = outgoing s @ bs \<and> sound s'
      \<and> idle s' \<and> room s' = room s - length bs"
    by (rule sputn_reliable [OF sound_reliable [OF ok] idl, of bs])
      (use ok idl fits eq in \<open>auto simp: grows_def sound_def good_flags room_def idle_def\<close>)
qed

text \<open>The same laws for the unformatted operations of the stream class.\<close>

lemma stream_read_sound:
  assumes "sound s" and "n \<le> length (incoming s)"
  obtains s' where "stream_read (int n) s = (take n (incoming s), s')"
    and "incoming s' = drop n (incoming s)" and "outgoing s' = outgoing s" and "sound s'"
    and "room s \<le> room s'"
proof -
  obtain r s1 where eq: "sgetn n s = (r, s1)"
    by (cases "sgetn n s")
  show thesis
    using that [of s1] sock_in.get_law [OF assms(1) eq] assms eq
    by (simp add: stream_read_def sound_def)
qed

lemma stream_write_sound:
  assumes "sound s" and "idle s" and "length bs \<le> room s"
  shows "incoming (stream_write bs s) = incoming s \<and> outgoing (stream_write bs s) = outgoing s @ bs
    \<and> sound (stream_write bs s) \<and> idle (stream_write bs s)
    \<and> room (stream_write bs s) = room s - length bs"
proof -
  obtain k s1 where eq: "sputn bs s = (k, s1)"
    by (cases "sputn bs s")
  show ?thesis
    using sock.put_law [OF assms eq] assms(1) eq by (simp add: stream_write_def sound_def)
qed

lemma stream_flush_sound:
  assumes "sound s"
  obtains s' where "stream_flush s = s'" and "incoming s' = incoming s" and "outgoing s' = outgoing s"
    and "tx (ep s') = outgoing s" and "sound s'" and "idle s' \<longleftrightarrow> idle s" and "room s' = kBufferSize"
    and "rx (ep s') = rx (ep s)"
proof -
  obtain s' where "sync s = (0, s')" and "grows [] s s'" and "pnext s' = 0"
    and "tx (ep s') = outgoing s" and "oob s' = oob s"
    by (rule sync_grows [OF sound_reliable [OF assms]]) (rule that; assumption)
  then show thesis
    using that [of s'] assms
    by (simp add: stream_flush_def sound_def grows_def good_flags room_def idle_def)
qed

section \<open>Properties\<close>

text \<open>
  C10. Reading from a stream whose connection works delivers the bytes the peer sent, in
  order and without loss, however the kernel cuts them into blocks, and does not disturb
  what has been written and not yet sent.
\<close>

theorem stream_reads_in_order:
  assumes "reliable s"
  shows "\<exists>s'. sgetn n s = (Inr (take n (incoming s)), s') \<and> incoming s' = drop n (incoming s)
    \<and> outgoing s' = outgoing s \<and> oob s' = oob s \<and> reliable s'"
  by (rule sgetn_reliable [OF assms, of n]) (auto simp: advances_def)

theorem stream_reads_in_order_witness:
  "\<exists>s'. sgetn 3 (SocketStream \<lparr>rx = [RdData [1, 2], RdData [3, 4]], wr = [], tx = []\<rparr>)
      = (Inr [1, 2, 3], s') \<and> incoming s' = [4]"
  using stream_reads_in_order
    [of "SocketStream \<lparr>rx = [RdData [1, 2], RdData [3, 4]], wr = [], tx = []\<rparr>" 3]
  by (auto simp: reliable_def SocketStream_def InitializePointers_def incoming_def unread_def)

text \<open>
  C34. Writing to an idle stream whose connection works accepts every byte and keeps their
  order. A byte is stored past the end of the buffer exactly when the data does not fit in
  what is left of the 64 KiB put area: \<^verbatim>\<open>setp\<close> leaves no room for the character that
  \<^verbatim>\<open>overflow\<close> stores before it flushes.
\<close>

theorem stream_write_overrun:
  assumes "reliable s" and "idle s"
  shows "\<exists>s'. sputn bs s = (length bs, s') \<and> outgoing s' = outgoing s @ bs
    \<and> incoming s' = incoming s \<and> (oob s' \<longleftrightarrow> oob s \<or> kBufferSize - pnext s < length bs)"
  by (rule sputn_reliable [OF assms, of bs]) (auto simp: grows_def room_def)

theorem stream_write_overrun_witness:
  "\<exists>s'. sputn (replicate (kBufferSize + 1) 7) (SocketStream \<lparr>rx = [], wr = [], tx = []\<rparr>)
      = (kBufferSize + 1, s') \<and> outgoing s' = replicate (kBufferSize + 1) 7 \<and> oob s'"
proof -
  let ?s = "SocketStream \<lparr>rx = [], wr = [], tx = []\<rparr>"
  have s: "reliable ?s" "idle ?s" "pnext ?s = 0" "outgoing ?s = []"
    by (simp_all add: reliable_def idle_def SocketStream_def InitializePointers_def
        outgoing_def pending_def)
  show ?thesis
    using stream_write_overrun [OF s(1,2), of "replicate (kBufferSize + 1) 7"] s(3,4) by auto
qed

text \<open>
  C39. After a write that takes only \<open>k\<close> of the pending bytes, the pending bytes that remain
  are the first ones of the put area, not the ones that were not sent: the bytes already
  sent are sent again and the unsent ones are lost.
\<close>

theorem short_write_resends_front:
  assumes "wr (ep s) = WrCount k # r" and "k \<le> pnext s"
  shows "fst (sync s) = 0 \<and> tx (ep (snd (sync s))) = tx (ep s) @ take k (pending s)
    \<and> pending (snd (sync s)) = take (pnext s - k) (pending s)"
  using assms
  by (simp add: sync_def SendData_def pending_def take_block kInvalidWrite_def
      block_def take_map nat_diff_distrib flip: of_nat_diff)

theorem short_write_resends_front_witness:
  "tx (ep (snd (sync ((SocketStream \<lparr>rx = [], wr = [WrCount 1], tx = []\<rparr>)
      \<lparr>mem := blit 0 [10, 20, 30] (\<lambda>_. 0), pnext := 3\<rparr>)))) = [10]
   \<and> pending (snd (sync ((SocketStream \<lparr>rx = [], wr = [WrCount 1], tx = []\<rparr>)
      \<lparr>mem := blit 0 [10, 20, 30] (\<lambda>_. 0), pnext := 3\<rparr>))) = [10, 20]"
  using short_write_resends_front [of "(SocketStream \<lparr>rx = [], wr = [WrCount 1], tx = []\<rparr>)
      \<lparr>mem := blit 0 [10, 20, 30] (\<lambda>_. 0), pnext := 3\<rparr>" 1 "[]"]
  by (simp add: SocketStream_def InitializePointers_def pending_def)

text \<open>
  The get area and the put area are the same memory: what is written while received
  bytes wait at the front of the buffer replaces them.
\<close>

theorem write_clobbers_unread:
  assumes "gnext s = 0" and "pnext s = 0" and "gend s \<le> kBufferSize"
    and "length cs \<le> length (unread s)"
  shows "unread (snd (sputn cs s)) = cs @ drop (length cs) (unread s)"
proof -
  have le: "length cs \<le> gend s"
    using assms(1,4) by (simp add: unread_def)
  let ?s' = "s\<lparr>mem := blit 0 cs (mem s), pnext := length cs\<rparr>"
  have "snd (sputn cs s) = ?s'"
    using le assms(2,3) by (simp add: sputn.simps min_absorb2 Let_def)
  moreover have "block (blit 0 cs (mem s)) 0 (gend s) = cs @ block (mem s) (length cs) (gend s)"
    using le block_split [of 0 "length cs" "gend s" "blit 0 cs (mem s)"]
    by (simp add: block_blit_disjoint)
  ultimately show ?thesis
    using assms(1) by (simp add: unread_def drop_block)
qed

theorem write_clobbers_unread_witness:
  "unread (snd (sputn [9] ((SocketStream \<lparr>rx = [], wr = [], tx = []\<rparr>)
      \<lparr>mem := blit 0 [1, 2] (\<lambda>_. 0), gend := 2\<rparr>))) = [9, 2]"
  using write_clobbers_unread [of "(SocketStream \<lparr>rx = [], wr = [], tx = []\<rparr>)
      \<lparr>mem := blit 0 [1, 2] (\<lambda>_. 0), gend := 2\<rparr>" "[9]"]
  by (simp add: SocketStream_def InitializePointers_def unread_def kBufferSize_def kPacketSize_def)

end
