(* ===== verification/FileSystem.thy ===== *)
theory FileSystem
  imports Prelude "HOL-Library.AList"
begin

text \<open>
  The part of \<^verbatim>\<open>std::filesystem\<close> and of the file streams that the program uses, on a
  tree of regular files and directories without symbolic links, permissions or other
  processes; and the helpers of \<^verbatim>\<open>common/utils.hpp\<close>.

  A file system is the working directory of the process and an association list from
  absolute paths (lists of names) to nodes. The order of the list is the order in which a
  directory is iterated, which C++ leaves open.
\<close>

type_synonym fpath = "string list"

datatype node = File "byte list" | Directory

record fsys =
  cwd :: fpath
  ents :: "(fpath \<times> node) list"

definition ENOENT :: int where "ENOENT = 2"

definition EEXIST :: int where "EEXIST = 17"

definition ENOTDIR :: int where "ENOTDIR = 20"

definition EISDIR :: int where "EISDIR = 21"

definition EINVAL :: int where "EINVAL = 22"

definition EBUSY :: int where "EBUSY = 16"

definition ENOTEMPTY :: int where "ENOTEMPTY = 39"

section \<open>Path names\<close>

fun split_slash :: "string \<Rightarrow> string list" where
  "split_slash [] = [[]]"
| "split_slash (c # cs) =
     (if c = CHR ''/'' then [] # split_slash cs
      else (case split_slash cs of [] \<Rightarrow> [[c]] | w # ws \<Rightarrow> (c # w) # ws))"

definition step_name :: "fpath \<Rightarrow> string \<Rightarrow> fpath" where
  "step_name q c = (if c = [] \<or> c = ''.'' then q else if c = ''..'' then butlast q else q @ [c])"

text \<open>Every step of a path resolution starts in a directory.\<close>

fun walk :: "(fpath \<times> node) list \<Rightarrow> fpath \<Rightarrow> string list \<Rightarrow> int + fpath" where
  "walk es q [] = Inr q"
| "walk es q (c # cs) = (case map_of es q of
     Some Directory \<Rightarrow> walk es (step_name q c) cs
   | Some (File _) \<Rightarrow> Inl ENOTDIR
   | None \<Rightarrow> Inl ENOENT)"

text \<open>System calls take a path by \<^verbatim>\<open>c_str\<close>, which ends at the first zero byte.\<close>

definition c_str :: "string \<Rightarrow> string" where
  "c_str p = takeWhile (\<lambda>c. c \<noteq> CHR 0x00) p"

definition resolve :: "fsys \<Rightarrow> string \<Rightarrow> int + fpath" where
  "resolve fs p =
     (if c_str p = [] then Inl ENOENT
      else walk (ents fs) (if hd (c_str p) = CHR ''/'' then [] else cwd fs) (split_slash (c_str p)))"

text \<open>\<^verbatim>\<open>a / b\<close> of two paths, and \<^verbatim>\<open>p.filename()\<close>.\<close>

definition path_append :: "string \<Rightarrow> string \<Rightarrow> string" where
  "path_append a b =
     (if b \<noteq> [] \<and> hd b = CHR ''/'' then b
      else if a = [] \<or> last a = CHR ''/'' then a @ b
      else a @ CHR ''/'' # b)"

definition filename :: "string \<Rightarrow> string" where
  "filename p = rev (takeWhile (\<lambda>c. c \<noteq> CHR ''/'') (rev p))"

section \<open>Operations\<close>

definition status :: "fsys \<Rightarrow> string \<Rightarrow> node option" where
  "status fs p = (case resolve fs p of Inl _ \<Rightarrow> None | Inr q \<Rightarrow> map_of (ents fs) q)"

definition exists_path :: "fsys \<Rightarrow> string \<Rightarrow> bool" where
  "exists_path fs p = (status fs p \<noteq> None)"

definition is_regular_file :: "fsys \<Rightarrow> string \<Rightarrow> bool" where
  "is_regular_file fs p = (case status fs p of Some (File _) \<Rightarrow> True | _ \<Rightarrow> False)"

definition set_node :: "fpath \<Rightarrow> node \<Rightarrow> fsys \<Rightarrow> fsys" where
  "set_node q n fs = fs\<lparr>ents := AList.update q n (ents fs)\<rparr>"

definition del_node :: "fpath \<Rightarrow> fsys \<Rightarrow> fsys" where
  "del_node q fs = fs\<lparr>ents := AList.delete q (ents fs)\<rparr>"

definition has_children :: "fsys \<Rightarrow> fpath \<Rightarrow> bool" where
  "has_children fs q = list_ex (\<lambda>(r, _). r \<noteq> [] \<and> butlast r = q) (ents fs)"

text \<open>
  The last name of a path, slashes at its end aside, and the error with which the system
  refuses to remove the directory \<open>q\<close> under the path \<open>p\<close>, whatever it holds.
\<close>

definition last_name :: "string \<Rightarrow> string" where
  "last_name p = (case rev (filter (\<lambda>c. c \<noteq> []) (split_slash (c_str p))) of [] \<Rightarrow> [] | c # _ \<Rightarrow> c)"

definition rmdir_refused :: "string \<Rightarrow> fpath \<Rightarrow> int option" where
  "rmdir_refused p q =
     (if last_name p = ''.'' then Some EINVAL
      else if last_name p = ''..'' then Some ENOTEMPTY
      else if q = [] then Some EBUSY
      else None)"

text \<open>\<open>Inl\<close> is the error code of the thrown \<^verbatim>\<open>filesystem_error\<close>.\<close>

definition fs_remove :: "fsys \<Rightarrow> string \<Rightarrow> int + (bool \<times> fsys)" where
  "fs_remove fs p = (case resolve fs p of
     Inl e \<Rightarrow> if e = ENOENT then Inr (False, fs) else Inl e
   | Inr q \<Rightarrow> (case map_of (ents fs) q of
        None \<Rightarrow> Inr (False, fs)
      | Some (File _) \<Rightarrow> Inr (True, del_node q fs)
      | Some Directory \<Rightarrow> (case rmdir_refused p q of
          Some e \<Rightarrow> Inl e
        | None \<Rightarrow> if has_children fs q then Inl ENOTEMPTY else Inr (True, del_node q fs))))"

definition del_below :: "fpath \<Rightarrow> fsys \<Rightarrow> fsys" where
  "del_below q fs = fs\<lparr>ents := filter (\<lambda>(r, _). take (length q) r \<noteq> q) (ents fs)\<rparr>"

text \<open>
  \<^verbatim>\<open>remove_all\<close> takes a missing path for removed and throws on every other error. What it
  has removed before it throws is not recorded: \<^verbatim>\<open>Receive\<close>, the one caller it can throw
  in, ends the process then.
\<close>

definition fs_remove_all :: "fsys \<Rightarrow> string \<Rightarrow> int + fsys" where
  "fs_remove_all fs p = (case resolve fs p of
     Inl e \<Rightarrow> if e = ENOENT then Inr fs else Inl e
   | Inr q \<Rightarrow> (case rmdir_refused p q of Some e \<Rightarrow> Inl e | None \<Rightarrow> Inr (del_below q fs)))"

definition create_directory :: "fsys \<Rightarrow> string \<Rightarrow> int + (bool \<times> fsys)" where
  "create_directory fs p = (case resolve fs p of
     Inl e \<Rightarrow> Inl e
   | Inr q \<Rightarrow> (case map_of (ents fs) q of
        None \<Rightarrow> Inr (True, set_node q Directory fs)
      | Some Directory \<Rightarrow> Inr (False, fs)
      | Some (File _) \<Rightarrow> Inl EEXIST))"

text \<open>\<^verbatim>\<open>directory_iterator\<close>: the names of the entries.\<close>

definition directory_names :: "fsys \<Rightarrow> string \<Rightarrow> int + string list" where
  "directory_names fs p = (case resolve fs p of
     Inl e \<Rightarrow> Inl e
   | Inr q \<Rightarrow> (case map_of (ents fs) q of
        None \<Rightarrow> Inl ENOENT
      | Some (File _) \<Rightarrow> Inl ENOTDIR
      | Some Directory \<Rightarrow>
          Inr (map (last \<circ> fst) (filter (\<lambda>(r, _). r \<noteq> [] \<and> butlast r = q) (ents fs)))))"

text \<open>
  Opening an \<^verbatim>\<open>ifstream\<close> succeeds on directories too; \<^verbatim>\<open>file_size\<close> then throws.
  Opening an \<^verbatim>\<open>ofstream\<close> with \<^verbatim>\<open>trunc\<close> empties the file at once and returns where
  the bytes written later go.
\<close>

definition open_out :: "fsys \<Rightarrow> string \<Rightarrow> (fpath \<times> fsys) option" where
  "open_out fs p = (case resolve fs p of
     Inl _ \<Rightarrow> None
   | Inr q \<Rightarrow> if map_of (ents fs) q = Some Directory then None
              else Some (q, set_node q (File []) fs))"

definition copy_file :: "fsys \<Rightarrow> string \<Rightarrow> string \<Rightarrow> int + fsys" where
  "copy_file fs from to = (case (resolve fs from, resolve fs to) of
     (Inl e, _) \<Rightarrow> Inl e
   | (_, Inl e) \<Rightarrow> Inl e
   | (Inr q, Inr r) \<Rightarrow> (case (map_of (ents fs) q, map_of (ents fs) r) of
        (Some (File bs), Some (File _)) \<Rightarrow> if q = r then Inl EEXIST else Inr (set_node r (File bs) fs)
      | (Some (File bs), None) \<Rightarrow> Inr (set_node r (File bs) fs)
      | (None, _) \<Rightarrow> Inl ENOENT
      | _ \<Rightarrow> Inl EISDIR))"

section \<open>Helpers of the program\<close>

definition kSyncDirPrefix :: string where
  "kSyncDirPrefix = ''sync_dir_''"

definition SyncDirWithPrefix :: "string \<Rightarrow> string" where
  "SyncDirWithPrefix username = kSyncDirPrefix @ username"

fun remove_entries :: "string \<Rightarrow> string list \<Rightarrow> fsys \<Rightarrow> int + fsys" where
  "remove_entries p [] fs = Inr fs"
| "remove_entries p (nm # names) fs = (case fs_remove_all fs (path_append p nm) of
     Inl e \<Rightarrow> Inl e
   | Inr fs' \<Rightarrow> remove_entries p names fs')"

definition RemoveAllFromDirectory :: "fsys \<Rightarrow> string \<Rightarrow> int + fsys" where
  "RemoveAllFromDirectory fs p = (case directory_names fs p of
     Inl e \<Rightarrow> Inl e
   | Inr names \<Rightarrow> remove_entries p names fs)"

section \<open>The tree invariant\<close>

lemma c_str_id [simp]: "CHR 0x00 \<notin> set p \<Longrightarrow> c_str p = p"
  by (auto simp: c_str_def takeWhile_eq_all_conv)

text \<open>The nodes as a map, and the invariant that they form a tree rooted in a directory.\<close>

definition node_at :: "fsys \<Rightarrow> fpath \<Rightarrow> node option" where
  "node_at fs q = map_of (ents fs) q"

definition fs_tree :: "fsys \<Rightarrow> bool" where
  "fs_tree fs = (node_at fs [] = Some Directory
     \<and> (\<forall>q n. node_at fs q = Some n \<longrightarrow> q \<noteq> [] \<longrightarrow> node_at fs (butlast q) = Some Directory))"

lemma fs_tree_root: "fs_tree fs \<Longrightarrow> node_at fs [] = Some Directory"
  by (simp add: fs_tree_def)

lemma fs_tree_parent: "fs_tree fs \<Longrightarrow> node_at fs q = Some n \<Longrightarrow> node_at fs (butlast q) = Some Directory"
  by (cases "q = []") (auto simp: fs_tree_def)

lemma node_at_set [simp]: "node_at (set_node q n fs) = (node_at fs)(q \<mapsto> n)"
  by (rule ext) (simp add: node_at_def set_node_def update_conv')

lemma node_at_del [simp]: "node_at (del_node q fs) = (node_at fs)(q := None)"
  by (rule ext) (simp add: node_at_def del_node_def delete_conv')

lemma cwd_set [simp]: "cwd (set_node q n fs) = cwd fs" "cwd (del_node q fs) = cwd fs"
  by (simp_all add: set_node_def del_node_def)

lemma status_node: "resolve fs p = Inr q \<Longrightarrow> status fs p = node_at fs q"
  by (simp add: status_def node_at_def)

text \<open>
  A resolved path is a directory or an entry of a directory: the last step started there.
\<close>

lemma walk_parent:
  assumes "walk es q cs = Inr r" and "cs \<noteq> []" and es: "es = ents fs" and tree: "fs_tree fs"
  shows "node_at fs r = Some Directory \<or> r \<noteq> [] \<and> node_at fs (butlast r) = Some Directory"
  using assms(1,2)
proof (induction cs arbitrary: q)
  case (Cons c cs)
  from Cons.prems have q: "node_at fs q = Some Directory" and w: "walk es (step_name q c) cs = Inr r"
    by (auto simp: node_at_def es split: option.splits node.splits)
  show ?case
  proof (cases cs)
    case Nil
    then have "r = step_name q c"
      using w by simp
    then show ?thesis
      using q fs_tree_parent [OF tree q] by (auto simp: step_name_def)
  next
    case (Cons c' cs')
    then show ?thesis
      using Cons.IH [OF w] by simp
  qed
qed simp

lemma walk_node_at:
  "node_at fs = node_at gs \<Longrightarrow> walk (ents fs) q cs = walk (ents gs) q cs"
  by (induction cs arbitrary: q) (auto simp: node_at_def fun_eq_iff split: option.splits node.splits)

lemma split_slash_nonempty [simp]: "split_slash p \<noteq> []"
  by (induction p) (auto split: list.splits)

lemma resolve_parent:
  assumes "resolve fs p = Inr q" and "fs_tree fs"
  shows "node_at fs q = Some Directory \<or> q \<noteq> [] \<and> node_at fs (butlast q) = Some Directory"
  using assms walk_parent [OF _ split_slash_nonempty refl assms(2)]
  by (auto simp: resolve_def split: if_splits)

text \<open>A path with a dot for its last name is that of a directory, and so is the root.\<close>

lemma walk_slashes: "walk es q cs = Inr r \<Longrightarrow> filter (\<lambda>c. c \<noteq> []) cs = [] \<Longrightarrow> r = q"
  by (induction cs arbitrary: q) (auto simp: step_name_def split: option.splits node.splits if_splits)

lemma walk_dots:
  assumes "walk (ents fs) q cs = Inr r" and "fs_tree fs" and "rev (filter (\<lambda>c. c \<noteq> []) cs) = x # xs" and "x = ''.'' \<or> x = ''..''"
  shows "node_at fs r = Some Directory"
  using assms(1,3)
proof (induction cs arbitrary: q xs)
  case (Cons c cs)
  from Cons.prems(1) have q: "node_at fs q = Some Directory" and w: "walk (ents fs) (step_name q c) cs = Inr r"
    by (auto simp: node_at_def split: option.splits node.splits)
  show ?case
  proof (cases "rev (filter (\<lambda>c. c \<noteq> []) cs)")
    case Nil
    then have "c = x"
      using Cons.prems(2) by (auto split: if_splits)
    then show ?thesis
      using walk_slashes [OF w] Nil assms(4) q fs_tree_parent [OF assms(2) q] by (auto simp: step_name_def)
  next
    case (Cons y ys)
    then show ?thesis
      using Cons.IH [OF w] Cons.prems(2) by (auto split: if_splits)
  qed
qed simp

lemma refused_directory:
  assumes "resolve fs p = Inr q" and "fs_tree fs" and "rmdir_refused p q \<noteq> None"
  shows "node_at fs q = Some Directory"
proof (cases "q = []")
  case False
  then have "last_name p = ''.'' \<or> last_name p = ''..''"
    using assms(3) by (auto simp: rmdir_refused_def split: if_splits)
  then obtain x xs where "rev (filter (\<lambda>c. c \<noteq> []) (split_slash (c_str p))) = x # xs" "x = ''.'' \<or> x = ''..''"
    by (auto simp: last_name_def split: list.splits)
  then show ?thesis
    using assms(1) walk_dots [OF _ assms(2)] by (auto simp: resolve_def split: if_splits)
qed (use fs_tree_root [OF assms(2)] in simp)

lemma fs_tree_set:
  assumes "fs_tree fs" and "node_at fs q \<noteq> Some Directory" and "q \<noteq> []"
    and "node_at fs (butlast q) = Some Directory"
  shows "fs_tree (set_node q n fs)"
  using assms unfolding fs_tree_def by (auto split: if_splits)

lemma fs_tree_del:
  assumes "fs_tree fs" and "q \<noteq> []" and "\<not> has_children fs q"
  shows "fs_tree (del_node q fs)"
proof -
  have "butlast r \<noteq> q" if "node_at fs r = Some n" "r \<noteq> []" for r n
    using assms(3) map_of_SomeD [OF that(1) [unfolded node_at_def]] that(2)
    by (auto simp: has_children_def list_ex_iff)
  then show ?thesis
    using assms(1,2) unfolding fs_tree_def by (auto split: if_splits)
qed

lemma file_no_children:
  assumes "fs_tree fs" and "distinct (map fst (ents fs))" and "node_at fs q \<noteq> Some Directory"
  shows "\<not> has_children fs q"
proof
  assume "has_children fs q"
  then obtain r n where "(r, n) \<in> set (ents fs)" "r \<noteq> []" "butlast r = q"
    by (auto simp: has_children_def list_ex_iff)
  then show False
    using assms fs_tree_parent [OF assms(1), of r n] by (simp add: node_at_def)
qed

text \<open>Below a path that names no node there is nothing.\<close>

lemma node_prefix:
  assumes "fs_tree fs" and "node_at fs (q @ r) = Some n" and "r \<noteq> []"
  shows "node_at fs q = Some Directory"
  using assms(2,3)
proof (induction r arbitrary: n rule: rev_induct)
  case (snoc x r)
  have "node_at fs (q @ r) = Some Directory"
    using fs_tree_parent [OF assms(1) snoc.prems(1)] by (simp add: butlast_append)
  then show ?case
    using snoc.IH by (cases "r = []") auto
qed simp

lemma node_at_del_below: "node_at (del_below q fs) r = (if take (length q) r = q then None else node_at fs r)"
proof -
  have "map_of (filter (\<lambda>(r, _). take (length q) r \<noteq> q) es) r
      = (if take (length q) r = q then None else map_of es r)" for es :: "(fpath \<times> node) list"
    by (induction es) auto
  then show ?thesis
    by (simp add: del_below_def node_at_def)
qed

lemma cwd_del_below [simp]: "cwd (del_below q fs) = cwd fs"
  by (simp add: del_below_def)

lemma del_below_missing:
  assumes "fs_tree fs" and "node_at fs q = None"
  shows "node_at (del_below q fs) = node_at fs"
proof
  fix r
  have "node_at fs r = None" if "take (length q) r = q"
    using node_prefix [OF assms(1), of q "drop (length q) r"] assms(2) that
    by (cases "r = q") (metis append_Nil2 append_take_drop_id not_Some_eq option.distinct(1))+
  then show "node_at (del_below q fs) r = node_at fs r"
    by (simp add: node_at_del_below)
qed

lemma fs_tree_del_below:
  assumes "fs_tree fs" and "q \<noteq> []"
  shows "fs_tree (del_below q fs)"
proof -
  have "take (length q) r = q" if "take (length q) (butlast r) = q" for r
    using that by (auto simp: butlast_conv_take min_def dest: arg_cong [of _ _ length] split: if_splits)
  then show ?thesis
    using assms unfolding fs_tree_def node_at_del_below by (auto split: if_splits)
qed

lemma remove_all_result:
  "fs_remove_all fs p = Inr fs' \<Longrightarrow> fs' = fs \<or> (\<exists>q. resolve fs p = Inr q \<and> q \<noteq> [] \<and> fs' = del_below q fs)"
  by (auto simp: fs_remove_all_def rmdir_refused_def split: sum.splits if_splits)

lemma fs_tree_remove_all: "fs_tree fs \<Longrightarrow> fs_remove_all fs p = Inr fs' \<Longrightarrow> fs_tree fs'"
  by (auto dest!: remove_all_result simp: fs_tree_del_below)

text \<open>Each operation that succeeds keeps the tree.\<close>

lemma fs_tree_ops:
  assumes "fs_tree fs" and "distinct (map fst (ents fs))"
  shows "fs_remove fs p = Inr (b, fs') \<Longrightarrow> fs_tree fs'"
    and "create_directory fs p = Inr (b, fs') \<Longrightarrow> fs_tree fs'"
    and "open_out fs p = Some (q, fs') \<Longrightarrow> fs_tree fs' \<and> fs_tree (set_node q (File bs) fs')"
    and "copy_file fs p p' = Inr fs' \<Longrightarrow> fs_tree fs'"
proof -
  have put: "fs_tree (set_node q n fs)"
    if "resolve fs r = Inr q" "node_at fs q \<noteq> Some Directory" for r q n
    using resolve_parent [OF that(1) assms(1)] that(2) assms(1) by (auto intro: fs_tree_set)
  have root: "node_at fs q = Some (File cs) \<Longrightarrow> q \<noteq> []" for q cs
    using fs_tree_root [OF assms(1)] by auto
  show "fs_remove fs p = Inr (b, fs') \<Longrightarrow> fs_tree fs'"
    using assms(1) root file_no_children [OF assms]
    by (fastforce simp: fs_remove_def rmdir_refused_def simp flip: node_at_def intro: fs_tree_del
        split: sum.splits option.splits node.splits if_splits)
  show "create_directory fs p = Inr (b, fs') \<Longrightarrow> fs_tree fs'"
    using assms(1) put
    by (auto simp: create_directory_def simp flip: node_at_def
        split: sum.splits option.splits node.splits)
  show "copy_file fs p p' = Inr fs' \<Longrightarrow> fs_tree fs'"
    using put by (auto simp: copy_file_def simp flip: node_at_def
        split: sum.splits option.splits node.splits if_splits)
  assume o: "open_out fs p = Some (q, fs')"
  then have q: "resolve fs p = Inr q" "node_at fs q \<noteq> Some Directory" "fs' = set_node q (File []) fs"
    by (auto simp: open_out_def simp flip: node_at_def split: sum.splits if_splits)
  moreover have "fs_tree (set_node q (File bs) fs')"
    using put [OF q(1,2), of "File bs"] unfolding fs_tree_def by (simp add: q(3))
  ultimately show "fs_tree fs' \<and> fs_tree (set_node q (File bs) fs')"
    using put by simp
qed

section \<open>Names in the synchronised directory\<close>

definition simple_name :: "string \<Rightarrow> bool" where
  "simple_name f = (f \<noteq> [] \<and> CHR ''/'' \<notin> set f \<and> CHR 0x00 \<notin> set f \<and> f \<noteq> ''.'' \<and> f \<noteq> ''..'')"

lemma split_slash_simple: "CHR ''/'' \<notin> set f \<Longrightarrow> split_slash f = [f]"
  by (induction f) auto

lemma split_slash_append:
  "CHR ''/'' \<notin> set d \<Longrightarrow> split_slash (d @ CHR ''/'' # p) = d # split_slash p"
  by (induction d) auto

lemma step_simple [simp]: "simple_name c \<Longrightarrow> step_name q c = q @ [c]"
  by (simp add: step_name_def simple_name_def)

lemma simple_nonempty: "simple_name f \<Longrightarrow> f \<noteq> [] \<and> hd f \<noteq> CHR ''/''"
  by (cases f) (auto simp: simple_name_def)

lemma simple_c_str [simp]: "simple_name f \<Longrightarrow> c_str f = f"
  by (simp add: simple_name_def)

lemma resolve_name:
  assumes "simple_name d" and "node_at fs (cwd fs) = Some Directory"
  shows "resolve fs d = Inr (cwd fs @ [d])"
  using assms simple_nonempty [OF assms(1)]
  by (simp add: resolve_def split_slash_simple [of d] node_at_def) (simp add: simple_name_def split_slash_simple)

lemma split_in_dir:
  assumes "simple_name d" and "simple_name f"
  shows "split_slash (d @ CHR ''/'' # f) = [d, f]" "c_str (d @ CHR ''/'' # f) = d @ CHR ''/'' # f"
  using assms by (simp_all add: simple_name_def split_slash_append split_slash_simple)

lemma last_name_in_dir:
  assumes "simple_name d" and "simple_name f"
  shows "last_name (d @ CHR ''/'' # f) = f"
  using simple_nonempty [OF assms(1)] simple_nonempty [OF assms(2)] by (simp add: last_name_def split_in_dir [OF assms])

lemma simple_not_refused: "simple_name d \<Longrightarrow> q \<noteq> [] \<Longrightarrow> rmdir_refused d q = None"
  by (simp add: rmdir_refused_def last_name_def split_slash_simple simple_name_def)

lemma resolve_in_dir:
  assumes "simple_name d" and "simple_name f"
    and "node_at fs (cwd fs) = Some Directory" and "node_at fs (cwd fs @ [d]) = Some Directory"
  shows "resolve fs (d @ CHR ''/'' # f) = Inr (cwd fs @ [d, f])"
  using assms(3,4) simple_nonempty [OF assms(1)] assms(1,2)
  by (simp add: resolve_def split_in_dir node_at_def)

lemma simple_sync_dir:
  "CHR ''/'' \<notin> set u \<Longrightarrow> CHR 0x00 \<notin> set u \<Longrightarrow> simple_name (SyncDirWithPrefix u)"
  by (simp add: simple_name_def SyncDirWithPrefix_def kSyncDirPrefix_def)

lemma path_append_dir:
  "simple_name d \<Longrightarrow> simple_name f \<Longrightarrow> path_append d f = d @ CHR ''/'' # f"
  using simple_nonempty [of f] by (auto simp: path_append_def simple_name_def dest: last_in_set)

lemma filename_simple: "simple_name f \<Longrightarrow> filename f = f"
  unfolding filename_def
  by (subst takeWhile_eq_all_conv [THEN iffD2]) (auto simp: simple_name_def)

lemma filename_in_dir: "CHR ''/'' \<notin> set f \<Longrightarrow> filename (d @ CHR ''/'' # f) = f"
  by (simp add: filename_def takeWhile_append takeWhile_tail)

section \<open>Emptying a directory\<close>

lemma cwd_remove_all [simp]: "fs_remove_all fs p = Inr fs' \<Longrightarrow> cwd fs' = cwd fs"
  by (auto dest!: remove_all_result)

lemma remove_entries_dir:
  assumes "simple_name d" and "list_all simple_name names"
    and "node_at fs (cwd fs) = Some Directory" and "node_at fs (cwd fs @ [d]) = Some Directory"
  shows "\<exists>fs'. remove_entries d names fs = Inr fs' \<and> cwd fs' = cwd fs \<and> (\<forall>r. node_at fs' r
    = (if \<exists>nm\<in>set names. take (length (cwd fs) + 2) r = cwd fs @ [d, nm] then None else node_at fs r))"
  using assms(2-)
proof (induction names arbitrary: fs)
  case (Cons nm names)
  let ?q = "cwd fs @ [d, nm]"
  have nm: "simple_name nm" "last_name (path_append d nm) = nm" "resolve fs (path_append d nm) = Inr ?q"
    using Cons.prems assms(1) by (simp_all add: path_append_dir resolve_in_dir last_name_in_dir)
  then have one: "fs_remove_all fs (path_append d nm) = Inr (del_below ?q fs)"
    by (simp add: fs_remove_all_def rmdir_refused_def simple_name_def)
  have at: "node_at (del_below ?q fs) r = (if take (length (cwd fs) + 2) r = ?q then None else node_at fs r)" for r
    by (simp add: node_at_del_below)
  show ?case
    using Cons.IH [of "del_below ?q fs"] Cons.prems one by (auto simp: at)
qed simp

lemma directory_names_dir:
  assumes "resolve fs p = Inr q" and "node_at fs q = Some Directory"
  shows "directory_names fs p
    = Inr (map (last \<circ> fst) (filter (\<lambda>(r, _). r \<noteq> [] \<and> butlast r = q) (ents fs)))"
  using assms by (simp add: directory_names_def node_at_def)

lemma remove_all_entries:
  assumes "fs_tree fs" and "simple_name d" and "list_all (\<lambda>(r, _). r \<noteq> [] \<longrightarrow> simple_name (last r)) (ents fs)"
    and "node_at fs (cwd fs) = Some Directory" and "node_at fs (cwd fs @ [d]) = Some Directory"
  shows "\<exists>fs'. RemoveAllFromDirectory fs d = Inr fs' \<and> cwd fs' = cwd fs
    \<and> (\<forall>r. node_at fs' r = (if take (length (cwd fs) + 1) r = cwd fs @ [d] \<and> r \<noteq> cwd fs @ [d]
          then None else node_at fs r))"
proof -
  let ?q = "cwd fs @ [d]"
  define names where "names = map (last \<circ> fst) (filter (\<lambda>(r, _). r \<noteq> [] \<and> butlast r = ?q) (ents fs))"
  have simple: "list_all simple_name names"
    using assms(3) by (auto simp: names_def list_all_iff)
  obtain fs' where fs': "remove_entries d names fs = Inr fs'" "cwd fs' = cwd fs"
    and at: "\<And>r. node_at fs' r
      = (if \<exists>nm\<in>set names. take (length (cwd fs) + 2) r = cwd fs @ [d, nm] then None else node_at fs r)"
    using remove_entries_dir [OF assms(2) simple assms(4,5)] by blast
  have "RemoveAllFromDirectory fs d = Inr fs'"
    using directory_names_dir [OF resolve_name [OF assms(2,4)] assms(5)] fs'(1)
    by (simp add: RemoveAllFromDirectory_def names_def)
  moreover have "node_at fs' r = (if take (length (cwd fs) + 1) r = ?q \<and> r \<noteq> ?q then None else node_at fs r)" for r
  proof (cases "take (length (cwd fs) + 1) r = ?q \<and> r \<noteq> ?q \<and> node_at fs r \<noteq> None")
    case True
    then obtain nm rest where r: "r = ?q @ nm # rest"
      by (metis append_Nil2 append_take_drop_id list.exhaust)
    then have "node_at fs (?q @ [nm]) \<noteq> None"
      using True node_prefix [OF assms(1), of "?q @ [nm]" rest] by (cases "rest = []") auto
    then obtain n where "(?q @ [nm], n) \<in> set (ents fs)"
      by (auto simp: node_at_def dest: map_of_SomeD)
    then have "nm \<in> set names"
      by (auto simp: names_def butlast_append intro!: rev_image_eqI [of "(?q @ [nm], n)"])
    then show ?thesis
      using True r by (simp add: at)
  next
    case False
    moreover have "take (length (cwd fs) + 1) r = ?q \<and> r \<noteq> ?q" if "take (length (cwd fs) + 2) r = cwd fs @ [d, nm]" for nm
      using that append_take_drop_id [of "length (cwd fs) + 2" r]
      by (metis (no_types, lifting) append_Cons append_Nil append_assoc length_append_singleton
          append_self_conv append_eq_conv_conj not_Cons_self2 list.distinct(1) add.right_neutral add_Suc_right One_nat_def same_append_eq)
    ultimately show ?thesis
      by (auto simp: at)
  qed
  ultimately show ?thesis
    using fs'(2) by blast
qed

text \<open>
  Emptying the synchronised directory removes everything below it and nothing else.
\<close>

theorem RemoveAllFromDirectory_empties:
  assumes "fs_tree fs" and "simple_name d" and "list_all (\<lambda>(r, _). r \<noteq> [] \<longrightarrow> simple_name (last r)) (ents fs)"
    and "node_at fs (cwd fs) = Some Directory" and "node_at fs (cwd fs @ [d]) = Some Directory"
  shows "\<exists>fs'. RemoveAllFromDirectory fs d = Inr fs' \<and> cwd fs' = cwd fs
    \<and> (\<forall>r. node_at fs' r = (if take (length (cwd fs) + 1) r = cwd fs @ [d] \<and> r \<noteq> cwd fs @ [d]
          then None else node_at fs r))"
  by (rule remove_all_entries [OF assms])

theorem RemoveAllFromDirectory_empties_witness:
  "\<exists>fs'. RemoveAllFromDirectory \<lparr>cwd = [], ents = [([], Directory), ([''d''], Directory),
      ([''d'', ''f''], File [1]), ([''g''], File [2])]\<rparr> ''d'' = Inr fs'
    \<and> node_at fs' [''d'', ''f''] = None \<and> node_at fs' [''g''] = Some (File [2])"
proof -
  let ?fs = "\<lparr>cwd = [], ents = [([], Directory), ([''d''], Directory),
      ([''d'', ''f''], File [1]), ([''g''], File [2])]\<rparr>"
  have "fs_tree ?fs"
    by (auto simp: fs_tree_def node_at_def)
  then obtain fs' where fs': "RemoveAllFromDirectory ?fs ''d'' = Inr fs'"
    "\<forall>r. node_at fs' r = (if take 1 r = [''d''] \<and> r \<noteq> [''d''] then None else node_at ?fs r)"
    using RemoveAllFromDirectory_empties [of ?fs "''d''"]
    by (auto simp: simple_name_def node_at_def)
  have "node_at fs' [''d'', ''f''] = None" "node_at fs' [''g''] = Some (File [2])"
    using fs'(2) [rule_format, of "[''d'', ''f'']"] fs'(2) [rule_format, of "[''g'']"]
    by (simp_all add: node_at_def)
  then show ?thesis
    using fs'(1) by blast
qed

end
