(* ===== verification/Exchange.thy ===== *)
theory Exchange
  imports Prelude Commands Archives SocketStream FileSystem
begin

text \<open>
  The file exchange protocol: \<^verbatim>\<open>common/communication/protocol.hpp\<close> and
  \<^verbatim>\<open>protocol.cpp\<close>, and the composites that own an exchange,
  \<^verbatim>\<open>common/composite/Base.hpp\<close> and \<^verbatim>\<open>Sender.cpp\<close>.

  An exchange is its path and the stream it refers to. Its methods are \<^verbatim>\<open>noexcept\<close>: an
  exception that leaves \<^verbatim>\<open>SendCommand\<close> ends the process, which the model gives as
  \<open>None\<close>, as it does for a receive loop that never ends. The other methods catch what they
  throw and report it as \<^verbatim>\<open>false\<close>.
\<close>

record fexch =
  xpath :: string
  strm :: sstream

section \<open>Archives on a socket stream\<close>

definition save :: "byte list \<Rightarrow> sstream \<Rightarrow> bool \<times> sstream" where
  "save bs s = (let (k, s1) = sputn bs s in (k = length bs, s1))"

definition load :: "'a reader \<Rightarrow> sstream \<Rightarrow> 'a load \<times> sstream" where
  "load r s = run_reader sgetn r s"

section \<open>FileExchange\<close>

definition FileExchange :: "sstream \<Rightarrow> fexch" where
  "FileExchange s = \<lparr>xpath = [], strm = s\<rparr>"

definition SetPath :: "string \<Rightarrow> fexch \<Rightarrow> fexch" where
  "SetPath p x = x\<lparr>xpath := p\<rparr>"

definition SetStream :: "sstream \<Rightarrow> fexch \<Rightarrow> fexch" where
  "SetStream s x = x\<lparr>strm := s\<rparr>"

definition Flush :: "fexch \<Rightarrow> fexch" where
  "Flush x = x\<lparr>strm := stream_flush (strm x)\<rparr>"

definition SendCommand :: "codec \<Rightarrow> Command \<Rightarrow> fexch \<Rightarrow> fexch option" where
  "SendCommand C c x = (case save (enc_cmd C (cmd_code c)) (strm x) of
     (True, s) \<Rightarrow> Some (x\<lparr>strm := s\<rparr>)
   | (False, _) \<Rightarrow> None)"

text \<open>
  \<^verbatim>\<open>ReceiveCommand\<close>: a load that finds the connection closed (the message of cereal's
  exception ends in \<^verbatim>\<open>Read 0\<close>) is reported as \<^verbatim>\<open>connection_aborted\<close>, every other
  failure with the current \<^verbatim>\<open>errno\<close>.
\<close>

definition ReceiveCommand :: "codec \<Rightarrow> fexch \<Rightarrow> (int + wire) \<times> fexch" where
  "ReceiveCommand C x =
     (let (r, s) = load (rd_cmd C) (strm x); x1 = x\<lparr>strm := s\<rparr>
      in (case r of
            Loaded b \<Rightarrow> (Inr (wire_of b), x1)
          | ReadShort k \<Rightarrow> (Inl (if k = 0 then ECONNABORTED else errno s), x1)
          | SysErr e \<Rightarrow> (Inl (errno s), x1)
          | OtherErr \<Rightarrow> (Inl (errno s), x1)))"

definition SendPath :: "codec \<Rightarrow> fexch \<Rightarrow> bool \<times> fexch" where
  "SendPath C x = (let (ok, s) = save (enc_str C (xpath x)) (strm x) in (ok, x\<lparr>strm := s\<rparr>))"

definition ReceivePath :: "codec \<Rightarrow> fexch \<Rightarrow> bool \<times> fexch" where
  "ReceivePath C x = (case load (rd_str C) (strm x) of
     (Loaded p, s) \<Rightarrow> (True, SetPath p (x\<lparr>strm := s\<rparr>))
   | (_, s) \<Rightarrow> (False, x\<lparr>strm := s\<rparr>))"

text \<open>
  The body of \<^verbatim>\<open>Send\<close>: blocks of \<^verbatim>\<open>kPacketSize\<close> bytes until a read of the file hits
  its end, which a file of a multiple of \<^verbatim>\<open>kPacketSize\<close> bytes does with an empty block.
\<close>

function send_loop :: "byte list \<Rightarrow> sstream \<Rightarrow> sstream" where
  "send_loop content s =
     (let blk = take kPacketSize content; s1 = stream_write blk s
      in if length blk < kPacketSize then s1 else send_loop (drop kPacketSize content) s1)"
  by pat_completeness auto
termination
  by (relation "measure (length \<circ> fst)")
    (auto intro!: diff_less order.strict_trans2 [OF kPacketSize_pos])

declare send_loop.simps [simp del]

definition Send :: "codec \<Rightarrow> fsys \<Rightarrow> fexch \<Rightarrow> bool \<times> fexch" where
  "Send C fs x = (case status fs (xpath x) of
     None \<Rightarrow> (False, x)
   | Some Directory \<Rightarrow> (False, x)
   | Some (File content) \<Rightarrow>
       (case save (enc_i64 C (of_nat (length content))) (strm x) of
          (False, s) \<Rightarrow> (False, x\<lparr>strm := s\<rparr>)
        | (True, s) \<Rightarrow> (True, x\<lparr>strm := send_loop content s\<rparr>)))"

text \<open>
  The loop of \<^verbatim>\<open>Receive\<close>: the bytes still to come, the stream, and what has been written
  to the file. \<open>None\<close> is a loop that never ends.
\<close>

partial_function (option) recv_loop ::
  "int \<Rightarrow> sstream \<Rightarrow> byte list \<Rightarrow> (bool \<times> byte list \<times> sstream) option" where
  "recv_loop remaining_size s acc =
     (if remaining_size = 0 then Some (True, acc, s)
      else let kBytesToReceive = min remaining_size (int kPacketSize);
               r = stream_read kBytesToReceive s;
               kBytesReceived = int (length (fst r))
           in if kBytesReceived = kInvalidRead then Some (False, acc, snd r)
              else recv_loop (remaining_size - kBytesReceived) (snd r) (acc @ fst r))"

declare recv_loop.simps [code]

text \<open>An error of \<^verbatim>\<open>remove_all\<close>, outside of the \<^verbatim>\<open>try\<close>, leaves the \<^verbatim>\<open>noexcept\<close> function.\<close>

definition Receive :: "codec \<Rightarrow> fsys \<Rightarrow> fexch \<Rightarrow> (bool \<times> fexch \<times> fsys) option" where
  "Receive C fs x =
     (case if is_regular_file fs (xpath x) then Inr fs else fs_remove_all fs (xpath x) of
        Inl _ \<Rightarrow> None
      | Inr fs1 \<Rightarrow>
          (case open_out fs1 (xpath x) of
             None \<Rightarrow> Some (False, x, fs1)
           | Some (q, fs2) \<Rightarrow>
               (case load (rd_i64 C) (strm x) of
                  (Loaded n, s) \<Rightarrow>
                    (case recv_loop (sint n) s [] of
                       None \<Rightarrow> None
                     | Some (ok, bs, s1) \<Rightarrow> Some (ok, x\<lparr>strm := s1\<rparr>, set_node q (File bs) fs2))
                | (_, s) \<Rightarrow> Some (False, x\<lparr>strm := s\<rparr>, fs2))))"

section \<open>Composites\<close>

definition Base :: "endpoint \<Rightarrow> fexch" where
  "Base e = FileExchange (SocketStream e)"

definition Sender_Upload :: "codec \<Rightarrow> fsys \<Rightarrow> string \<Rightarrow> fexch \<Rightarrow> (bool \<times> fexch) option" where
  "Sender_Upload C fs p x = (case SendCommand C kUpload x of
     None \<Rightarrow> None
   | Some x1 \<Rightarrow>
       (case SendPath C (SetPath p x1) of
          (False, x2) \<Rightarrow> Some (False, x2)
        | (True, x2) \<Rightarrow>
            (case Send C fs x2 of
               (False, x3) \<Rightarrow> Some (False, x3)
             | (True, x3) \<Rightarrow> Some (True, Flush x3))))"

definition Sender_Delete :: "codec \<Rightarrow> string \<Rightarrow> fexch \<Rightarrow> (bool \<times> fexch) option" where
  "Sender_Delete C p x = (case SendCommand C kDelete x of
     None \<Rightarrow> None
   | Some x1 \<Rightarrow>
       (case SendPath C (SetPath p x1) of
          (False, x2) \<Rightarrow> Some (False, x2)
        | (True, x2) \<Rightarrow> Some (True, Flush x2)))"

section \<open>Writing and reading on a sound stream\<close>

text \<open>
  \<open>wrote bs s s'\<close>: the bytes \<open>bs\<close> were appended; \<open>took rest s s'\<close>: reading left \<open>rest\<close>.
\<close>

definition wrote :: "byte list \<Rightarrow> sstream \<Rightarrow> sstream \<Rightarrow> bool" where
  "wrote bs s s' = (incoming s' = incoming s \<and> outgoing s' = outgoing s @ bs \<and> sound s' \<and> idle s'
     \<and> room s' = room s - length bs)"

definition took :: "byte list \<Rightarrow> sstream \<Rightarrow> sstream \<Rightarrow> bool" where
  "took rest s s' = (incoming s' = rest \<and> outgoing s' = outgoing s \<and> sound s' \<and> room s \<le> room s')"

lemma wrote_trans: "wrote bs s t \<Longrightarrow> wrote cs t u \<Longrightarrow> wrote (bs @ cs) s u"
  by (simp add: wrote_def)

lemma wrote_ready: "wrote bs s t \<Longrightarrow> sound t \<and> idle t \<and> room t = room s - length bs"
  by (simp add: wrote_def)

lemma took_sound: "took rest s t \<Longrightarrow> sound t \<and> incoming t = rest"
  by (simp add: took_def)

lemma took_trans: "took r s t \<Longrightarrow> took r' t u \<Longrightarrow> took r' s u"
  by (simp add: took_def)

lemma save_sound:
  assumes "sound s" and "idle s" and "length bs \<le> room s"
  obtains s' where "save bs s = (True, s')" and "wrote bs s s'"
proof -
  obtain k s' where "sputn bs s = (k, s')"
    by (cases "sputn bs s")
  then show thesis
    using that [of s'] sock.put_law [OF assms] by (simp add: save_def wrote_def)
qed

lemma load_sound:
  assumes "sound s" and "feed r (incoming s) = (Loaded x, rest)"
  obtains s' where "load r s = (Loaded x, s')" and "took rest s s'"
  using sock_in.run_reader_loaded [OF assms] that by (auto simp: load_def took_def)

lemma load_starved:
  assumes "sound s" and "incoming s = []" and "feed r [] = (ReadShort 0, [])"
  obtains s' where "load r s = (ReadShort 0, s')" and "took [] s s'"
proof -
  obtain x s' where "run_reader sgetn r s = (x, s')"
    by (cases "run_reader sgetn r s")
  then show thesis
    using that [of s'] sock_in.run_reader_feed [OF assms(1)] assms(2,3)
    by (fastforce simp: load_def took_def)
qed

subsection \<open>The send loop\<close>

lemma stream_write_grows:
  assumes "reliable s" and "idle s" and "good s"
  shows "grows bs s (stream_write bs s) \<and> (oob (stream_write bs s) \<longleftrightarrow> oob s \<or> room s < length bs)
    \<and> (length bs \<le> room s \<longrightarrow> room (stream_write bs s) = room s - length bs)"
  by (rule sputn_reliable [OF assms(1,2), of bs]) (use assms(3) in \<open>auto simp: stream_write_def room_def\<close>)

lemma send_loop_grows:
  assumes "reliable s" and "idle s" and "good s"
  shows "grows content s (send_loop content s)
    \<and> (oob (send_loop content s) \<longleftrightarrow> oob s \<or> room s < length content)
    \<and> (length content \<le> room s \<longrightarrow> room (send_loop content s) = room s - length content)"
  using assms
proof (induction content s rule: send_loop.induct)
  case (1 content s)
  define blk where "blk = take kPacketSize content"
  define s1 where "s1 = stream_write blk s"
  have s1: "grows blk s s1" "oob s1 \<longleftrightarrow> oob s \<or> room s < length blk"
    "length blk \<le> room s \<longrightarrow> room s1 = room s - length blk"
    using stream_write_grows [OF "1.prems", of blk] by (auto simp: s1_def)
  show ?case
  proof (cases "length blk < kPacketSize")
    case True
    then have "send_loop content s = s1"
      by (simp add: send_loop.simps [of content s] Let_def flip: blk_def s1_def)
    moreover have "blk = content"
      using True by (auto simp: blk_def)
    ultimately show ?thesis
      using s1 by simp
  next
    case False
    then have len: "length blk = kPacketSize" "kPacketSize \<le> length content"
      by (auto simp: blk_def)
    have ready: "reliable s1" "idle s1" "good s1"
      using s1(1) "1.prems" by (auto simp: grows_def idle_def good_flags)
    let ?s2 = "send_loop (drop kPacketSize content) s1"
    have eq: "send_loop content s = ?s2"
      using False by (simp add: send_loop.simps [of content s] Let_def flip: blk_def s1_def)
    have IH: "grows (drop kPacketSize content) s1 ?s2"
      "oob ?s2 \<longleftrightarrow> oob s1 \<or> room s1 < length content - kPacketSize"
      "length content - kPacketSize \<le> room s1 \<longrightarrow> room ?s2 = room s1 - (length content - kPacketSize)"
      using "1.IH" [OF blk_def s1_def False ready] by auto
    have "grows content s ?s2"
      using grows_trans [OF s1(1) IH(1)] by (simp add: blk_def)
    then show ?thesis
      using s1(2,3) IH(2,3) len unfolding eq by auto
  qed
qed

lemma send_loop_sound:
  assumes "sound s" and "idle s" and "length content \<le> room s"
  shows "wrote content s (send_loop content s)"
  using send_loop_grows [of s content] assms
  by (auto simp: sound_def wrote_def grows_def idle_def good_flags)

subsection \<open>The receive loop\<close>

text \<open>A stream that is not good stays so and delivers nothing: the loop cannot end.\<close>

lemma recv_loop_stuck:
  assumes "recv_loop rem s acc = Some res"
  shows "good s \<or> rem = 0"
proof (rule recv_loop.raw_induct [where P = "\<lambda>rem s acc res. good s \<or> rem = 0", OF _ assms])
  fix f rem s acc res
  assume IH: "\<And>rem s acc res. f rem s acc = Some res \<Longrightarrow> good s \<or> rem = 0"
    and eq: "(if rem = 0 then Some (True, acc, s)
       else let kBytesToReceive = min rem (int kPacketSize);
                r = stream_read kBytesToReceive s;
                kBytesReceived = int (length (fst r))
            in if kBytesReceived = kInvalidRead then Some (False, acc, snd r)
               else f (rem - kBytesReceived) (snd r) (acc @ fst r)) = Some res"
  show "good s \<or> rem = 0"
  proof (rule ccontr)
    assume neg: "\<not> (good s \<or> rem = 0)"
    then have "f rem (s\<lparr>failbit := True\<rparr>) acc = Some res"
      using eq by (simp add: stream_read_def kInvalidRead_def)
    then show False
      using IH [of rem "s\<lparr>failbit := True\<rparr>" acc res] neg by (simp add: good_def)
  qed
qed

lemma recv_loop_unfold:
  assumes "0 < n"
  shows "recv_loop (int n) s acc =
    (let r = stream_read (int (min n kPacketSize)) s
     in recv_loop (int n - int (length (fst r))) (snd r) (acc @ fst r))"
  using assms by (subst recv_loop.simps) (simp add: Let_def kInvalidRead_def of_nat_min)

lemma recv_loop_enough:
  assumes "sound s" and "n \<le> length (incoming s)"
  obtains s' where "recv_loop (int n) s acc = Some (True, acc @ take n (incoming s), s')"
    and "took (drop n (incoming s)) s s'"
  using assms
proof (induction n arbitrary: s acc thesis rule: less_induct)
  case (less n)
  show ?case
  proof (cases "n = 0")
    case True
    then show ?thesis
      using less.prems by (auto simp: recv_loop.simps took_def)
  next
    case False
    define k where "k = min n kPacketSize"
    have k: "0 < k" "k \<le> n" "k \<le> length (incoming s)"
      using False less.prems(3) by (auto simp: k_def)
    obtain s1 where r: "stream_read (int k) s = (take k (incoming s), s1)"
      and s1: "took (drop k (incoming s)) s s1"
      by (rule stream_read_sound [OF less.prems(2) k(3)]) (auto simp: took_def intro: that)
    have inc: "incoming s1 = drop k (incoming s)" and snd1: "sound s1"
      using took_sound [OF s1] by auto
    have lt: "n - k < n" and le: "n - k \<le> length (incoming s1)"
      using k less.prems(3) inc by auto
    obtain s2 where r2: "recv_loop (int (n - k)) s1 (acc @ take k (incoming s))
        = Some (True, (acc @ take k (incoming s)) @ take (n - k) (incoming s1), s2)"
      and s2: "took (drop (n - k) (incoming s1)) s1 s2"
      by (rule less.IH [OF lt _ snd1 le]) (rule that; assumption)
    have "recv_loop (int n) s acc = Some (True, acc @ take n (incoming s), s2)"
      using False k r r2 inc
      by (simp add: recv_loop_unfold Let_def min_absorb2 of_nat_diff append_assoc
          flip: k_def take_add)
    moreover have "took (drop n (incoming s)) s s2"
      using took_trans [OF s1 s2] k inc by simp
    ultimately show ?thesis
      by (rule less.prems(1))
  qed
qed

lemma recv_loop_truncated:
  assumes "sound s" and "length (incoming s) < n"
  shows "recv_loop (int n) s acc = None"
  using assms
proof (induction n arbitrary: s acc rule: less_induct)
  case (less n)
  define k where "k = min n kPacketSize"
  have k: "0 < k" "k \<le> n" and pos: "0 < n"
    using less.prems(2) by (auto simp: k_def)
  show ?case
  proof (cases "k \<le> length (incoming s)")
    case True
    obtain s1 where r: "stream_read (int k) s = (take k (incoming s), s1)"
      and s1: "incoming s1 = drop k (incoming s)" "sound s1"
      by (rule stream_read_sound [OF less.prems(1) True]) (auto intro: that)
    have "recv_loop (int (n - k)) s1 (acc @ take k (incoming s)) = None"
      by (rule less.IH) (use k s1 less.prems(2) True in auto)
    then show ?thesis
      using True k pos r by (simp add: recv_loop_unfold Let_def min_absorb2 of_nat_diff flip: k_def)
  next
    case False
    obtain g s1 where g: "sgetn k s = (g, s1)"
      by (cases "sgetn k s")
    have "g = Inr (incoming s)"
      using sock_in.get_law [OF less.prems(1) g] False by simp
    then have r: "stream_read (int k) s = (incoming s, s1\<lparr>eofbit := True, failbit := True\<rparr>)"
      using g False less.prems(1) by (simp add: stream_read_def sound_def)
    show ?thesis
      using recv_loop_stuck [of "int n - int (length (incoming s))"
          "s1\<lparr>eofbit := True, failbit := True\<rparr>"] less.prems(2) pos r
      by (cases "recv_loop (int n) s acc")
        (auto simp: recv_loop_unfold Let_def good_def simp flip: k_def)
  qed
qed

section \<open>The exchange on a sound stream\<close>

definition ready :: "fexch \<Rightarrow> bool" where
  "ready x = (sound (strm x) \<and> idle (strm x))"

text \<open>What the two composites put on the wire.\<close>

definition path_msg :: "codec \<Rightarrow> Command \<Rightarrow> string \<Rightarrow> byte list" where
  "path_msg C c p = enc_cmd C (cmd_code c) @ enc_str C p"

definition file_msg :: "codec \<Rightarrow> byte list \<Rightarrow> byte list" where
  "file_msg C content = enc_i64 C (of_nat (length content)) @ content"

definition upload_msg :: "codec \<Rightarrow> string \<Rightarrow> byte list \<Rightarrow> byte list" where
  "upload_msg C p content = path_msg C kUpload p @ file_msg C content"

lemma strm_simps [simp]:
  "strm (SetPath p x) = strm x" "xpath (SetPath p x) = p"
  "strm (SetStream s x) = s" "xpath (SetStream s x) = xpath x"
  "strm (Flush x) = stream_flush (strm x)" "xpath (Flush x) = xpath x"
  by (simp_all add: SetPath_def SetStream_def Flush_def)

lemma SendCommand_ready:
  assumes "ready x" and "length (enc_cmd C (cmd_code c)) \<le> room (strm x)"
  obtains s' where "SendCommand C c x = Some (x\<lparr>strm := s'\<rparr>)"
    and "wrote (enc_cmd C (cmd_code c)) (strm x) s'"
  by (rule save_sound [of "strm x" "enc_cmd C (cmd_code c)"])
    (use assms that in \<open>auto simp: ready_def SendCommand_def\<close>)

lemma SendPath_ready:
  assumes "ready x" and "length (enc_str C (xpath x)) \<le> room (strm x)"
  obtains s' where "SendPath C x = (True, x\<lparr>strm := s'\<rparr>)"
    and "wrote (enc_str C (xpath x)) (strm x) s'"
  by (rule save_sound [of "strm x" "enc_str C (xpath x)"])
    (use assms that in \<open>auto simp: ready_def SendPath_def\<close>)

lemma Send_ready:
  assumes "ready x" and "status fs (xpath x) = Some (File content)"
    and "length (file_msg C content) \<le> room (strm x)"
  obtains s' where "Send C fs x = (True, x\<lparr>strm := s'\<rparr>)" and "wrote (file_msg C content) (strm x) s'"
proof -
  let ?h = "enc_i64 C (of_nat (length content))"
  obtain s1 where s1: "save ?h (strm x) = (True, s1)" "wrote ?h (strm x) s1"
    by (rule save_sound [of "strm x" ?h]) (use assms that in \<open>auto simp: ready_def file_msg_def\<close>)
  have "wrote content s1 (send_loop content s1)"
    using wrote_ready [OF s1(2)] assms(3) by (intro send_loop_sound) (auto simp: file_msg_def)
  then show thesis
    using that [of "send_loop content s1"] wrote_trans [OF s1(2)] s1(1) assms(2)
    by (simp add: Send_def file_msg_def)
qed

lemma Flush_ready:
  assumes "ready x"
  shows "ready (Flush x)" and "incoming (strm (Flush x)) = incoming (strm x)"
    and "outgoing (strm (Flush x)) = outgoing (strm x)"
    and "tx (ep (strm (Flush x))) = outgoing (strm x)" and "room (strm (Flush x)) = kBufferSize"
    and "rx (ep (strm (Flush x))) = rx (ep (strm x))"
  using stream_flush_sound [of "strm x"] assms by (auto simp: ready_def)

lemma path_msg_ready:
  assumes "ready x" and "length (path_msg C c p) \<le> room (strm x)"
  obtains s1 s2 where "SendCommand C c x = Some (x\<lparr>strm := s1\<rparr>)"
    and "SendPath C (SetPath p (x\<lparr>strm := s1\<rparr>)) = (True, x\<lparr>xpath := p, strm := s2\<rparr>)"
    and "wrote (path_msg C c p) (strm x) s2"
proof -
  obtain s1 where s1: "SendCommand C c x = Some (x\<lparr>strm := s1\<rparr>)" "wrote (enc_cmd C (cmd_code c)) (strm x) s1"
    by (rule SendCommand_ready [OF assms(1), of C c]) (use assms(2) that in \<open>auto simp: path_msg_def\<close>)
  define y where "y = SetPath p (x\<lparr>strm := s1\<rparr>)"
  have y: "xpath y = p" "strm y = s1"
    by (simp_all add: y_def)
  have fits: "ready y" "length (enc_str C (xpath y)) \<le> room (strm y)"
    using wrote_ready [OF s1(2)] assms(2) by (auto simp: y ready_def path_msg_def)
  obtain s2 where s2: "SendPath C y = (True, y\<lparr>strm := s2\<rparr>)" "wrote (enc_str C p) s1 s2"
    by (rule SendPath_ready [OF fits]) (auto simp: y intro: that)
  have "wrote (path_msg C c p) (strm x) s2"
    unfolding path_msg_def by (rule wrote_trans [OF s1(2) s2(2)])
  moreover have "y\<lparr>strm := s2\<rparr> = x\<lparr>xpath := p, strm := s2\<rparr>"
    by (simp add: y_def SetPath_def)
  ultimately show thesis
    using that s1(1) s2(1) y_def by metis
qed

lemma Sender_Upload_ready:
  assumes "ready x" and "status fs p = Some (File content)"
    and "length (upload_msg C p content) \<le> room (strm x)"
  obtains s' where "Sender_Upload C fs p x = Some (True, Flush (x\<lparr>xpath := p, strm := s'\<rparr>))"
    and "wrote (upload_msg C p content) (strm x) s'"
proof -
  have len: "length (path_msg C kUpload p) \<le> room (strm x)"
    using assms(3) by (simp add: upload_msg_def)
  obtain s1 s2 where s: "SendCommand C kUpload x = Some (x\<lparr>strm := s1\<rparr>)"
    "SendPath C (SetPath p (x\<lparr>strm := s1\<rparr>)) = (True, x\<lparr>xpath := p, strm := s2\<rparr>)"
    "wrote (path_msg C kUpload p) (strm x) s2"
    by (rule path_msg_ready [OF assms(1) len]) (rule that; assumption)
  define y where "y = x\<lparr>xpath := p, strm := s2\<rparr>"
  have y: "ready y" "status fs (xpath y) = Some (File content)"
    "length (file_msg C content) \<le> room (strm y)"
    using wrote_ready [OF s(3)] assms(2,3) by (auto simp: y_def ready_def upload_msg_def)
  obtain s3 where s3: "Send C fs y = (True, y\<lparr>strm := s3\<rparr>)" "wrote (file_msg C content) s2 s3"
    by (rule Send_ready [OF y]) (auto simp: y_def intro: that)
  show thesis
    using that [of s3] s s3 wrote_trans [OF s(3) s3(2)]
    by (simp add: Sender_Upload_def upload_msg_def y_def)
qed

lemma Sender_Delete_ready:
  assumes "ready x" and "length (path_msg C kDelete p) \<le> room (strm x)"
  obtains s' where "Sender_Delete C p x = Some (True, Flush (x\<lparr>xpath := p, strm := s'\<rparr>))"
    and "wrote (path_msg C kDelete p) (strm x) s'"
  by (rule path_msg_ready [OF assms]) (use that in \<open>auto simp: Sender_Delete_def\<close>)

subsection \<open>Receiving\<close>

lemma ReceiveCommand_ok:
  assumes "codec_ok C" and "sound (strm x)" and "incoming (strm x) = enc_cmd C b @ rest"
  obtains s' where "ReceiveCommand C x = (Inr (wire_of b), x\<lparr>strm := s'\<rparr>)" and "took rest (strm x) s'"
  by (rule load_sound [OF assms(2), of "rd_cmd C" b rest])
    (use assms that in \<open>auto simp: ReceiveCommand_def codec_okD\<close>)

lemma ReceiveCommand_closed:
  assumes "codec_ok C" and "sound (strm x)" and "incoming (strm x) = []"
  obtains s' where "ReceiveCommand C x = (Inl ECONNABORTED, x\<lparr>strm := s'\<rparr>)" and "took [] (strm x) s'"
  by (rule load_starved [OF assms(2,3), of "rd_cmd C"])
    (use assms that in \<open>auto simp: ReceiveCommand_def codec_okD\<close>)

lemma ReceivePath_ok:
  assumes "codec_ok C" and "sound (strm x)" and "incoming (strm x) = enc_str C p @ rest" and "str_ok p"
  obtains s' where "ReceivePath C x = (True, x\<lparr>xpath := p, strm := s'\<rparr>)" and "took rest (strm x) s'"
proof (rule load_sound [OF assms(2), of "rd_str C" p rest])
  show "feed (rd_str C) (incoming (strm x)) = (Loaded p, rest)"
    using assms by (simp add: codec_okD)
next
  fix s'
  assume "load (rd_str C) (strm x) = (Loaded p, s')" and "took rest (strm x) s'"
  then show thesis
    using that [of s'] by (simp add: ReceivePath_def SetPath_def)
qed

text \<open>The file sizes that survive the cast to \<^verbatim>\<open>int64_t\<close>.\<close>

definition size_ok :: "byte list \<Rightarrow> bool" where
  "size_ok content = (length content < 2 ^ 63)"

lemma sint_size: "size_ok content \<Longrightarrow> sint (of_nat (length content) :: 64 word) = int (length content)"
  by (simp add: size_ok_def sint_uint unsigned_of_nat take_bit_nat_eq_self signed_take_bit_int_eq_self)

text \<open>Where \<^verbatim>\<open>Receive\<close> can create its file, and what the file system is afterwards.\<close>

definition writable :: "fsys \<Rightarrow> string \<Rightarrow> fpath \<Rightarrow> bool" where
  "writable fs p q = (fs_tree fs \<and> resolve fs p = Inr q \<and> node_at fs q \<noteq> Some Directory)"

lemma writable_not_refused: "writable fs p q \<Longrightarrow> rmdir_refused p q = None"
  using refused_directory [of fs p q] by (cases "rmdir_refused p q") (auto simp: writable_def)

lemma Receive_opens:
  assumes "writable fs (xpath x) q"
  obtains fs2 where "Receive C fs x = (case load (rd_i64 C) (strm x) of
      (Loaded n, s) \<Rightarrow> (case recv_loop (sint n) s [] of
          None \<Rightarrow> None
        | Some (ok, bs, s1) \<Rightarrow> Some (ok, x\<lparr>strm := s1\<rparr>, set_node q (File bs) fs2))
    | (_, s) \<Rightarrow> Some (False, x\<lparr>strm := s\<rparr>, fs2))"
    and "node_at fs2 = (node_at fs)(q \<mapsto> File [])" and "cwd fs2 = cwd fs"
proof -
  have tree: "fs_tree fs" and q: "resolve fs (xpath x) = Inr q" "node_at fs q \<noteq> Some Directory"
    using assms by (auto simp: writable_def)
  obtain fs1 where fs1: "(if is_regular_file fs (xpath x) then Inr fs else fs_remove_all fs (xpath x)) = Inr fs1"
    and node1: "node_at fs1 = node_at fs" and cwd1: "cwd fs1 = cwd fs"
  proof (cases "node_at fs q")
    case None
    then show ?thesis
      using that [of "del_below q fs"] del_below_missing [OF tree] writable_not_refused [OF assms]
      by (simp add: fs_remove_all_def q(1) is_regular_file_def status_node [OF q(1)])
  next
    case (Some n)
    then obtain bs where "n = File bs"
      using q(2) by (cases n) auto
    then show ?thesis
      using that [of fs] Some by (simp add: is_regular_file_def status_node [OF q(1)])
  qed
  have "resolve fs1 (xpath x) = resolve fs (xpath x)"
    using node1 cwd1 walk_node_at [of fs1 fs] by (simp add: resolve_def)
  then have "open_out fs1 (xpath x) = Some (q, set_node q (File []) fs1)"
    using q node1 by (simp add: open_out_def flip: node_at_def)
  then show thesis
    using that [of "set_node q (File []) fs1"] node1 cwd1
    by (simp add: Receive_def fs1)
qed

text \<open>
  A complete file message is stored under the path of the exchange, the rest of the input
  is left alone.
\<close>

lemma Receive_ok:
  assumes "codec_ok C" and "writable fs (xpath x) q" and "size_ok content"
    and "sound (strm x)" and "incoming (strm x) = file_msg C content @ rest"
  obtains s' fs' where "Receive C fs x = Some (True, x\<lparr>strm := s'\<rparr>, fs')"
    and "took rest (strm x) s'" and "node_at fs' = (node_at fs)(q \<mapsto> File content)"
    and "cwd fs' = cwd fs"
proof -
  let ?n = "of_nat (length content) :: 64 word"
  obtain s1 where s1: "load (rd_i64 C) (strm x) = (Loaded ?n, s1)" "took (content @ rest) (strm x) s1"
    by (rule load_sound [OF assms(4), of "rd_i64 C" ?n "content @ rest"])
      (use assms that in \<open>auto simp: file_msg_def codec_okD\<close>)
  have inc: "sound s1" "incoming s1 = content @ rest"
    using took_sound [OF s1(2)] by auto
  obtain s2 where s2: "recv_loop (int (length content)) s1 [] = Some (True, [] @ take (length content) (incoming s1), s2)"
    "took (drop (length content) (incoming s1)) s1 s2"
    by (rule recv_loop_enough [OF inc(1), of "length content" "[]"]) (use inc(2) that in auto)
  obtain fs2 where fs2: "Receive C fs x = (case load (rd_i64 C) (strm x) of
      (Loaded n, s) \<Rightarrow> (case recv_loop (sint n) s [] of
          None \<Rightarrow> None
        | Some (ok, bs, s1) \<Rightarrow> Some (ok, x\<lparr>strm := s1\<rparr>, set_node q (File bs) fs2))
    | (_, s) \<Rightarrow> Some (False, x\<lparr>strm := s\<rparr>, fs2))"
    "node_at fs2 = (node_at fs)(q \<mapsto> File [])" "cwd fs2 = cwd fs"
    by (rule Receive_opens [OF assms(2), of C]) (rule that; assumption)
  show thesis
    using that [of s2 "set_node q (File content) fs2"] took_trans [OF s1(2) s2(2)] s1(1) s2(1) inc fs2
    by (simp add: sint_size [OF assms(3)])
qed

text \<open>A path that ends in a dot names a directory that cannot be removed: the process ends.\<close>

lemma Receive_dot_terminates:
  assumes "status fs (xpath x) = Some Directory" and "last_name (xpath x) = ''.''"
  shows "Receive C fs x = None"
proof -
  obtain q where "resolve fs (xpath x) = Inr q"
    using assms(1) by (auto simp: status_def split: sum.splits)
  then have "fs_remove_all fs (xpath x) = Inl EINVAL"
    using assms(2) by (simp add: fs_remove_all_def rmdir_refused_def)
  then show ?thesis
    using assms(1) by (simp add: Receive_def is_regular_file_def)
qed

lemma Receive_truncated:
  assumes "codec_ok C" and "writable fs (xpath x) q" and "sound (strm x)"
    and "incoming (strm x) = enc_i64 C n @ part" and "int (length part) < sint n"
  shows "Receive C fs x = None"
proof -
  obtain s1 where s1: "load (rd_i64 C) (strm x) = (Loaded n, s1)" "took part (strm x) s1"
    by (rule load_sound [OF assms(3), of "rd_i64 C" n part]) (use assms that in \<open>auto simp: codec_okD\<close>)
  have "recv_loop (int (nat (sint n))) s1 [] = None"
    using took_sound [OF s1(2)] assms(5) by (intro recv_loop_truncated) auto
  then have "recv_loop (sint n) s1 [] = None"
    using assms(5) by simp
  then show ?thesis
    by (rule_tac Receive_opens [OF assms(2), of C]) (simp add: s1(1))
qed

section \<open>Closed examples\<close>

text \<open>A fresh stream whose peer sends \<open>bs\<close> and closes, and a small file system.\<close>

definition fresh :: "byte list \<Rightarrow> sstream" where
  "fresh bs = SocketStream \<lparr>rx = (if bs = [] then [] else [RdData bs]), wr = [], tx = []\<rparr>"

definition sample_fs :: fsys where
  "sample_fs = \<lparr>cwd = [''srv''], ents =
     [([], Directory), ([''srv''], Directory), ([''srv'', ''sync_dir_u''], Directory),
      ([''srv'', ''sync_dir_u'', ''f''], File [1, 2, 3])]\<rparr>"

lemma fresh_simps [simp]:
  "sound (fresh bs)" "idle (fresh bs)" "incoming (fresh bs) = bs" "outgoing (fresh bs) = []"
  "room (fresh bs) = kBufferSize" "tx (ep (fresh bs)) = []" "reliable (fresh bs)" "good (fresh bs)"
  "oob (fresh bs) = False"
  by (simp_all add: fresh_def sound_def reliable_def good_def idle_def incoming_def outgoing_def
      room_def unread_def pending_def SocketStream_def InitializePointers_def take_rx_bytes)

lemma fresh_ready [simp]: "ready \<lparr>xpath = p, strm = fresh bs\<rparr>"
  by (simp add: ready_def)

lemma kBufferSize_val: "kBufferSize = 65536"
  by (simp add: kBufferSize_def kPacketSize_def)

lemma sample_fs_tree [simp]: "fs_tree sample_fs"
  unfolding fs_tree_def by (auto simp: sample_fs_def node_at_def split: if_splits)

lemma sample_f [simp]: "status sample_fs ''sync_dir_u/f'' = Some (File [1, 2, 3])"
  by (simp add: sample_fs_def status_def resolve_def step_name_def)

lemma sample_g [simp]: "status sample_fs ''sync_dir_u/g'' = None"
  by (simp add: sample_fs_def status_def resolve_def step_name_def)

lemma sample_writable: "writable sample_fs ''sync_dir_u/g'' [''srv'', ''sync_dir_u'', ''g'']"
  by (simp add: writable_def) (simp add: sample_fs_def node_at_def resolve_def step_name_def)

section \<open>Properties\<close>

text \<open>
  Uploading a file that fits into the buffer puts exactly the command, the path, the size
  and the contents on the wire, flushes them and reports success.
\<close>

theorem Sender_Upload_sends_message:
  assumes "ready x" and "status fs p = Some (File content)"
    and "length (upload_msg C p content) \<le> room (strm x)"
  shows "\<exists>x'. Sender_Upload C fs p x = Some (True, x') \<and> ready x' \<and> xpath x' = p
    \<and> tx (ep (strm x')) = outgoing (strm x) @ upload_msg C p content
    \<and> incoming (strm x') = incoming (strm x)"
proof (rule Sender_Upload_ready [OF assms])
  fix s'
  assume s': "Sender_Upload C fs p x = Some (True, Flush (x\<lparr>xpath := p, strm := s'\<rparr>))"
    "wrote (upload_msg C p content) (strm x) s'"
  have "ready (x\<lparr>xpath := p, strm := s'\<rparr>)"
    using s'(2) by (simp add: ready_def wrote_def)
  from Flush_ready [OF this] s' show ?thesis
    by (simp add: wrote_def)
qed

theorem Sender_Upload_sends_message_witness:
  "\<exists>x'. Sender_Upload pb_codec sample_fs ''sync_dir_u/f'' \<lparr>xpath = [], strm = fresh []\<rparr> = Some (True, x')
    \<and> tx (ep (strm x')) = upload_msg pb_codec ''sync_dir_u/f'' [1, 2, 3]"
  using Sender_Upload_sends_message [of "\<lparr>xpath = [], strm = fresh []\<rparr>" sample_fs "''sync_dir_u/f''"
      "[1, 2, 3]" pb_codec]
  by (auto simp: upload_msg_def path_msg_def file_msg_def pb_codec_def kBufferSize_val)

text \<open>
  Uploading a path that names no regular file reports failure, but the command and the
  path stay in the stream: the next upload is sent behind them, so the receiver takes its
  command byte for the size of the missing file.
\<close>

theorem failed_upload_strands_header:
  assumes "ready x" and "\<forall>content. status fs p \<noteq> Some (File content)"
    and "status fs p' = Some (File content')"
    and "length (path_msg C kUpload p @ upload_msg C p' content') \<le> room (strm x)"
  shows "\<exists>x1 x2. Sender_Upload C fs p x = Some (False, x1)
    \<and> Sender_Upload C fs p' x1 = Some (True, x2)
    \<and> tx (ep (strm x2)) = outgoing (strm x) @ path_msg C kUpload p @ upload_msg C p' content'"
proof -
  have len: "length (path_msg C kUpload p) \<le> room (strm x)"
    using assms(4) by simp
  obtain s1 s2 where s: "SendCommand C kUpload x = Some (x\<lparr>strm := s1\<rparr>)"
    "SendPath C (SetPath p (x\<lparr>strm := s1\<rparr>)) = (True, x\<lparr>xpath := p, strm := s2\<rparr>)"
    "wrote (path_msg C kUpload p) (strm x) s2"
    by (rule path_msg_ready [OF assms(1) len]) (rule that; assumption)
  let ?x1 = "x\<lparr>xpath := p, strm := s2\<rparr>"
  have "Send C fs ?x1 = (False, ?x1)"
    using assms(2) by (auto simp: Send_def split: option.splits node.splits)
  then have fst: "Sender_Upload C fs p x = Some (False, ?x1)"
    using s by (simp add: Sender_Upload_def)
  have x1: "ready ?x1" "length (upload_msg C p' content') \<le> room (strm ?x1)"
    using wrote_ready [OF s(3)] assms(4) by (auto simp: ready_def)
  obtain s' where s': "Sender_Upload C fs p' ?x1 = Some (True, Flush (?x1\<lparr>xpath := p', strm := s'\<rparr>))"
    "wrote (upload_msg C p' content') s2 s'"
    by (rule Sender_Upload_ready [OF x1(1) assms(3) x1(2)]) (auto intro: that)
  have "ready (?x1\<lparr>xpath := p', strm := s'\<rparr>)"
    using s'(2) by (simp add: ready_def wrote_def)
  from Flush_ready [OF this] s' s(3) fst show ?thesis
    by (auto simp: wrote_def)
qed

theorem failed_upload_strands_header_witness:
  "\<exists>x1 x2. Sender_Upload pb_codec sample_fs ''sync_dir_u/g'' \<lparr>xpath = [], strm = fresh []\<rparr> = Some (False, x1)
    \<and> Sender_Upload pb_codec sample_fs ''sync_dir_u/f'' x1 = Some (True, x2)
    \<and> tx (ep (strm x2)) = path_msg pb_codec kUpload ''sync_dir_u/g''
        @ upload_msg pb_codec ''sync_dir_u/f'' [1, 2, 3]"
  using failed_upload_strands_header [of "\<lparr>xpath = [], strm = fresh []\<rparr>" sample_fs "''sync_dir_u/g''"
      "''sync_dir_u/f''" "[1, 2, 3]" pb_codec]
  by (auto simp: upload_msg_def path_msg_def file_msg_def pb_codec_def kBufferSize_val)

text \<open>
  C22. Receiving a complete file stores its contents under the path of the exchange, changes
  no other node, consumes exactly the bytes of the message, and ends, whatever the size of
  the file and the way the connection cuts it.
\<close>

theorem Receive_stores_file:
  assumes "codec_ok C" and "writable fs (xpath x) q" and "size_ok content"
    and "sound (strm x)" and "incoming (strm x) = file_msg C content @ rest"
  shows "\<exists>x' fs'. Receive C fs x = Some (True, x', fs') \<and> node_at fs' = (node_at fs)(q \<mapsto> File content)
    \<and> xpath x' = xpath x \<and> incoming (strm x') = rest \<and> outgoing (strm x') = outgoing (strm x)"
  by (rule Receive_ok [OF assms]) (auto simp: took_def)

theorem Receive_stores_file_witness:
  "\<exists>x' fs'. Receive pb_codec sample_fs
      \<lparr>xpath = ''sync_dir_u/g'', strm = fresh (file_msg pb_codec [5, 6] @ [9])\<rparr> = Some (True, x', fs')
    \<and> node_at fs' [''srv'', ''sync_dir_u'', ''g''] = Some (File [5, 6]) \<and> incoming (strm x') = [9]"
  using Receive_stores_file [OF pb_codec_ok, of sample_fs
      "\<lparr>xpath = ''sync_dir_u/g'', strm = fresh (file_msg pb_codec [5, 6] @ [9])\<rparr>"
      "[''srv'', ''sync_dir_u'', ''g'']" "[5, 6]" "[9]"] sample_writable
  by (fastforce simp: size_ok_def)

text \<open>
  When the peer closes before the announced number of bytes has arrived,
  \<^verbatim>\<open>Receive\<close> does not return: every further read delivers nothing, and the loop
  compares the count with -1 only.
\<close>

theorem Receive_hangs_when_truncated:
  assumes "codec_ok C" and "writable fs (xpath x) q" and "sound (strm x)"
    and "incoming (strm x) = enc_i64 C n @ part" and "int (length part) < sint n"
  shows "Receive C fs x = None"
  by (rule Receive_truncated [OF assms])

theorem Receive_hangs_when_truncated_witness:
  "Receive pb_codec sample_fs
      \<lparr>xpath = ''sync_dir_u/g'', strm = fresh (enc_i64 pb_codec 3 @ [5, 6])\<rparr> = None"
  by (rule Receive_hangs_when_truncated [OF pb_codec_ok, of _ _ "[''srv'', ''sync_dir_u'', ''g'']" 3 "[5, 6]"])
    (simp_all add: sample_writable)

text \<open>
  Sending a file through an idle stream appends the size and the contents to what was
  written, for files of any size; it stores outside of the buffer exactly when the message
  is longer than the free part of the buffer.
\<close>

theorem Send_overruns_buffer:
  assumes "reliable (strm x)" and "idle (strm x)" and "good (strm x)"
    and "status fs (xpath x) = Some (File content)"
  shows "\<exists>x'. Send C fs x = (True, x') \<and> outgoing (strm x') = outgoing (strm x) @ file_msg C content
    \<and> (oob (strm x') \<longleftrightarrow> oob (strm x) \<or> room (strm x) < length (file_msg C content))"
proof -
  let ?h = "enc_i64 C (of_nat (length content))"
  obtain s1 where s1: "sputn ?h (strm x) = (length ?h, s1)" "grows ?h (strm x) s1"
    "oob s1 \<longleftrightarrow> oob (strm x) \<or> room (strm x) < length ?h"
    "length ?h \<le> room (strm x) \<Longrightarrow> pnext s1 = pnext (strm x) + length ?h"
    by (rule sputn_reliable [OF assms(1,2), of ?h]) (rule that; assumption)
  have s1_ready: "reliable s1" "idle s1" "good s1"
    using s1(2) assms(2,3) by (auto simp: grows_def idle_def good_flags)
  note loop = send_loop_grows [OF s1_ready, of content]
  have "oob (send_loop content s1) \<longleftrightarrow> oob (strm x) \<or> room (strm x) < length (file_msg C content)"
    using loop s1(3,4) by (auto simp: file_msg_def room_def)
  moreover have "outgoing (send_loop content s1) = outgoing (strm x) @ file_msg C content"
    using grows_trans [OF s1(2)] loop by (auto simp: file_msg_def grows_def)
  moreover have "Send C fs x = (True, x\<lparr>strm := send_loop content s1\<rparr>)"
    using s1(1) assms(4) by (simp add: Send_def save_def)
  ultimately show ?thesis
    by simp
qed

theorem Send_overruns_buffer_witness:
  "\<exists>x'. Send pb_codec (set_node [''srv'', ''sync_dir_u'', ''f''] (File (replicate 65536 1)) sample_fs)
        \<lparr>xpath = ''sync_dir_u/f'', strm = fresh []\<rparr> = (True, x') \<and> oob (strm x')"
proof -
  let ?fs = "set_node [''srv'', ''sync_dir_u'', ''f''] (File (replicate 65536 1)) sample_fs"
  have "status ?fs ''sync_dir_u/f'' = Some (File (replicate 65536 1))"
    by (simp add: sample_fs_def set_node_def status_def resolve_def step_name_def)
  then show ?thesis
    using Send_overruns_buffer [of "\<lparr>xpath = ''sync_dir_u/f'', strm = fresh []\<rparr>" ?fs
        "replicate 65536 1" pb_codec]
    by (auto simp: file_msg_def kBufferSize_val pb_codec_def)
qed

text \<open>
  A command sent on one stream is the command received on the other, and a closed
  connection is told apart from a received command: it is reported as
  \<^verbatim>\<open>connection_aborted\<close>.
\<close>

theorem command_exchange:
  assumes "codec_ok C" and "ready x" and "length (enc_cmd C (cmd_code c)) \<le> room (strm x)"
    and "sound (strm y)"
  shows "(\<exists>x' msg. SendCommand C c x = Some x' \<and> outgoing (strm x') = outgoing (strm x) @ msg
      \<and> (\<forall>rest. incoming (strm y) = msg @ rest \<longrightarrow>
           (\<exists>y'. ReceiveCommand C y = (Inr (Cmd c), y') \<and> incoming (strm y') = rest)))
    \<and> (incoming (strm y) = [] \<longrightarrow> fst (ReceiveCommand C y) = Inl ECONNABORTED)"
proof (rule conjI)
  obtain s' where s': "SendCommand C c x = Some (x\<lparr>strm := s'\<rparr>)" "wrote (enc_cmd C (cmd_code c)) (strm x) s'"
    by (rule SendCommand_ready [OF assms(2,3)]) (rule that; assumption)
  have "\<exists>y'. ReceiveCommand C y = (Inr (Cmd c), y') \<and> incoming (strm y') = rest"
    if "incoming (strm y) = enc_cmd C (cmd_code c) @ rest" for rest
    by (rule ReceiveCommand_ok [OF assms(1,4) that]) (auto simp: took_def)
  with s' show "\<exists>x' msg. SendCommand C c x = Some x' \<and> outgoing (strm x') = outgoing (strm x) @ msg
      \<and> (\<forall>rest. incoming (strm y) = msg @ rest \<longrightarrow>
           (\<exists>y'. ReceiveCommand C y = (Inr (Cmd c), y') \<and> incoming (strm y') = rest))"
    by (auto simp: wrote_def intro!: exI [of _ "enc_cmd C (cmd_code c)"])
  show "incoming (strm y) = [] \<longrightarrow> fst (ReceiveCommand C y) = Inl ECONNABORTED"
    by (rule impI, rule ReceiveCommand_closed [OF assms(1,4)]) auto
qed

theorem command_exchange_witness:
  "fst (ReceiveCommand pb_codec \<lparr>xpath = [], strm = fresh []\<rparr>) = Inl ECONNABORTED"
  using command_exchange [OF pb_codec_ok, of "\<lparr>xpath = [], strm = fresh []\<rparr>" kExit
      "\<lparr>xpath = [], strm = fresh []\<rparr>"]
  by (simp add: pb_codec_def kBufferSize_val)

end
