(* ===== verification/Election.thy ===== *)
theory Election
  imports Prelude SocketStream
begin

text \<open>
  One server's part of the ring election: \<^verbatim>\<open>server/election/Election.hpp\<close>,
  \<^verbatim>\<open>Election.cpp\<close>, the connections of \<^verbatim>\<open>Ring.hpp\<close>, and
  \<^verbatim>\<open>Server::PerformElection\<close> of \<^verbatim>\<open>server/Server.cpp\<close>.

  An election message is two bytes, read and written with one system call each.
\<close>

section \<open>Messages\<close>

datatype Status = kUnderway | kElected

record ElectionData =
  el_status :: Status
  data_id :: byte

fun status_code :: "Status \<Rightarrow> byte" where
  "status_code kUnderway = -1"
| "status_code kElected = 0"

definition status_of :: "byte \<Rightarrow> Status option" where
  "status_of b = (if b = -1 then Some kUnderway else if b = 0 then Some kElected else None)"

definition bytes_of :: "ElectionData \<Rightarrow> byte list" where
  "bytes_of m = [status_code (el_status m), data_id m]"

lemma status_of_code [simp]: "status_of (status_code st) = Some st"
  by (cases st) (simp_all add: status_of_def)

lemma length_bytes_of [simp]: "length (bytes_of m) = 2"
  by (simp add: bytes_of_def)

section \<open>One server\<close>

datatype Error = kPreviousBroken | kNextBroken

record election =
  prev :: endpoint               \<comment> \<open>\<^verbatim>\<open>ring_.prev_\<close>\<close>
  succ :: endpoint               \<comment> \<open>\<^verbatim>\<open>ring_.next_\<close>\<close>
  id_no :: byte                  \<comment> \<open>\<^verbatim>\<open>id_\<close>\<close>
  election_started :: bool

definition Election :: "endpoint \<Rightarrow> endpoint \<Rightarrow> byte \<Rightarrow> election" where
  "Election p s i = \<lparr>prev = p, succ = s, id_no = i, election_started = False\<rparr>"

text \<open>A message is sent when the kernel takes all of its bytes at once.\<close>

definition send_election :: "ElectionData \<Rightarrow> election \<Rightarrow> bool \<times> election" where
  "send_election m e = (let (r, s) = os_write (bytes_of m) (succ e) in (r = Inr 2, e\<lparr>succ := s\<rparr>))"

definition StartElection :: "election \<Rightarrow> bool \<times> election" where
  "StartElection e =
     send_election \<lparr>el_status = kUnderway, data_id = id_no e\<rparr> (e\<lparr>election_started := True\<rparr>)"

text \<open>
  What a server does with a message: the new value of \<^verbatim>\<open>election_started_\<close>, the message
  to pass on, if any, and the winner, if the election is over.
\<close>

fun decide :: "byte \<Rightarrow> bool \<Rightarrow> ElectionData \<Rightarrow> bool \<times> ElectionData option \<times> byte option" where
  "decide me started m = (case el_status m of
     kUnderway \<Rightarrow>
       if data_id m < me then
         (if started then (started, None, None)
          else (True, Some (m\<lparr>data_id := me\<rparr>), None))
       else if data_id m = me then (started, Some (m\<lparr>el_status := kElected\<rparr>), None)
       else (started, Some m, None)
   | kElected \<Rightarrow> (False, if data_id m \<noteq> me then Some m else None, Some (data_id m)))"

text \<open>
  \<^verbatim>\<open>ReplyElection\<close>: an error, no winner yet, or the winner. \<open>Undefined\<close> is a status byte
  that is no enumerator: the function ends without a \<^verbatim>\<open>return\<close>.
\<close>

datatype reply = Failed Error | NoWinner | Winner byte | Undefined

definition ReplyElection :: "election \<Rightarrow> reply \<times> election" where
  "ReplyElection e =
     (let (r, p) = os_read 2 (prev e); e1 = e\<lparr>prev := p\<rparr>
      in (case r of
            Inr [st, i] \<Rightarrow>
              (case status_of st of
                 None \<Rightarrow> (Undefined, e1)
               | Some stt \<Rightarrow>
                   (let (started, out, ret) = decide (id_no e) (election_started e) \<lparr>el_status = stt, data_id = i\<rparr>;
                        e2 = e1\<lparr>election_started := started\<rparr>;
                        (ok, e3) = (case out of None \<Rightarrow> (True, e2) | Some m \<Rightarrow> send_election m e2)
                    in (if \<not> ok then Failed kNextBroken
                        else case ret of None \<Rightarrow> NoWinner | Some w \<Rightarrow> Winner w, e3)))
          | _ \<Rightarrow> (Failed kPreviousBroken, e1)))"

text \<open>Each round of the loop uses up part of what the previous server sends.\<close>

fun rx_size :: "rd_event list \<Rightarrow> nat" where
  "rx_size [] = 0"
| "rx_size (RdData bs # r) = Suc (length bs) + rx_size r"
| "rx_size (RdErr _ # r) = Suc (rx_size r)"

lemma os_read_rx_size:
  "os_read n e = (Inr (b # bs), e') \<Longrightarrow> 0 < n \<Longrightarrow> rx_size (rx e') < rx_size (rx e)"
  by (cases "rx e"; cases "hd (rx e)") (auto split: if_splits)

lemma ReplyElection_rx:
  assumes "ReplyElection e = (NoWinner, e')"
  shows "rx_size (rx (prev e')) < rx_size (rx (prev e))"
proof -
  obtain r p where rd: "os_read 2 (prev e) = (r, p)"
    by (cases "os_read 2 (prev e)")
  have "prev e' = p" and "\<exists>st i. r = Inr [st, i]"
    using assms rd
    by (auto simp: ReplyElection_def send_election_def Let_def
        split: sum.splits list.splits option.splits Status.splits if_splits prod.splits)
  then show ?thesis
    using os_read_rx_size rd by auto
qed

text \<open>
  \<^verbatim>\<open>PerformElection\<close>: \<open>Inl\<close> the error, \<open>Inr\<close> the elected id; \<open>None\<close> is the undefined case.
\<close>

function reply_loop :: "election \<Rightarrow> (Error + byte) option \<times> election" where
  "reply_loop e = (case ReplyElection e of
     (NoWinner, e1) \<Rightarrow> reply_loop e1
   | (Winner w, e1) \<Rightarrow> (Some (Inr w), e1)
   | (Failed err, e1) \<Rightarrow> (Some (Inl err), e1)
   | (Undefined, e1) \<Rightarrow> (None, e1))"
  by pat_completeness auto
termination
  by (relation "measure (\<lambda>e. rx_size (rx (prev e)))") (auto dest: ReplyElection_rx [OF sym])

declare reply_loop.simps [simp del]

definition PerformElection :: "endpoint \<Rightarrow> endpoint \<Rightarrow> byte \<Rightarrow> (Error + byte) option \<times> election" where
  "PerformElection p s i =
     (case StartElection (Election p s i) of
        (False, e) \<Rightarrow> (Some (Inl kNextBroken), e)
      | (True, e) \<Rightarrow> reply_loop e)"

section \<open>Facts\<close>

lemma ReplyElection_message:
  assumes "rx (prev e) = RdData (bytes_of m) # r" and "wr (succ e) = []"
    and "decide (id_no e) (election_started e) m = (started, out, ret)"
  shows "ReplyElection e =
    (case ret of None \<Rightarrow> NoWinner | Some w \<Rightarrow> Winner w,
     e\<lparr>prev := (prev e)\<lparr>rx := r\<rparr>, election_started := started,
       succ := (succ e)\<lparr>tx := tx (succ e) @ (case out of None \<Rightarrow> [] | Some m' \<Rightarrow> bytes_of m')\<rparr>\<rparr>)"
proof -
  have m: "\<lparr>el_status = el_status m, data_id = data_id m\<rparr> = m"
    by simp
  show ?thesis
    using assms
    by (cases out)
      (simp_all add: ReplyElection_def send_election_def bytes_of_def m del: decide.simps)
qed

lemma ReplyElection_broken:
  assumes "os_read 2 (prev e) = (r, p)" and "\<forall>bs. r = Inr bs \<longrightarrow> length bs \<noteq> 2"
  shows "ReplyElection e = (Failed kPreviousBroken, e\<lparr>prev := p\<rparr>)"
  using assms
  by (auto simp: ReplyElection_def Let_def simp del: os_read.simps split: sum.splits list.splits)

text \<open>The messages a started server passes on when \<open>m\<close> arrives.\<close>

definition passes :: "byte \<Rightarrow> ElectionData \<Rightarrow> ElectionData list" where
  "passes me m = (case decide me True m of (_, None, _) \<Rightarrow> [] | (_, Some m', _) \<Rightarrow> [m'])"

lemma decide_underway:
  assumes "el_status m = kUnderway"
  shows "decide me True m = (True, case passes me m of [] \<Rightarrow> None | m' # _ \<Rightarrow> Some m', None)"
  using assms by (simp add: passes_def)

lemma decide_elected:
  assumes "el_status m = kElected"
  shows "decide me True m = (False, case passes me m of [] \<Rightarrow> None | m' # _ \<Rightarrow> Some m', Some (data_id m))"
  using assms by (simp add: passes_def)

lemma passes_opt: "(case passes me m of [] \<Rightarrow> None | m' # _ \<Rightarrow> Some m') = Some m' \<longleftrightarrow> passes me m = [m']"
  by (auto simp: passes_def split: option.splits prod.splits)

lemma ReplyElection_passes:
  assumes "rx (prev e) = RdData (bytes_of m) # r" and "wr (succ e) = []" and "election_started e"
  shows "ReplyElection e =
    (case el_status m of kUnderway \<Rightarrow> NoWinner | kElected \<Rightarrow> Winner (data_id m),
     e\<lparr>prev := (prev e)\<lparr>rx := r\<rparr>, election_started := (el_status m = kUnderway),
       succ := (succ e)\<lparr>tx := tx (succ e) @ concat (map bytes_of (passes (id_no e) m))\<rparr>\<rparr>)"
proof (cases "el_status m")
  case kUnderway
  then show ?thesis
    using ReplyElection_message [OF assms(1,2), of True _ None] assms(3)
    by (auto simp: passes_def split: if_splits)
next
  case kElected
  then show ?thesis
    using ReplyElection_message [OF assms(1,2), of False _ "Some (data_id m)"] assms(3)
    by (auto simp: passes_def split: if_splits)
qed

lemma reply_loop_messages:
  assumes "rx (prev e) = map (RdData \<circ> bytes_of) (ms @ [w]) @ r" and "wr (succ e) = []"
    and "election_started e" and "\<forall>m\<in>set ms. el_status m = kUnderway" and "el_status w = kElected"
  shows "reply_loop e = (Some (Inr (data_id w)),
    e\<lparr>prev := (prev e)\<lparr>rx := r\<rparr>, election_started := False, succ := (succ e)\<lparr>tx := tx (succ e)
        @ concat (map bytes_of (concat (map (passes (id_no e)) (ms @ [w]))))\<rparr>\<rparr>)"
  using assms
proof (induction ms arbitrary: e)
  case Nil
  then show ?case
    using ReplyElection_passes [of e w r] by (simp add: reply_loop.simps [of e])
next
  case (Cons m ms)
  define e1 where "e1 = e\<lparr>prev := (prev e)\<lparr>rx := map (RdData \<circ> bytes_of) (ms @ [w]) @ r\<rparr>,
      election_started := True,
      succ := (succ e)\<lparr>tx := tx (succ e) @ concat (map bytes_of (passes (id_no e) m))\<rparr>\<rparr>"
  have "ReplyElection e = (NoWinner, e1)"
    using ReplyElection_passes [of e m "map (RdData \<circ> bytes_of) (ms @ [w]) @ r"] Cons.prems
    by (simp add: e1_def)
  then have "reply_loop e = reply_loop e1"
    by (simp add: reply_loop.simps [of e])
  also have "\<dots> = (Some (Inr (data_id w)),
    e1\<lparr>prev := (prev e1)\<lparr>rx := r\<rparr>, election_started := False, succ := (succ e1)\<lparr>tx := tx (succ e1)
        @ concat (map bytes_of (concat (map (passes (id_no e1)) (ms @ [w]))))\<rparr>\<rparr>)"
    by (rule Cons.IH) (use Cons.prems in \<open>simp_all add: e1_def\<close>)
  finally show ?case
    by (simp add: e1_def)
qed

section \<open>Properties\<close>

text \<open>
  One server's election on the wire: it sends its own id, drops the smaller ids that
  arrive, passes the greater ones on, answers its own id with an announcement, passes an
  announcement on unless it is its own, and returns the announced id.
\<close>

theorem PerformElection_messages:
  assumes "rx p = map (RdData \<circ> bytes_of) (ms @ [w]) @ r" and "wr n = []"
    and "\<forall>m\<in>set ms. el_status m = kUnderway" and "el_status w = kElected"
  shows "\<exists>e'. PerformElection p n i = (Some (Inr (data_id w)), e') \<and> rx (prev e') = r
    \<and> tx (succ e') = tx n @ bytes_of \<lparr>el_status = kUnderway, data_id = i\<rparr>
        @ concat (map bytes_of (concat (map (\<lambda>m. if i < data_id m then [m]
            else if i = data_id m then [m\<lparr>el_status := kElected\<rparr>] else []) ms)))
        @ (if data_id w = i then [] else bytes_of w)"
proof -
  let ?own = "\<lparr>el_status = kUnderway, data_id = i\<rparr>"
  define e where "e = \<lparr>prev = p, succ = n\<lparr>tx := tx n @ bytes_of ?own\<rparr>, id_no = i, election_started = True\<rparr>"
  have "StartElection (Election p n i) = (True, e)"
    using assms(2) by (simp add: StartElection_def Election_def send_election_def e_def)
  then have "PerformElection p n i = reply_loop e"
    by (simp add: PerformElection_def)
  also have "\<dots> = (Some (Inr (data_id w)),
    e\<lparr>prev := (prev e)\<lparr>rx := r\<rparr>, election_started := False, succ := (succ e)\<lparr>tx := tx (succ e)
        @ concat (map bytes_of (concat (map (passes (id_no e)) (ms @ [w]))))\<rparr>\<rparr>)"
    by (rule reply_loop_messages) (use assms in \<open>simp_all add: e_def\<close>)
  finally have run: "PerformElection p n i = \<dots>" .
  have "passes i m = (if i < data_id m then [m] else if i = data_id m then [m\<lparr>el_status := kElected\<rparr>] else [])"
    if "m \<in> set ms" for m
    using assms(3) that by (auto simp: passes_def)
  then have "concat (map (passes i) ms) = concat (map (\<lambda>m. if i < data_id m then [m]
      else if i = data_id m then [m\<lparr>el_status := kElected\<rparr>] else []) ms)"
    by (intro arg_cong [where f = concat] map_cong) simp_all
  moreover have "passes i w = (if data_id w = i then [] else [w])"
    using assms(4) by (simp add: passes_def)
  ultimately show ?thesis
    unfolding run by (simp add: e_def)
qed

theorem PerformElection_messages_witness:
  "\<exists>e'. PerformElection
      \<lparr>rx = [RdData [-1, 1], RdData [-1, 3], RdData [-1, 2], RdData [0, 3]], wr = [], tx = []\<rparr>
      \<lparr>rx = [], wr = [], tx = []\<rparr> 2 = (Some (Inr 3), e')
    \<and> tx (succ e') = [-1, 2, -1, 3, 0, 2, 0, 3]"
  using PerformElection_messages [of "\<lparr>rx = [RdData [-1, 1], RdData [-1, 3], RdData [-1, 2],
      RdData [0, 3]], wr = [], tx = []\<rparr>" "[\<lparr>el_status = kUnderway, data_id = 1\<rparr>,
      \<lparr>el_status = kUnderway, data_id = 3\<rparr>, \<lparr>el_status = kUnderway, data_id = 2\<rparr>]"
      "\<lparr>el_status = kElected, data_id = 3\<rparr>" "[]" "\<lparr>rx = [], wr = [], tx = []\<rparr>" 2]
  by (auto simp: bytes_of_def)

text \<open>
  The errors of an election: a read from the previous server that does not deliver the
  two bytes of a message at once, be it an error, the end of the connection or one byte, is
  \<^verbatim>\<open>kPreviousBroken\<close> and sends nothing; a message that should go on but is not taken
  whole by the next server's connection is \<^verbatim>\<open>kNextBroken\<close>, with the election already
  marked as started or ended.
\<close>

theorem ReplyElection_errors:
  assumes "os_read 2 (prev e) = (r, p)"
  shows "((\<forall>bs. r = Inr bs \<longrightarrow> length bs \<noteq> 2) \<longrightarrow>
      fst (ReplyElection e) = Failed kPreviousBroken \<and> succ (snd (ReplyElection e)) = succ e
      \<and> election_started (snd (ReplyElection e)) = election_started e)
    \<and> (\<forall>m st m' ret. r = Inr (bytes_of m) \<longrightarrow> decide (id_no e) (election_started e) m = (st, Some m', ret) \<longrightarrow>
        fst (os_write (bytes_of m') (succ e)) \<noteq> Inr 2 \<longrightarrow>
        fst (ReplyElection e) = Failed kNextBroken \<and> election_started (snd (ReplyElection e)) = st)"
proof (intro conjI allI impI)
  assume bad: "\<forall>bs. r = Inr bs \<longrightarrow> length bs \<noteq> 2"
  note run = ReplyElection_broken [OF assms bad]
  show "fst (ReplyElection e) = Failed kPreviousBroken"
    and "succ (snd (ReplyElection e)) = succ e"
    and "election_started (snd (ReplyElection e)) = election_started e"
    by (simp_all add: run)
next
  fix m st m' ret
  assume m: "r = Inr (bytes_of m)" "decide (id_no e) (election_started e) m = (st, Some m', ret)"
    "fst (os_write (bytes_of m') (succ e)) \<noteq> Inr 2"
  obtain r' s' where w: "os_write (bytes_of m') (succ e) = (r', s')" "r' \<noteq> Inr 2"
    using m(3) by (cases "os_write (bytes_of m') (succ e)") auto
  have "ReplyElection e = (Failed kNextBroken, e\<lparr>prev := p, election_started := st, succ := s'\<rparr>)"
    using assms m(1,2) w
    by (cases m) (simp add: ReplyElection_def send_election_def bytes_of_def Let_def
        del: decide.simps os_write.simps os_read.simps)
  then show "fst (ReplyElection e) = Failed kNextBroken" and "election_started (snd (ReplyElection e)) = st"
    by simp_all
qed

theorem ReplyElection_errors_witness:
  "fst (ReplyElection (Election \<lparr>rx = [RdData [0]], wr = [], tx = []\<rparr> \<lparr>rx = [], wr = [], tx = []\<rparr> 5))
    = Failed kPreviousBroken"
  using ReplyElection_errors [of "Election \<lparr>rx = [RdData [0]], wr = [], tx = []\<rparr>
      \<lparr>rx = [], wr = [], tx = []\<rparr> 5" "Inr [0]" "\<lparr>rx = [], wr = [], tx = []\<rparr>"]
  by (simp add: Election_def)

end
