(* ===== verification/RingElection.thy ===== *)
theory RingElection
  imports Prelude Election
begin

text \<open>
  The election of a whole ring: \<open>n\<close> servers, each running \<^verbatim>\<open>PerformElection\<close> of
  \<^verbatim>\<open>server/Server.cpp\<close> once, each connected to the next one by a connection that loses
  nothing and keeps the order. Which server moves next is not determined, so the steps are a
  relation; what a server does in a step is \<open>decide\<close>, the body of \<^verbatim>\<open>ReplyElection\<close>.
\<close>

section \<open>The ring\<close>

datatype phase = Idle | Running | Done byte

record ring =
  phase :: "nat \<Rightarrow> phase"
  started :: "nat \<Rightarrow> bool"
  chan :: "nat \<Rightarrow> ElectionData list"   \<comment> \<open>from server \<open>i\<close> to the next one\<close>

abbreviation next_in :: "nat \<Rightarrow> nat \<Rightarrow> nat" where
  "next_in n i \<equiv> Suc i mod n"

definition underway :: "byte \<Rightarrow> ElectionData" where
  "underway i = \<lparr>el_status = kUnderway, data_id = i\<rparr>"

definition elected :: "byte \<Rightarrow> ElectionData" where
  "elected i = \<lparr>el_status = kElected, data_id = i\<rparr>"

definition init_ring :: ring where
  "init_ring = \<lparr>phase = (\<lambda>_. Idle), started = (\<lambda>_. False), chan = (\<lambda>_. [])\<rparr>"

text \<open>\<open>opt_list\<close>: the messages a decision sends.\<close>

fun opt_list :: "'a option \<Rightarrow> 'a list" where
  "opt_list None = []"
| "opt_list (Some x) = [x]"

text \<open>
  \<^verbatim>\<open>StartElection\<close> of server \<open>i\<close>, and one turn of its loop over \<^verbatim>\<open>ReplyElection\<close>
  with the oldest message of channel \<open>c\<close>, which leads to it.
\<close>

definition start_server :: "(nat \<Rightarrow> byte) \<Rightarrow> nat \<Rightarrow> ring \<Rightarrow> ring" where
  "start_server ids i s = s\<lparr>phase := (phase s)(i := Running), started := (started s)(i := True),
     chan := (chan s)(i := chan s i @ [underway (ids i)])\<rparr>"

definition reply_server :: "nat \<Rightarrow> (nat \<Rightarrow> byte) \<Rightarrow> nat \<Rightarrow> ring \<Rightarrow> ring" where
  "reply_server n ids c s =
     (let i = next_in n c; (st, out, ret) = decide (ids i) (started s i) (hd (chan s c));
          ch = (chan s)(c := tl (chan s c))
      in s\<lparr>phase := (phase s)(i := case ret of None \<Rightarrow> Running | Some w \<Rightarrow> Done w),
           started := (started s)(i := st),
           chan := ch(i := ch i @ opt_list out)\<rparr>)"

inductive ring_step :: "nat \<Rightarrow> (nat \<Rightarrow> byte) \<Rightarrow> ring \<Rightarrow> ring \<Rightarrow> bool" for n ids where
  start: "i < n \<Longrightarrow> phase s i = Idle \<Longrightarrow> ring_step n ids s (start_server ids i s)"
| reply: "c < n \<Longrightarrow> phase s (next_in n c) = Running \<Longrightarrow> chan s c \<noteq> [] \<Longrightarrow>
    ring_step n ids s (reply_server n ids c s)"

inductive ring_reach :: "nat \<Rightarrow> (nat \<Rightarrow> byte) \<Rightarrow> ring \<Rightarrow> bool" for n ids where
  init: "ring_reach n ids init_ring"
| step: "ring_reach n ids s \<Longrightarrow> ring_step n ids s s' \<Longrightarrow> ring_reach n ids s'"

inductive_cases ring_step_cases: "ring_step n ids s s'"

lemma ring_stepE [consumes 1, case_names start reply]:
  assumes "ring_step n ids s s'"
  obtains i where "s' = start_server ids i s" and "i < n" and "phase s i = Idle"
    | c m ms where "s' = reply_server n ids c s" and "c < n" and "phase s (next_in n c) = Running"
      and "chan s c = m # ms"
  using assms by (rule ring_step_cases) (use that in \<open>auto simp: neq_Nil_conv\<close>)

section \<open>Positions in the ring\<close>

text \<open>\<open>pos n k i\<close>: how many hops it is from server \<open>k\<close> to server \<open>i\<close>.\<close>

definition pos :: "nat \<Rightarrow> nat \<Rightarrow> nat \<Rightarrow> nat" where
  "pos n k i = (i + (n - k)) mod n"

lemma pos_less: "0 < n \<Longrightarrow> pos n k i < n"
  by (simp add: pos_def)

lemma pos_cases: "k < n \<Longrightarrow> i < n \<Longrightarrow> pos n k i = (if k \<le> i then i - k else n + i - k)"
  by (auto simp: pos_def mod_if)

lemma next_cases: "i < n \<Longrightarrow> next_in n i = (if Suc i = n then 0 else Suc i)"
  by auto

lemma pos_self [simp]: "k < n \<Longrightarrow> pos n k k = 0"
  by (simp add: pos_cases)

lemma pos_eq_0: "k < n \<Longrightarrow> i < n \<Longrightarrow> pos n k i = 0 \<longleftrightarrow> i = k"
  by (auto simp: pos_cases)

lemma pos_inject: "k < n \<Longrightarrow> i < n \<Longrightarrow> j < n \<Longrightarrow> pos n k i = pos n k j \<longleftrightarrow> i = j"
  by (auto simp: pos_cases split: if_splits)

lemma pos_next:
  "k < n \<Longrightarrow> i < n \<Longrightarrow> next_in n i \<noteq> k \<Longrightarrow> pos n k (next_in n i) = Suc (pos n k i)"
  by (auto simp: pos_cases next_cases split: if_splits)

lemma pos_last: "k < n \<Longrightarrow> i < n \<Longrightarrow> next_in n i = k \<Longrightarrow> pos n k i = n - 1"
  by (auto simp: pos_cases next_cases split: if_splits)

lemma next_less: "0 < n \<Longrightarrow> next_in n i < n"
  by simp

lemma next_neq: "2 \<le> n \<Longrightarrow> i < n \<Longrightarrow> next_in n i \<noteq> i"
  by (auto simp: next_cases)

section \<open>The effect of a step\<close>

lemma message_cases:
  obtains x where "m = underway x" | x where "m = elected x"
  by (cases m rule: ElectionData.cases; cases "el_status m") (auto simp: underway_def elected_def)

lemma underway_elected [simp]:
  "underway x \<noteq> elected y" "elected y \<noteq> underway x"
  "underway x = underway y \<longleftrightarrow> x = y" "elected x = elected y \<longleftrightarrow> x = y"
  "el_status (underway x) = kUnderway" "el_status (elected x) = kElected"
  "data_id (underway x) = x" "data_id (elected x) = x"
  by (auto simp: underway_def elected_def)

lemma underway_update [simp]:
  "underway x\<lparr>el_status := kElected\<rparr> = elected x"
  by (simp add: underway_def elected_def)

lemma reply_drop:
  assumes "phase s (next_in n c) = Running" and "started s (next_in n c)"
    and "chan s c = underway x # ms" and "x < ids (next_in n c)"
  shows "reply_server n ids c s = s\<lparr>chan := (chan s)(c := ms)\<rparr>"
  using assms by (simp add: reply_server_def Let_def fun_upd_idem)

lemma reply_forward:
  assumes "phase s (next_in n c) = Running" and "started s (next_in n c)"
    and "chan s c = underway x # ms" and "ids (next_in n c) < x" and "next_in n c \<noteq> c"
  shows "reply_server n ids c s
    = s\<lparr>chan := (chan s)(c := ms, next_in n c := chan s (next_in n c) @ [underway x])\<rparr>"
  using assms by (simp add: reply_server_def Let_def fun_upd_idem not_less_iff_gr_or_eq)

lemma reply_win:
  assumes "phase s (next_in n c) = Running" and "started s (next_in n c)"
    and "chan s c = underway (ids (next_in n c)) # ms" and "next_in n c \<noteq> c"
  shows "reply_server n ids c s
    = s\<lparr>chan := (chan s)(c := ms, next_in n c := chan s (next_in n c) @ [elected (ids (next_in n c))])\<rparr>"
  using assms by (simp add: reply_server_def Let_def fun_upd_idem)

lemma reply_elected:
  assumes "chan s c = elected x # ms" and "next_in n c \<noteq> c"
  shows "reply_server n ids c s
    = s\<lparr>phase := (phase s)(next_in n c := Done x), started := (started s)(next_in n c := False),
        chan := (chan s)(c := ms, next_in n c := chan s (next_in n c)
          @ (if x = ids (next_in n c) then [] else [elected x]))\<rparr>"
  using assms by (simp add: reply_server_def Let_def)

section \<open>The invariant\<close>

text \<open>\<open>M\<close> is the server with the greatest id.\<close>

definition ring_cfg :: "nat \<Rightarrow> (nat \<Rightarrow> byte) \<Rightarrow> nat \<Rightarrow> bool" where
  "ring_cfg n ids M = (2 \<le> n \<and> inj_on ids {..<n} \<and> M < n \<and> (\<forall>j<n. j \<noteq> M \<longrightarrow> ids j < ids M))"

text \<open>
  A candidate that is underway comes from a server whose id is greater than those of all
  the servers it has passed.
\<close>

definition origin :: "nat \<Rightarrow> (nat \<Rightarrow> byte) \<Rightarrow> nat \<Rightarrow> byte \<Rightarrow> bool" where
  "origin n ids c x = (\<exists>k<n. x = ids k \<and> (\<forall>j<n. 0 < pos n k j \<and> pos n k j \<le> pos n k c \<longrightarrow> ids j < ids k))"

definition origins :: "nat \<Rightarrow> (nat \<Rightarrow> byte) \<Rightarrow> ring \<Rightarrow> bool" where
  "origins n ids s = (\<forall>c<n. \<forall>x. underway x \<in> set (chan s c) \<longrightarrow> origin n ids c x)"

text \<open>
  The four stages of an election: the greatest server has not started; its id is on its
  way in channel \<open>c\<close>, behind every other candidate; it is being announced in channel \<open>c\<close>;
  every server knows it.
\<close>

definition undecided :: "nat \<Rightarrow> ring \<Rightarrow> bool" where
  "undecided n s = (\<forall>i<n. (phase s i = Idle \<or> phase s i = Running \<and> started s i)
     \<and> (\<forall>x. elected x \<notin> set (chan s i)))"

definition waiting :: "nat \<Rightarrow> (nat \<Rightarrow> byte) \<Rightarrow> nat \<Rightarrow> ring \<Rightarrow> bool" where
  "waiting n ids M s = (undecided n s \<and> phase s M = Idle
     \<and> (\<forall>i<n. underway (ids M) \<notin> set (chan s i)))"

definition travelling :: "nat \<Rightarrow> (nat \<Rightarrow> byte) \<Rightarrow> nat \<Rightarrow> ring \<Rightarrow> nat \<Rightarrow> bool" where
  "travelling n ids M s c = (undecided n s \<and> c < n
     \<and> (\<exists>xs. chan s c = xs @ [underway (ids M)] \<and> underway (ids M) \<notin> set xs)
     \<and> (\<forall>i<n. i \<noteq> c \<longrightarrow> underway (ids M) \<notin> set (chan s i))
     \<and> (\<forall>i<n. pos n M i < pos n M c \<longrightarrow> chan s i = [])
     \<and> (\<forall>i<n. pos n M i \<le> pos n M c \<longrightarrow> phase s i = Running))"

definition announcing :: "nat \<Rightarrow> (nat \<Rightarrow> byte) \<Rightarrow> nat \<Rightarrow> ring \<Rightarrow> nat \<Rightarrow> bool" where
  "announcing n ids M s c = (c < n \<and> chan s c = [elected (ids M)]
     \<and> (\<forall>i<n. i \<noteq> c \<longrightarrow> chan s i = [])
     \<and> (\<forall>i<n. if 0 < pos n M i \<and> pos n M i \<le> pos n M c then phase s i = Done (ids M)
             else phase s i = Running \<and> started s i))"

definition finished :: "nat \<Rightarrow> (nat \<Rightarrow> byte) \<Rightarrow> nat \<Rightarrow> ring \<Rightarrow> bool" where
  "finished n ids M s = (\<forall>i<n. chan s i = [] \<and> phase s i = Done (ids M))"

definition ring_inv :: "nat \<Rightarrow> (nat \<Rightarrow> byte) \<Rightarrow> nat \<Rightarrow> ring \<Rightarrow> bool" where
  "ring_inv n ids M s = (origins n ids s \<and>
     (waiting n ids M s \<or> (\<exists>c. travelling n ids M s c) \<or> (\<exists>c. announcing n ids M s c)
      \<or> finished n ids M s))"

lemma ring_cfgD:
  assumes "ring_cfg n ids M"
  shows "2 \<le> n" "0 < n" "M < n" "\<And>j. j < n \<Longrightarrow> j \<noteq> M \<Longrightarrow> ids j < ids M"
    "\<And>i j. i < n \<Longrightarrow> j < n \<Longrightarrow> ids i = ids j \<longleftrightarrow> i = j"
  using assms by (auto simp: ring_cfg_def inj_on_def)

subsection \<open>Candidates\<close>

lemma origin_own: "k < n \<Longrightarrow> origin n ids k (ids k)"
  unfolding origin_def by (intro exI [of _ k]) auto

lemma origin_forward:
  assumes "ring_cfg n ids M" and "c < n" and "origin n ids c x" and "ids (next_in n c) < x"
  shows "origin n ids (next_in n c) x"
proof -
  note cfg = ring_cfgD [OF assms(1)]
  obtain k where k: "k < n" "x = ids k"
    and less: "\<And>j. j < n \<Longrightarrow> 0 < pos n k j \<Longrightarrow> pos n k j \<le> pos n k c \<Longrightarrow> ids j < ids k"
    using assms(3) by (auto simp: origin_def)
  have "next_in n c \<noteq> k"
    using assms(4) k by auto
  then have nx: "pos n k (next_in n c) = Suc (pos n k c)"
    using pos_next k assms(2) by blast
  have "ids j < ids k" if j: "j < n" "0 < pos n k j" "pos n k j \<le> pos n k (next_in n c)" for j
  proof (cases "pos n k j \<le> pos n k c")
    case False
    then have "pos n k j = pos n k (next_in n c)"
      using j nx by simp
    then have "j = next_in n c"
      using pos_inject [OF k(1) j(1) next_less [OF cfg(2)]] by simp
    then show ?thesis
      using assms(4) k by simp
  qed (use less j in blast)
  then show ?thesis
    using k by (auto simp: origin_def)
qed

text \<open>A candidate that comes back to the server it started from is the greatest id.\<close>

lemma origin_back:
  assumes "ring_cfg n ids M" and "c < n" and "origin n ids c (ids (next_in n c))"
  shows "next_in n c = M"
proof (rule ccontr)
  note cfg = ring_cfgD [OF assms(1)]
  assume neq: "next_in n c \<noteq> M"
  obtain k where k: "k < n" "ids (next_in n c) = ids k"
    and less: "\<And>j. j < n \<Longrightarrow> 0 < pos n k j \<Longrightarrow> pos n k j \<le> pos n k c \<Longrightarrow> ids j < ids k"
    using assms(3) by (auto simp: origin_def)
  have nx: "next_in n c = k"
    using k cfg(5) [OF next_less [OF cfg(2)] k(1)] by simp
  have "pos n k M \<noteq> 0" "pos n k M \<le> pos n k c"
    using pos_last [OF k(1) assms(2) nx] pos_eq_0 [OF k(1) cfg(3)] pos_less [OF cfg(2), of k M]
      neq nx by auto
  then have "ids M < ids k"
    using less [OF cfg(3)] by simp
  then show False
    using cfg(4) [OF k(1)] neq nx by (cases "k = M") auto
qed

lemma undecided_started: "undecided n s \<Longrightarrow> i < n \<Longrightarrow> phase s i = Running \<Longrightarrow> started s i"
  by (auto simp: undecided_def)

lemma origins_step:
  assumes "ring_cfg n ids M" and "origins n ids s" and "ring_step n ids s s'"
    and "undecided n s \<or> (\<forall>c<n. \<forall>x. underway x \<notin> set (chan s c))"
  shows "origins n ids s'"
  using assms(3)
proof (cases rule: ring_stepE)
  case (start i)
  then show ?thesis
    using assms(2) origin_own [OF start(2)] by (auto simp: origins_def start_server_def)
next
  case (reply c m ms)
  note cfg = ring_cfgD [OF assms(1)] and ch = reply(4)
  let ?i = "next_in n c"
  have neq: "?i \<noteq> c" and lt: "?i < n"
    using next_neq [OF cfg(1) reply(2)] next_less [OF cfg(2)] by auto
  show ?thesis
  proof (cases m rule: message_cases)
    case (2 x)
    then show ?thesis
      using assms(2) ch neq \<open>c < n\<close> \<open>s' = _\<close> by (auto simp: origins_def reply_elected)
  next
    case (1 x)
    then have "underway x \<in> set (chan s c)"
      using ch by simp
    then have org: "origin n ids c x" and "undecided n s"
      using assms(2,4) \<open>c < n\<close> by (auto simp: origins_def)
    then have st: "started s ?i"
      using undecided_started lt \<open>phase s ?i = Running\<close> by blast
    have fwd: "origin n ids ?i x" if "ids ?i < x"
      by (rule origin_forward [OF assms(1) \<open>c < n\<close> org that])
    consider "x < ids ?i" | "x = ids ?i" | "ids ?i < x"
      by fastforce
    then show ?thesis
      using assms(2) ch neq st 1 \<open>c < n\<close> \<open>s' = _\<close> \<open>phase s ?i = Running\<close> fwd
      by cases (auto simp: origins_def reply_drop reply_win reply_forward)
  qed
qed

subsection \<open>Each stage leads to a stage\<close>

lemma undecided_chan:
  assumes "undecided n s" and "c < n" and "chan s c = m # ms"
  obtains x where "m = underway x"
proof -
  have "m \<in> set (chan s c)"
    using assms(3) by simp
  then show thesis
    using assms(1,2) that by (cases m rule: message_cases) (auto simp: undecided_def)
qed

lemma undecided_reply:
  assumes "ring_cfg n ids M" and "origins n ids s" and "undecided n s" and "c < n"
    and "phase s (next_in n c) = Running" and "chan s c = underway x # ms"
  shows "x < ids (next_in n c) \<and> reply_server n ids c s = s\<lparr>chan := (chan s)(c := ms)\<rparr>
    \<or> next_in n c = M \<and> x = ids M \<and> reply_server n ids c s
        = s\<lparr>chan := (chan s)(c := ms, M := chan s M @ [elected (ids M)])\<rparr>
    \<or> next_in n c \<noteq> M \<and> ids (next_in n c) < x \<and> reply_server n ids c s
        = s\<lparr>chan := (chan s)(c := ms, next_in n c := chan s (next_in n c) @ [underway x])\<rparr>"
proof -
  note cfg = ring_cfgD [OF assms(1)]
  have neq: "next_in n c \<noteq> c" and lt: "next_in n c < n"
    using next_neq [OF cfg(1) assms(4)] next_less [OF cfg(2)] by auto
  have st: "started s (next_in n c)"
    using assms(3,5) lt by (auto simp: undecided_def)
  have org: "origin n ids c x"
    using assms(2,4,6) by (auto simp: origins_def)
  consider "x < ids (next_in n c)" | "x = ids (next_in n c)" | "ids (next_in n c) < x"
    by fastforce
  then show ?thesis
  proof cases
    case 1
    then show ?thesis
      using reply_drop [where s = s and c = c and n = n and ids = ids and ms = ms and x = x]
        assms(5,6) st by blast
  next
    case 2
    then have "next_in n c = M"
      using origin_back [OF assms(1,4)] org by simp
    then show ?thesis
      using reply_win [where s = s and c = c and n = n and ids = ids and ms = ms] assms(5,6) st neq 2
      by auto
  next
    case 3
    moreover have "next_in n c \<noteq> M"
    proof
      assume "next_in n c = M"
      moreover obtain k where "k < n" "x = ids k"
        using org by (auto simp: origin_def)
      ultimately show False
        using 3 cfg(4) [of k] by (cases "k = M") auto
    qed
    ultimately show ?thesis
      using reply_forward [where s = s and c = c and n = n and ids = ids and ms = ms and x = x]
        assms(5,6) st neq 3 by blast
  qed
qed

text \<open>Taking a message from a channel, or passing a candidate on, keeps what holds of all messages.\<close>

lemma undecided_pop:
  assumes "undecided n s" and "c < n" and "chan s c = m # ms"
  shows "undecided n (s\<lparr>chan := (chan s)(c := ms)\<rparr>)"
proof -
  have "set ms \<subseteq> set (chan s c)"
    using assms(3) by auto
  then show ?thesis
    using assms(1,2) by (auto simp: undecided_def)
qed

lemma undecided_pass:
  assumes "undecided n s" and "c < n" and "chan s c = m # ms" and "i \<noteq> c"
  shows "undecided n (s\<lparr>chan := (chan s)(c := ms, i := chan s i @ [underway x])\<rparr>)"
proof -
  have "set ms \<subseteq> set (chan s c)"
    using assms(3) by auto
  then show ?thesis
    using assms(1,2,4) by (auto simp: undecided_def)
qed

lemma undecided_start:
  "undecided n s \<Longrightarrow> undecided n (start_server ids i s)"
  by (auto simp: undecided_def start_server_def)

lemma waiting_start:
  assumes "ring_cfg n ids M" and "waiting n ids M s" and "i < n"
  shows "waiting n ids M (start_server ids i s) \<or> travelling n ids M (start_server ids i s) M"
proof (cases "i = M")
  note cfg = ring_cfgD [OF assms(1)]
  case True
  have "travelling n ids M (start_server ids M s) M"
    using assms(2) cfg(3) pos_eq_0 [OF cfg(3)]
    by (auto simp: travelling_def waiting_def undecided_def start_server_def)
  then show ?thesis
    using True by simp
next
  note cfg = ring_cfgD [OF assms(1)]
  case False
  then have "ids i \<noteq> ids M"
    using cfg(5) [OF assms(3) cfg(3)] by simp
  then have "waiting n ids M (start_server ids i s)"
    using assms(2) False by (auto simp: waiting_def undecided_def start_server_def)
  then show ?thesis
    by simp
qed

lemma waiting_step:
  assumes "ring_cfg n ids M" and "origins n ids s" and "waiting n ids M s" and "ring_step n ids s s'"
  shows "waiting n ids M s' \<or> travelling n ids M s' M"
  using assms(4)
proof (cases rule: ring_stepE)
  case (start i)
  then show ?thesis
    using waiting_start [OF assms(1,3)] by simp
next
  case (reply c m ms)
  have und: "undecided n s" and idle: "phase s M = Idle"
    and none: "\<And>i. i < n \<Longrightarrow> underway (ids M) \<notin> set (chan s i)"
    using assms(3) by (auto simp: waiting_def)
  obtain x where ch: "chan s c = underway x # ms"
    using undecided_chan [OF und reply(2,4)] reply(4) by metis
  have xm: "x \<noteq> ids M" and ms: "set ms \<subseteq> set (chan s c)"
    using none [OF reply(2)] ch by auto
  let ?i = "next_in n c"
  have neq: "?i \<noteq> c"
    using next_neq [OF ring_cfgD(1) [OF assms(1)] reply(2)] .
  consider "s' = s\<lparr>chan := (chan s)(c := ms)\<rparr>"
    | "s' = s\<lparr>chan := (chan s)(c := ms, ?i := chan s ?i @ [underway x])\<rparr>"
    using undecided_reply [OF assms(1,2) und reply(2,3) ch] reply(1) xm by auto
  then have "waiting n ids M s'"
  proof cases
    case 1
    then show ?thesis
      using undecided_pop [OF und reply(2) ch] idle none ms reply(2) by (auto simp: waiting_def)
  next
    case 2
    then show ?thesis
      using undecided_pass [OF und reply(2) ch neq, of x] idle none ms xm reply(2)
      by (auto simp: waiting_def)
  qed
  then show ?thesis
    by simp
qed

lemma travelling_start:
  assumes "ring_cfg n ids M" and "travelling n ids M s c" and "i < n" and "phase s i = Idle"
  shows "travelling n ids M (start_server ids i s) c"
proof -
  note cfg = ring_cfgD [OF assms(1)]
  have run: "pos n M j \<le> pos n M c \<Longrightarrow> phase s j = Running" if "j < n" for j
    using assms(2) that by (auto simp: travelling_def)
  have far: "pos n M c < pos n M i" and "i \<noteq> c"
    using run [OF assms(3)] assms(4) by (auto simp: not_le [symmetric])
  moreover have "i \<noteq> M"
    using far cfg(3) by auto
  then have "ids i \<noteq> ids M"
    using cfg(5) [OF assms(3) cfg(3)] by simp
  ultimately show ?thesis
    using assms(2) undecided_start [of n s ids i] by (auto simp: travelling_def start_server_def)
qed

text \<open>A message in a channel that the greatest candidate has not passed through.\<close>

lemma travelling_pop:
  assumes "ring_cfg n ids M" and "travelling n ids M s c" and "c' < n" and "chan s c' = underway x # ms"
    and "x \<noteq> ids M"
  shows "travelling n ids M (s\<lparr>chan := (chan s)(c' := ms)\<rparr>) c" and "pos n M c \<le> pos n M c'"
proof -
  have und: "undecided n s" and c: "c < n"
    and none: "\<And>i. i < n \<Longrightarrow> i \<noteq> c \<Longrightarrow> underway (ids M) \<notin> set (chan s i)"
    and empty: "\<And>i. i < n \<Longrightarrow> pos n M i < pos n M c \<Longrightarrow> chan s i = []"
    and run: "\<And>i. i < n \<Longrightarrow> pos n M i \<le> pos n M c \<Longrightarrow> phase s i = Running"
    using assms(2) by (auto simp: travelling_def)
  obtain xs where xs: "chan s c = xs @ [underway (ids M)]" "underway (ids M) \<notin> set xs"
    using assms(2) by (auto simp: travelling_def)
  have ms: "set ms \<subseteq> set (chan s c')"
    using assms(4) by auto
  show after: "pos n M c \<le> pos n M c'"
    using empty [OF assms(3)] assms(4) by (cases "pos n M c' < pos n M c") auto
  have front: "\<exists>ys. ms = ys @ [underway (ids M)] \<and> underway (ids M) \<notin> set ys" if "c' = c"
    using xs assms(4,5) that by (cases xs) auto
  have sub: "underway (ids M) \<notin> set ms" if "c' \<noteq> c"
    using none [OF assms(3) that] ms by auto
  show "travelling n ids M (s\<lparr>chan := (chan s)(c' := ms)\<rparr>) c"
    using undecided_pop [OF und assms(3,4)] c none empty run xs front sub after
    by (auto simp: travelling_def)
qed

text \<open>Another candidate added to a channel that the greatest one has not reached.\<close>

lemma travelling_add:
  assumes "travelling n ids M s c" and "pos n M c < pos n M i" and "x \<noteq> ids M"
  shows "travelling n ids M (s\<lparr>chan := (chan s)(i := chan s i @ [underway x])\<rparr>) c"
  using assms by (auto simp: travelling_def undecided_def)

lemma travelling_forward:
  assumes "ring_cfg n ids M" and "travelling n ids M s c" and "c' < n" and "chan s c' = underway x # ms"
    and "x \<noteq> ids M" and "next_in n c' \<noteq> M"
  shows "travelling n ids M (s\<lparr>chan := (chan s)(c' := ms,
      next_in n c' := chan s (next_in n c') @ [underway x])\<rparr>) c"
proof -
  note cfg = ring_cfgD [OF assms(1)] and pop = travelling_pop [OF assms(1-5)]
  have "pos n M c < pos n M (next_in n c')"
    using pos_next [OF cfg(3) assms(3,6)] pop(2) by simp
  from travelling_add [OF pop(1) this assms(5)] next_neq [OF cfg(1) assms(3)] show ?thesis
    by simp
qed

lemma travelling_front:
  assumes "ring_cfg n ids M" and "travelling n ids M s c" and "chan s c = underway (ids M) # ms"
  shows "ms = []" "\<And>i. i < n \<Longrightarrow> pos n M i < pos n M c \<Longrightarrow> chan s i = []"
proof -
  obtain xs where "underway (ids M) # ms = xs @ [underway (ids M)]" "underway (ids M) \<notin> set xs"
    using assms(2,3) by (auto simp: travelling_def)
  then show "ms = []"
    by (cases xs) auto
qed (use assms(2) in \<open>auto simp: travelling_def\<close>)

lemma travelling_pass:
  assumes "ring_cfg n ids M" and "travelling n ids M s c" and "chan s c = underway (ids M) # ms"
    and "next_in n c \<noteq> M" and "phase s (next_in n c) = Running"
  shows "travelling n ids M (s\<lparr>chan := (chan s)(c := ms,
      next_in n c := chan s (next_in n c) @ [underway (ids M)])\<rparr>) (next_in n c)"
proof -
  note cfg = ring_cfgD [OF assms(1)]
  have und: "undecided n s" and c: "c < n"
    and none: "\<And>i. i < n \<Longrightarrow> i \<noteq> c \<Longrightarrow> underway (ids M) \<notin> set (chan s i)"
    and run: "\<And>i. i < n \<Longrightarrow> pos n M i \<le> pos n M c \<Longrightarrow> phase s i = Running"
    using assms(2) by (auto simp: travelling_def)
  note front = travelling_front [OF assms(1,2,3)]
  let ?i = "next_in n c"
  have neq: "?i \<noteq> c" and lt: "?i < n"
    using next_neq [OF cfg(1) c] c by auto
  have nx: "pos n M ?i = Suc (pos n M c)"
    using pos_next [OF cfg(3) c assms(4)] .
  have same: "i = c" if "i < n" "pos n M i = pos n M c" for i
    using pos_inject [OF cfg(3) that(1) c] that(2) by simp
  have same': "i = ?i" if "i < n" "pos n M i = pos n M ?i" for i
    using pos_inject [OF cfg(3) that(1) lt] that(2) by simp
  let ?s = "s\<lparr>chan := (chan s)(c := ms, ?i := chan s ?i @ [underway (ids M)])\<rparr>"
  have "undecided n ?s"
    by (rule undecided_pass [OF und c assms(3) neq])
  moreover have "\<exists>xs. chan ?s ?i = xs @ [underway (ids M)] \<and> underway (ids M) \<notin> set xs"
    using none [OF lt neq] by simp
  moreover have "underway (ids M) \<notin> set (chan ?s i)" if "i < n" "i \<noteq> ?i" for i
    using none that front(1) by simp
  moreover have "chan ?s i = []" if "i < n" "pos n M i < pos n M ?i" for i
    using that front nx same [OF that(1)] by (auto simp: less_Suc_eq)
  moreover have "phase ?s i = Running" if "i < n" "pos n M i \<le> pos n M ?i" for i
    using that run [OF that(1)] nx same' [OF that(1)] assms(5) by (auto simp: le_Suc_eq)
  ultimately show ?thesis
    using lt by (simp add: travelling_def del: fun_upd_apply)
qed

lemma travelling_win:
  assumes "ring_cfg n ids M" and "travelling n ids M s c" and "chan s c = underway (ids M) # ms"
    and "next_in n c = M"
  shows "announcing n ids M
    (s\<lparr>chan := (chan s)(c := ms, M := chan s M @ [elected (ids M)])\<rparr>) M"
proof -
  note cfg = ring_cfgD [OF assms(1)]
  have und: "undecided n s" and c: "c < n"
    and run: "\<And>i. i < n \<Longrightarrow> pos n M i \<le> pos n M c \<Longrightarrow> phase s i = Running"
    using assms(2) by (auto simp: travelling_def)
  note front = travelling_front [OF assms(1,2,3)]
  have last: "pos n M c = n - 1"
    using pos_last [OF cfg(3) c assms(4)] .
  have le: "pos n M i \<le> pos n M c" if "i < n" for i
    using pos_less [OF cfg(2), of M i] last by simp
  have empty: "chan s i = []" if "i < n" "i \<noteq> c" for i
    using front(2) [OF that(1)] le [OF that(1)] pos_inject [OF cfg(3) that(1) c] that(2)
    by (simp add: order.order_iff_strict)
  have "M \<noteq> c"
    using next_neq [OF cfg(1) c] assms(4) by simp
  then show ?thesis
    using cfg(3) c empty run le front(1) undecided_started [OF und]
    by (auto simp: announcing_def)
qed

lemma travelling_step:
  assumes "ring_cfg n ids M" and "origins n ids s" and "travelling n ids M s c"
    and "ring_step n ids s s'"
  shows "(\<exists>c'. travelling n ids M s' c') \<or> announcing n ids M s' M"
  using assms(4)
proof (cases rule: ring_stepE)
  case (start i)
  then show ?thesis
    using travelling_start [OF assms(1,3) start(2,3)] by auto
next
  case (reply c' m ms)
  have und: "undecided n s"
    and none: "\<And>i. i < n \<Longrightarrow> i \<noteq> c \<Longrightarrow> underway (ids M) \<notin> set (chan s i)"
    using assms(3) by (auto simp: travelling_def)
  obtain x where ch: "chan s c' = underway x # ms"
    using undecided_chan [OF und reply(2,4)] reply(4) by metis
  note step = undecided_reply [OF assms(1,2) und reply(2,3) ch, folded reply(1)]
  show ?thesis
  proof (cases "x = ids M")
    case True
    then have "c' = c"
      using none [OF reply(2)] ch by auto
    then have ch: "chan s c = underway (ids M) # ms"
      using ch True by simp
    have "\<not> ids M < ids (next_in n c)"
      using ring_cfgD(4) [OF assms(1) next_less [OF ring_cfgD(2) [OF assms(1)]], of c]
      by (cases "next_in n c = M") (simp_all add: not_less less_imp_le)
    then show ?thesis
      using step True \<open>c' = c\<close> travelling_pass [OF assms(1,3) ch] reply(3)
        travelling_win [OF assms(1,3) ch] by auto
  next
    case False
    show ?thesis
      using step False travelling_pop(1) [OF assms(1,3) reply(2) ch False]
        travelling_forward [OF assms(1,3) reply(2) ch False] by auto
  qed
qed

lemma announcingE:
  assumes "ring_cfg n ids M" and "announcing n ids M s c" and "ring_step n ids s s'"
  obtains "c < n" and "next_in n c < n" and "next_in n c \<noteq> c" and "chan s c = elected (ids M) # []"
    and "\<And>i. i < n \<Longrightarrow> i \<noteq> c \<Longrightarrow> chan s i = []" and "phase s (next_in n c) = Running"
    and "s' = reply_server n ids c s"
  using assms(3)
proof (cases rule: ring_stepE)
  case (start i)
  then show ?thesis
    using assms(2) by (auto simp: announcing_def split: if_splits)
next
  case (reply c' m ms)
  have c: "c < n" "chan s c = [elected (ids M)]" and only: "\<And>i. i < n \<Longrightarrow> i \<noteq> c \<Longrightarrow> chan s i = []"
    using assms(2) by (auto simp: announcing_def)
  have "c' = c"
    using only [OF reply(2)] reply(4) by auto
  moreover have "next_in n c \<noteq> c" "next_in n c < n"
    using next_neq [OF ring_cfgD(1) [OF assms(1)] c(1)] c(1) by auto
  ultimately show ?thesis
    using that c only reply(1,3) by simp
qed

lemma announcing_phases:
  assumes "announcing n ids M s c" and "i < n"
  shows "0 < pos n M i \<Longrightarrow> pos n M i \<le> pos n M c \<Longrightarrow> phase s i = Done (ids M)"
    and "\<not> (0 < pos n M i \<and> pos n M i \<le> pos n M c) \<Longrightarrow> phase s i = Running \<and> started s i"
  using assms unfolding announcing_def by (simp_all split: if_splits)

lemma announcing_last:
  assumes "ring_cfg n ids M" and "announcing n ids M s c" and "ring_step n ids s s'" and "next_in n c = M"
  shows "finished n ids M s'"
proof -
  note cfg = ring_cfgD [OF assms(1)]
  obtain c: "c < n" "next_in n c \<noteq> c" "chan s c = elected (ids M) # []" "s' = reply_server n ids c s"
    and only: "\<And>i. i < n \<Longrightarrow> i \<noteq> c \<Longrightarrow> chan s i = []"
    by (rule announcingE [OF assms(1-3)]) blast
  have "pos n M i \<le> pos n M c" if "i < n" for i
    using pos_less [OF cfg(2), of M i] pos_last [OF cfg(3) c(1) assms(4)] by simp
  then have "phase s i = Done (ids M)" if "i < n" "i \<noteq> M" for i
    using announcing_phases(1) [OF assms(2) that(1)] that pos_eq_0 [OF cfg(3) that(1)] by auto
  then show ?thesis
    using c(4) reply_elected [where s = s and n = n and ids = ids, OF c(3,2)] assms(4) c(2) only
    by (auto simp: finished_def)
qed

lemma announcing_pass:
  assumes "ring_cfg n ids M" and "announcing n ids M s c" and "ring_step n ids s s'" and "next_in n c \<noteq> M"
  shows "announcing n ids M s' (next_in n c)"
proof -
  note cfg = ring_cfgD [OF assms(1)]
  let ?i = "next_in n c"
  obtain c: "c < n" "?i < n" "?i \<noteq> c" "chan s c = elected (ids M) # []" "s' = reply_server n ids c s"
    and only: "\<And>i. i < n \<Longrightarrow> i \<noteq> c \<Longrightarrow> chan s i = []"
    by (rule announcingE [OF assms(1-3)]) blast
  have "ids M \<noteq> ids ?i"
    using cfg(5) [OF c(2) cfg(3)] assms(4) by simp
  then have s': "s' = s\<lparr>phase := (phase s)(?i := Done (ids M)), started := (started s)(?i := False),
      chan := (chan s)(c := [], ?i := [elected (ids M)])\<rparr>"
    using c(5) reply_elected [where s = s and n = n and ids = ids, OF c(4,3)] only [OF c(2,3)] by simp
  have nx: "pos n M ?i = Suc (pos n M c)"
    using pos_next [OF cfg(3) c(1) assms(4)] .
  have phases: "if 0 < pos n M i \<and> pos n M i \<le> pos n M ?i then phase s' i = Done (ids M)
      else phase s' i = Running \<and> started s' i" if "i < n" for i
  proof (cases "i = ?i")
    case False
    then have "pos n M i \<le> pos n M ?i \<longleftrightarrow> pos n M i \<le> pos n M c"
      using pos_inject [OF cfg(3) that c(2)] nx by (auto simp: le_Suc_eq)
    then show ?thesis
      using announcing_phases [OF assms(2) that] False s' by simp
  qed (simp add: s' nx)
  show ?thesis
    unfolding announcing_def
  proof (intro conjI allI impI)
    show "chan s' ?i = [elected (ids M)]"
      using s' by simp
    show "chan s' i = []" if "i < n" "i \<noteq> ?i" for i
      using that only s' by simp
  qed (use c(2) phases in blast)+
qed

lemmas announcing_step = announcing_last announcing_pass

lemma finished_final: "finished n ids M s \<Longrightarrow> \<not> ring_step n ids s s'"
  by (auto simp: finished_def elim!: ring_stepE)

subsection \<open>Reachable states\<close>

lemma init_inv: "ring_inv n ids M init_ring"
  by (auto simp: ring_inv_def origins_def waiting_def undecided_def init_ring_def)

lemma ring_inv_cases [consumes 1, case_names waiting travelling announcing finished]:
  assumes "ring_inv n ids M s"
  obtains "origins n ids s" "waiting n ids M s" | c where "origins n ids s" "travelling n ids M s c"
    | c where "origins n ids s" "announcing n ids M s c" | "finished n ids M s"
  using assms by (auto simp: ring_inv_def)

lemma ring_inv_step:
  assumes "ring_cfg n ids M" and "ring_inv n ids M s" and "ring_step n ids s s'"
  shows "ring_inv n ids M s'"
  using assms(2)
proof (cases rule: ring_inv_cases)
  case waiting
  then have "origins n ids s'"
    using origins_step [OF assms(1) _ assms(3)] by (auto simp: waiting_def)
  then show ?thesis
    using waiting_step [OF assms(1) waiting assms(3)] by (auto simp: ring_inv_def)
next
  case (travelling c)
  then have "origins n ids s'"
    using origins_step [OF assms(1) _ assms(3)] by (auto simp: travelling_def)
  then show ?thesis
    using travelling_step [OF assms(1) travelling assms(3)] by (auto simp: ring_inv_def)
next
  case (announcing c)
  have "underway x \<notin> set (chan s i)" if "i < n" for i x
    using announcing(2) that by (cases "i = c") (auto simp: announcing_def)
  then have "origins n ids s'"
    using origins_step [OF assms(1) announcing(1) assms(3)] by blast
  then show ?thesis
    using announcing_step [OF assms(1) announcing(2) assms(3)] by (auto simp: ring_inv_def)
next
  case finished
  then show ?thesis
    using finished_final assms(3) by blast
qed

lemma reach_inv: "ring_reach n ids s \<Longrightarrow> ring_cfg n ids M \<Longrightarrow> ring_inv n ids M s"
  by (induction rule: ring_reach.induct) (auto intro: init_inv ring_inv_step)

section \<open>Termination\<close>

text \<open>
  Each server that has not started and each message counts for the hops it can still cause:
  a candidate goes round at most once, and its announcement once more.
\<close>

definition idle_weight :: "nat \<Rightarrow> (nat \<Rightarrow> phase) \<Rightarrow> nat" where
  "idle_weight n ph = (\<Sum>i<n. if ph i = Idle then 2 * n + 1 else 0)"

definition chan_weight :: "nat \<Rightarrow> (nat \<Rightarrow> 'm \<Rightarrow> nat) \<Rightarrow> (nat \<Rightarrow> 'm list) \<Rightarrow> nat" where
  "chan_weight n w ch = (\<Sum>i<n. sum_list (map (w i) (ch i)))"

definition owner :: "nat \<Rightarrow> (nat \<Rightarrow> byte) \<Rightarrow> byte \<Rightarrow> nat" where
  "owner n ids x = length (takeWhile (\<lambda>k. ids k \<noteq> x) [0..<n])"

definition weight :: "nat \<Rightarrow> (nat \<Rightarrow> byte) \<Rightarrow> nat \<Rightarrow> ElectionData \<Rightarrow> nat" where
  "weight n ids c m = (case el_status m of
     kUnderway \<Rightarrow> 2 * n - pos n (owner n ids (data_id m)) c
   | kElected \<Rightarrow> n - pos n (owner n ids (data_id m)) c)"

definition hops_left :: "nat \<Rightarrow> (nat \<Rightarrow> byte) \<Rightarrow> ring \<Rightarrow> nat" where
  "hops_left n ids s = idle_weight n (phase s) + chan_weight n (weight n ids) (chan s)"

lemma owner_ids:
  assumes "ring_cfg n ids M" and "k < n"
  shows "owner n ids (ids k) = k"
proof -
  have "[0..<n] = [0..<k] @ k # [Suc k..<n]"
    using assms(2) upt_add_eq_append [of 0 k "n - k"] by (simp add: upt_conv_Cons)
  moreover have "takeWhile (\<lambda>j. ids j \<noteq> ids k) ([0..<k] @ k # [Suc k..<n]) = [0..<k]"
    using ring_cfgD(5) [OF assms(1) _ assms(2)] assms(2) by (subst takeWhile_append2) auto
  ultimately show ?thesis
    by (simp add: owner_def)
qed

lemma weight_simps:
  assumes "ring_cfg n ids M" and "k < n"
  shows "weight n ids c (underway (ids k)) = 2 * n - pos n k c"
    and "weight n ids c (elected (ids k)) = n - pos n k c"
  using owner_ids [OF assms] by (simp_all add: weight_def)

lemma chan_weight_snoc:
  assumes "i < n"
  shows "chan_weight n w (ch(i := ch i @ [m])) = chan_weight n w ch + w i m"
  using assms by (simp add: chan_weight_def sum.remove [of "{..<n}" i])

lemma chan_weight_pop:
  assumes "c < n" and "ch c = m # ms"
  shows "chan_weight n w ch = w c m + chan_weight n w (ch(c := ms))"
  using assms by (simp add: chan_weight_def sum.remove [of "{..<n}" c])

lemma chan_weight_pass:
  assumes "c < n" and "ch c = m # ms" and "i < n" and "i \<noteq> c"
  shows "chan_weight n w (ch(c := ms, i := ch i @ [m'])) + w c m = chan_weight n w ch + w i m'"
  using chan_weight_snoc [of i n w "ch(c := ms)" m'] chan_weight_pop [of c n ch m ms w] assms
  by simp

lemma idle_weight_start:
  "i < n \<Longrightarrow> ph i = Idle \<Longrightarrow> idle_weight n ph = 2 * n + 1 + idle_weight n (ph(i := Running))"
  by (simp add: idle_weight_def sum.remove [of "{..<n}" i])

lemma idle_weight_same:
  "ph i \<noteq> Idle \<Longrightarrow> p \<noteq> Idle \<Longrightarrow> idle_weight n (ph(i := p)) = idle_weight n ph"
  unfolding idle_weight_def by (rule sum.cong) auto

lemma start_hops:
  assumes "ring_cfg n ids M" and "i < n" and "phase s i = Idle"
  shows "hops_left n ids (start_server ids i s) < hops_left n ids s"
  using idle_weight_start [of i n "phase s"] chan_weight_snoc [OF assms(2), of _ "chan s"]
    weight_simps(1) [OF assms(1,2), of i] assms(2,3)
  by (simp add: hops_left_def start_server_def)

lemma undecided_hops:
  assumes "ring_cfg n ids M" and "origins n ids s" and "undecided n s" and "c < n"
    and "phase s (next_in n c) = Running" and "chan s c = underway x # ms"
  shows "hops_left n ids (reply_server n ids c s) < hops_left n ids s"
proof -
  note cfg = ring_cfgD [OF assms(1)]
  let ?i = "next_in n c"
  have neq: "?i \<noteq> c" and lt: "?i < n"
    using next_neq [OF cfg(1) assms(4)] assms(4) by auto
  have "origin n ids c x"
    using assms(2,4,6) by (auto simp: origins_def)
  then obtain k where k: "k < n" "x = ids k"
    by (auto simp: origin_def)
  have less: "pos n k j < n" for j
    using pos_less [OF cfg(2)] .
  note w = weight_simps [OF assms(1) k(1), folded k(2)]
  note pop = chan_weight_pop [of c n "chan s" "underway x" ms "weight n ids", OF assms(4,6)]
  note pass = chan_weight_pass [of c n "chan s" "underway x" ms ?i "weight n ids", OF assms(4,6) lt neq]
  from undecided_reply [OF assms] show ?thesis
  proof (elim disjE conjE)
    assume "reply_server n ids c s = s\<lparr>chan := (chan s)(c := ms)\<rparr>"
    then show ?thesis
      using pop w(1) [of c] less [of c] by (simp add: hops_left_def)
  next
    assume "?i = M" "x = ids M" "reply_server n ids c s
        = s\<lparr>chan := (chan s)(c := ms, M := chan s M @ [elected (ids M)])\<rparr>"
    then show ?thesis
      using pass [of "elected (ids M)"] w(1) [of c] less [of c]
        weight_simps(2) [OF assms(1) cfg(3), of M] cfg(3)
      by (simp add: hops_left_def)
  next
    assume i: "ids ?i < x" "reply_server n ids c s
        = s\<lparr>chan := (chan s)(c := ms, ?i := chan s ?i @ [underway x])\<rparr>"
    then have "?i \<noteq> k"
      using k by auto
    then show ?thesis
      using pass [of "underway x"] w(1) [of c] w(1) [of ?i] less [of c] less [of ?i]
        pos_next [OF k(1) assms(4)] i
      by (simp add: hops_left_def)
  qed
qed

lemma announcing_hops:
  assumes "ring_cfg n ids M" and "announcing n ids M s c" and "ring_step n ids s s'"
  shows "hops_left n ids s' < hops_left n ids s"
proof -
  note cfg = ring_cfgD [OF assms(1)]
  let ?i = "next_in n c"
  obtain c: "c < n" and lt: "?i < n" and neq: "?i \<noteq> c" and ch: "chan s c = elected (ids M) # []"
    and run: "phase s ?i = Running" and s': "s' = reply_server n ids c s"
    by (rule announcingE [OF assms]) blast
  have less: "pos n M j < n" for j
    using pos_less [OF cfg(2)] .
  have idle: "idle_weight n ((phase s)(?i := Done x)) = idle_weight n (phase s)" for x
    using run by (intro idle_weight_same) auto
  note w = weight_simps(2) [OF assms(1) cfg(3)]
  note re = reply_elected [where s = s and n = n and ids = ids, OF ch neq]
  show ?thesis
  proof (cases "?i = M")
    case True
    then have "chan s' = (chan s)(c := [])"
      using s' re neq by auto
    then show ?thesis
      using s' re idle chan_weight_pop [of c n "chan s" "elected (ids M)" "[]" "weight n ids"] c ch w [of c] less [of c]
      by (simp add: hops_left_def)
  next
    case False
    then have "ids M \<noteq> ids ?i"
      using cfg(5) [OF lt cfg(3)] by simp
    then have "chan s' = (chan s)(c := [], ?i := chan s ?i @ [elected (ids M)])"
      using s' re by auto
    then show ?thesis
      using s' re idle chan_weight_pass [of c n "chan s" "elected (ids M)" "[]" ?i "weight n ids" "elected (ids M)"] c ch lt neq
        w [of c] w [of ?i] less [of c] less [of ?i] pos_next [OF cfg(3) c False]
      by (simp add: hops_left_def)
  qed
qed

lemma step_hops:
  assumes "ring_cfg n ids M" and "ring_inv n ids M s" and "ring_step n ids s s'"
  shows "hops_left n ids s' < hops_left n ids s"
proof -
  have und: ?thesis if und: "origins n ids s" "undecided n s"
    using assms(3)
  proof (cases rule: ring_stepE)
    case (start i)
    then show ?thesis
      using start_hops [OF assms(1)] by simp
  next
    case (reply c m ms)
    obtain x where "chan s c = underway x # ms"
      using undecided_chan [OF und(2) reply(2,4)] reply(4) by metis
    then show ?thesis
      using undecided_hops [OF assms(1) und reply(2,3)] reply(1) by simp
  qed
  from assms(2) show ?thesis
  proof (cases rule: ring_inv_cases)
    case waiting
    then show ?thesis
      using und by (simp add: waiting_def)
  next
    case (travelling c)
    then show ?thesis
      using und by (simp add: travelling_def)
  next
    case (announcing c)
    then show ?thesis
      using announcing_hops [OF assms(1) _ assms(3)] by blast
  next
    case finished
    then show ?thesis
      using finished_final assms(3) by blast
  qed
qed

lemma hops_run:
  "(ring_step n ids ^^ k) init_ring s \<Longrightarrow> ring_cfg n ids M \<Longrightarrow>
    ring_inv n ids M s \<and> k + hops_left n ids s \<le> hops_left n ids init_ring"
proof (induction k arbitrary: s)
  case 0
  then show ?case
    by (auto intro: init_inv)
next
  case (Suc k)
  then obtain t where t: "(ring_step n ids ^^ k) init_ring t" "ring_step n ids t s"
    by auto
  then show ?case
    using Suc step_hops [of n ids M t s] ring_inv_step [of n ids M t s] by fastforce
qed

lemma hops_init: "hops_left n ids init_ring = n * (2 * n + 1)"
  by (simp add: hops_left_def idle_weight_def chan_weight_def init_ring_def)

text \<open>Until the election is over, some server can move.\<close>

lemma step_possible:
  assumes "ring_cfg n ids M" and "ring_inv n ids M s" and "\<not> finished n ids M s"
  shows "\<exists>s'. ring_step n ids s s'"
  using assms(2)
proof (cases rule: ring_inv_cases)
  case waiting
  then show ?thesis
    using start [of M n s ids] ring_cfgD(3) [OF assms(1)] by (auto simp: waiting_def)
next
  case (travelling c)
  then have "c < n" "chan s c \<noteq> []" and "undecided n s"
    by (auto simp: travelling_def)
  moreover from this have "phase s (next_in n c) = Idle \<or> phase s (next_in n c) = Running"
    using next_less [OF ring_cfgD(2) [OF assms(1)], of c] unfolding undecided_def by blast
  ultimately show ?thesis
    using start [of "next_in n c" n s ids] reply [of c n s ids]
      next_less [OF ring_cfgD(2) [OF assms(1)], of c] by blast
next
  case (announcing c)
  note cfg = ring_cfgD [OF assms(1)]
  have c: "c < n" "chan s c \<noteq> []"
    using announcing(2) by (auto simp: announcing_def)
  have "\<not> (0 < pos n M (next_in n c) \<and> pos n M (next_in n c) \<le> pos n M c)"
    using pos_next [OF cfg(3) c(1)] cfg(3) by (cases "next_in n c = M") auto
  then have "phase s (next_in n c) = Running"
    using announcing(2) next_less [OF cfg(2), of c] unfolding announcing_def by (simp split: if_splits)
  then show ?thesis
    using reply [of c n s ids] c by blast
qed (use assms(3) in blast)

section \<open>What the election guarantees\<close>

text \<open>A ring of two servers and one of its runs.\<close>

definition sample_ids :: "nat \<Rightarrow> byte" where
  "sample_ids i = of_nat i"

definition sample_end :: ring where
  "sample_end = fold (reply_server 2 sample_ids) [0, 1, 0, 1, 0]
     (start_server sample_ids 1 (start_server sample_ids 0 init_ring))"

lemma sample_cfg: "ring_cfg 2 sample_ids 1"
  by (auto simp: ring_cfg_def sample_ids_def inj_on_def less_2_cases_iff)

lemmas sample_defs = reply_server_def start_server_def init_ring_def underway_def sample_ids_def

lemma sample_run: "(ring_step 2 sample_ids ^^ 7) init_ring sample_end"
proof -
  let ?s2 = "start_server sample_ids 1 (start_server sample_ids 0 init_ring)"
  let ?r = "reply_server 2 sample_ids"
  have "ring_step 2 sample_ids init_ring (start_server sample_ids 0 init_ring)"
    by (rule start) (auto simp: sample_defs)
  moreover have "ring_step 2 sample_ids (start_server sample_ids 0 init_ring) ?s2"
    by (rule start) (auto simp: sample_defs)
  moreover have "ring_step 2 sample_ids ?s2 (?r 0 ?s2)"
    by (rule reply) (auto simp: sample_defs)
  moreover have "ring_step 2 sample_ids (?r 0 ?s2) (?r 1 (?r 0 ?s2))"
    by (rule reply) (auto simp: sample_defs)
  moreover have "ring_step 2 sample_ids (?r 1 (?r 0 ?s2)) (?r 0 (?r 1 (?r 0 ?s2)))"
    by (rule reply) (auto simp: sample_defs)
  moreover have "ring_step 2 sample_ids (?r 0 (?r 1 (?r 0 ?s2))) (?r 1 (?r 0 (?r 1 (?r 0 ?s2))))"
    by (rule reply) (auto simp: sample_defs)
  moreover have "ring_step 2 sample_ids (?r 1 (?r 0 (?r 1 (?r 0 ?s2)))) sample_end"
    unfolding sample_end_def fold.simps comp_def id_def by (rule reply) (auto simp: sample_defs)
  ultimately show ?thesis
    by (auto simp: numeral_eq_Suc intro!: relcomppI)
qed

lemma relpowp_reach: "(ring_step n ids ^^ k) init_ring s \<Longrightarrow> ring_reach n ids s"
  by (induction k arbitrary: s) (auto intro: init step)

lemma sample_reach: "ring_reach 2 sample_ids sample_end"
  using sample_run by (rule relpowp_reach)

lemma sample_end_phase: "phase sample_end 0 = Done 1" "phase sample_end (Suc 0) = Done 1"
  by (simp_all add: sample_end_def sample_defs)

text \<open>
  C1. In every state a ring can reach, whatever the order in which the servers start and
  handle their messages, a server that knows the winner knows the greatest id of the ring.
\<close>

theorem election_agreement:
  assumes "ring_cfg n ids M" and "ring_reach n ids s" and "i < n" and "phase s i = Done w"
  shows "w = ids M"
  using reach_inv [OF assms(2,1)]
proof (cases rule: ring_inv_cases)
  case waiting
  then show ?thesis
    using assms(3,4) by (auto simp: waiting_def undecided_def)
next
  case (travelling c)
  then show ?thesis
    using assms(3,4) by (auto simp: travelling_def undecided_def)
next
  case (announcing c)
  then show ?thesis
    using assms(3,4) by (auto simp: announcing_def split: if_splits)
next
  case finished
  then show ?thesis
    using assms(3,4) by (simp add: finished_def)
qed

theorem election_agreement_witness: "phase sample_end 0 = Done (sample_ids 1)"
  using election_agreement [OF sample_cfg sample_reach, of 0 1] sample_end_phase by simp

text \<open>
  C26. An election ends: no run of a ring of \<open>n\<close> servers has more than \<open>n * (2 * n + 1)\<close> steps.
\<close>

theorem election_terminates:
  assumes "ring_cfg n ids M" and "(ring_step n ids ^^ k) init_ring s"
  shows "k \<le> n * (2 * n + 1)"
  using hops_run [OF assms(2,1)] by (simp add: hops_init)

theorem election_terminates_witness:
  "(ring_step 2 sample_ids ^^ 7) init_ring sample_end \<and> phase sample_end 0 = Done 1 \<and> phase sample_end 1 = Done 1
    \<and> (7::nat) \<le> 2 * (2 * 2 + 1) \<and> (\<nexists>s. (ring_step 2 sample_ids ^^ 11) init_ring s)"
  using election_terminates [OF sample_cfg sample_run] election_terminates [OF sample_cfg, of 11] sample_run
    sample_end_phase by auto

lemma election_finished:
  assumes "ring_cfg n ids M" and "ring_reach n ids s" and "\<And>s'. \<not> ring_step n ids s s'"
  shows "\<forall>i. i < n \<longrightarrow> phase s i = Done (ids M) \<and> chan s i = []"
  using step_possible [OF assms(1) reach_inv [OF assms(2,1)]] assms(3) by (auto simp: finished_def)

text \<open>
  C11. An election never gets stuck halfway: where no server can move any more, every one of
  them has returned from \<^verbatim>\<open>PerformElection\<close> with the greatest id, and no message is left
  in the connections for the election after it.
\<close>

theorem election_completes:
  assumes "ring_cfg n ids M" and "ring_reach n ids s" and "\<And>s'. \<not> ring_step n ids s s'"
  shows "\<forall>i. i < n \<longrightarrow> phase s i = Done (ids M) \<and> chan s i = []"
  using election_finished [OF assms] .

theorem election_completes_witness:
  "phase sample_end 0 = Done (sample_ids 1) \<and> phase sample_end 1 = Done (sample_ids 1)
    \<and> chan sample_end 0 = [] \<and> chan sample_end 1 = []"
proof -
  have "\<not> ring_step 2 sample_ids sample_end s'" for s'
    using sample_end_phase by (auto elim!: ring_stepE simp: less_2_cases_iff)
  then show ?thesis
    using election_completes [OF sample_cfg sample_reach] by simp
qed



end
