(* ===== verification/Sockets.thy ===== *)
theory Sockets
  imports Prelude
begin

text \<open>
  Sockets as owned descriptors: \<^verbatim>\<open>common/networking/Socket.hpp\<close>, \<^verbatim>\<open>Socket.cpp\<close>
  and \<^verbatim>\<open>Addr.hpp\<close>, and the connections of a ring, \<^verbatim>\<open>server/election/Ring.hpp\<close> and
  \<^verbatim>\<open>Ring.cpp\<close>.

  The state is the value of every live \<^verbatim>\<open>Socket\<close> object and the descriptors the kernel
  has open. \<open>bad_close\<close> records a \<^verbatim>\<open>close\<close> of a descriptor that is not open.
\<close>

section \<open>Addresses\<close>

text \<open>\<^verbatim>\<open>Addr\<close> keeps the port twice: as it is, and in network byte order in the address.\<close>

record addr =
  addr_id :: byte
  ip :: string
  port :: "16 word"
  sin_port :: "16 word"

definition htons :: "16 word \<Rightarrow> 16 word" where
  "htons w = word_rotr 8 w"

definition Addr :: "byte \<Rightarrow> string \<Rightarrow> 16 word \<Rightarrow> addr" where
  "Addr i s p = \<lparr>addr_id = i, ip = s, port = p, sin_port = htons p\<rparr>"

definition SetPort :: "16 word \<Rightarrow> addr \<Rightarrow> addr" where
  "SetPort p a = a\<lparr>port := p, sin_port := htons p\<rparr>"

definition addr_ok :: "addr \<Rightarrow> bool" where
  "addr_ok a = (sin_port a = htons (port a))"

lemma addr_ok_ops [simp]: "addr_ok (Addr i s p)" "addr_ok (SetPort p a)"
  by (simp_all add: addr_ok_def Addr_def SetPort_def)

section \<open>Socket objects\<close>

type_synonym 'v sockets = "'v \<Rightarrow> int option"

record 'v kernel =
  objs :: "'v sockets"     \<comment> \<open>\<^verbatim>\<open>socket_\<close> of the live objects\<close>
  fds :: "int list"
  bad_close :: bool

definition IsValid :: "int \<Rightarrow> bool" where
  "IsValid s = (s \<noteq> kInvalidSocket)"

definition os_close :: "int \<Rightarrow> 'v kernel \<Rightarrow> 'v kernel" where
  "os_close s k = k\<lparr>fds := remove1 s (fds k), bad_close := (bad_close k \<or> s \<notin> set (fds k))\<rparr>"

text \<open>
  The two constructors from a descriptor the kernel returned (\<^verbatim>\<open>Socket()\<close> throws on an
  invalid one, \<^verbatim>\<open>Socket(accept(...))\<close> keeps it), the move constructor, the move assignment,
  which swaps, and the destructor.
\<close>

definition os_open :: "int \<Rightarrow> 'v kernel \<Rightarrow> 'v kernel" where
  "os_open s k = (if IsValid s then k\<lparr>fds := s # fds k\<rparr> else k)"

definition Socket_create :: "'v \<Rightarrow> int \<Rightarrow> 'v kernel \<Rightarrow> bool \<times> 'v kernel" where
  "Socket_create v s k =
     (if s = kInvalidSocket then (False, k)
      else (True, (os_open s k)\<lparr>objs := (objs k)(v \<mapsto> s)\<rparr>))"

definition Socket_adopt :: "'v \<Rightarrow> int \<Rightarrow> 'v kernel \<Rightarrow> 'v kernel" where
  "Socket_adopt v s k = (os_open s k)\<lparr>objs := (objs k)(v \<mapsto> s)\<rparr>"

definition Socket_move :: "'v \<Rightarrow> 'v \<Rightarrow> 'v kernel \<Rightarrow> 'v kernel" where
  "Socket_move v other k = (case objs k other of
     None \<Rightarrow> k
   | Some s \<Rightarrow> k\<lparr>objs := (objs k)(v \<mapsto> s, other \<mapsto> kInvalidSocket)\<rparr>)"

definition Socket_assign :: "'v \<Rightarrow> 'v \<Rightarrow> 'v kernel \<Rightarrow> 'v kernel" where
  "Socket_assign v other k =
     (if v = other then k
      else case (objs k v, objs k other) of
        (Some s, Some t) \<Rightarrow> k\<lparr>objs := (objs k)(v \<mapsto> t, other \<mapsto> s)\<rparr>
      | _ \<Rightarrow> k)"

definition Socket_destroy :: "'v \<Rightarrow> 'v kernel \<Rightarrow> 'v kernel" where
  "Socket_destroy v k = (case objs k v of
     None \<Rightarrow> k
   | Some s \<Rightarrow> (if IsValid s then os_close s k else k)\<lparr>objs := (objs k)(v := None)\<rparr>)"

section \<open>Ownership\<close>

text \<open>
  Every open descriptor belongs to exactly one object, and nothing was closed twice.
\<close>

definition owned :: "'v kernel \<Rightarrow> bool" where
  "owned k = (distinct (fds k) \<and> \<not> bad_close k \<and> kInvalidSocket \<notin> set (fds k)
     \<and> (\<forall>s\<in>set (fds k). \<exists>v. objs k v = Some s)
     \<and> (\<forall>v s. objs k v = Some s \<longrightarrow> IsValid s \<longrightarrow> s \<in> set (fds k))
     \<and> (\<forall>v w s. objs k v = Some s \<longrightarrow> objs k w = Some s \<longrightarrow> IsValid s \<longrightarrow> v = w))"

datatype 'v sock_op =
    Create 'v int
  | Adopt 'v int
  | Move 'v 'v
  | Assign 'v 'v
  | Destroy 'v

fun sock_run :: "'v sock_op \<Rightarrow> 'v kernel \<Rightarrow> 'v kernel" where
  "sock_run (Create v s) k = snd (Socket_create v s k)"
| "sock_run (Adopt v s) k = Socket_adopt v s k"
| "sock_run (Move v w) k = Socket_move v w k"
| "sock_run (Assign v w) k = Socket_assign v w k"
| "sock_run (Destroy v) k = Socket_destroy v k"

text \<open>
  What C++ and the kernel guarantee: an object is constructed where none lives, and the
  kernel returns a descriptor that is not open.
\<close>

fun sock_legal :: "'v sock_op \<Rightarrow> 'v kernel \<Rightarrow> bool" where
  "sock_legal (Create v s) k = (objs k v = None \<and> s \<notin> set (fds k))"
| "sock_legal (Adopt v s) k = (objs k v = None \<and> s \<notin> set (fds k))"
| "sock_legal (Move v w) k = (objs k v = None)"
| "sock_legal (Assign v w) k = True"
| "sock_legal (Destroy v) k = True"

lemma ownedI:
  assumes "distinct (fds k)" and "\<not> bad_close k" and "kInvalidSocket \<notin> set (fds k)"
    and "\<And>s. s \<in> set (fds k) \<Longrightarrow> \<exists>v. objs k v = Some s"
    and "\<And>v s. objs k v = Some s \<Longrightarrow> s \<noteq> kInvalidSocket \<Longrightarrow> s \<in> set (fds k)"
    and "\<And>v w s. objs k v = Some s \<Longrightarrow> objs k w = Some s \<Longrightarrow> s \<noteq> kInvalidSocket \<Longrightarrow> v = w"
  shows "owned k"
  using assms unfolding owned_def IsValid_def by blast

lemma ownedD:
  assumes "owned k"
  shows "distinct (fds k)" "\<not> bad_close k" "kInvalidSocket \<notin> set (fds k)"
    "s \<in> set (fds k) \<Longrightarrow> \<exists>v. objs k v = Some s"
    "objs k v = Some s \<Longrightarrow> s \<noteq> kInvalidSocket \<Longrightarrow> s \<in> set (fds k)"
    "objs k v = Some s \<Longrightarrow> objs k w = Some s \<Longrightarrow> s \<noteq> kInvalidSocket \<Longrightarrow> v = w"
  using assms by (auto simp: owned_def IsValid_def)

lemma owned_adopt:
  assumes "owned k" and "objs k v = None" and "s \<notin> set (fds k)"
  shows "owned (Socket_adopt v s k)"
proof -
  note o = ownedD [OF assms(1)]
  have fresh: "\<And>w. objs k w = Some s \<Longrightarrow> s = kInvalidSocket"
    using o(5) assms(3) by blast
  have keep: "\<exists>u. ((objs k)(v \<mapsto> s)) u = Some t" if t: "t \<in> set (fds k)" for t
  proof -
    obtain u where "objs k u = Some t"
      using o(4) [OF t] by blast
    then show ?thesis
      using assms(2) by (intro exI [of _ u]) auto
  qed
  have new: "\<exists>u. ((objs k)(v \<mapsto> s)) u = Some s"
    by (intro exI [of _ v]) simp
  show ?thesis
  proof (rule ownedI)
    fix t
    assume "t \<in> set (fds (Socket_adopt v s k))"
    then show "\<exists>u. objs (Socket_adopt v s k) u = Some t"
      using keep new by (auto simp: Socket_adopt_def os_open_def simp del: fun_upd_apply split: if_splits)
  qed (use o assms(2,3) fresh in \<open>auto simp: Socket_adopt_def os_open_def IsValid_def split: if_splits\<close>)
qed

lemma owned_move:
  assumes "owned k" and "objs k v = None"
  shows "owned (Socket_move v w k)"
proof (cases "objs k w")
  case (Some s)
  note o = ownedD [OF assms(1)]
  have keep: "\<exists>u. ((objs k)(v \<mapsto> s, w \<mapsto> kInvalidSocket)) u = Some t" if t: "t \<in> set (fds k)" for t
  proof -
    obtain u where u: "objs k u = Some t"
      using o(4) [OF t] by blast
    from u show ?thesis
    proof (cases "u = w")
      case True
      then show ?thesis
        using u Some assms(2) by (intro exI [of _ v]) auto
    next
      case False
      then show ?thesis
        using u assms(2) by (intro exI [of _ u]) auto
    qed
  qed
  have neq: "v \<noteq> w"
    using Some assms(2) by auto
  have "owned (k\<lparr>objs := (objs k)(v \<mapsto> s, w \<mapsto> kInvalidSocket)\<rparr>)"
  proof (rule ownedI)
    fix a b t
    assume "objs (k\<lparr>objs := (objs k)(v \<mapsto> s, w \<mapsto> kInvalidSocket)\<rparr>) a = Some t"
      "objs (k\<lparr>objs := (objs k)(v \<mapsto> s, w \<mapsto> kInvalidSocket)\<rparr>) b = Some t" "t \<noteq> kInvalidSocket"
    then show "a = b"
      using o(6) Some neq by (auto split: if_splits)
  qed (use o Some keep in \<open>auto split: if_splits\<close>)
  then show ?thesis
    using Some by (simp add: Socket_move_def)
qed (use assms in \<open>simp add: Socket_move_def\<close>)

lemma owned_assign:
  assumes "owned k"
  shows "owned (Socket_assign v w k)"
proof (cases "v \<noteq> w \<and> objs k v \<noteq> None \<and> objs k w \<noteq> None")
  case True
  then obtain s t where st: "objs k v = Some s" "objs k w = Some t" "v \<noteq> w"
    by auto
  note o = ownedD [OF assms]
  let ?o = "(objs k)(v \<mapsto> t, w \<mapsto> s)"
  have swap: "?o u = objs k (if u = v then w else if u = w then v else u)" for u
    using st by auto
  have "owned (k\<lparr>objs := ?o\<rparr>)"
  proof (rule ownedI)
    fix a b r
    assume "objs (k\<lparr>objs := ?o\<rparr>) a = Some r" "objs (k\<lparr>objs := ?o\<rparr>) b = Some r" "r \<noteq> kInvalidSocket"
    then show "a = b"
      using o(6) by (auto simp: swap simp del: fun_upd_apply split: if_splits)
  next
    fix r
    assume "r \<in> set (fds (k\<lparr>objs := ?o\<rparr>))"
    then obtain u where "objs k u = Some r"
      using o(4) by auto
    then show "\<exists>u. objs (k\<lparr>objs := ?o\<rparr>) u = Some r"
      using st(3) by (intro exI [of _ "if u = v then w else if u = w then v else u"])
        (auto simp: swap simp del: fun_upd_apply)
  next
    fix u r
    assume "objs (k\<lparr>objs := ?o\<rparr>) u = Some r" "r \<noteq> kInvalidSocket"
    then show "r \<in> set (fds (k\<lparr>objs := ?o\<rparr>))"
      using o(5) by (simp add: swap del: fun_upd_apply)
  qed (use o in simp_all)
  then show ?thesis
    using st by (simp add: Socket_assign_def)
next
  case False
  then show ?thesis
    using assms by (auto simp: Socket_assign_def split: option.splits)
qed

lemma owned_forget:
  assumes "owned k" and "objs k v = Some kInvalidSocket"
  shows "owned (k\<lparr>objs := (objs k)(v := None)\<rparr>)"
proof (rule ownedI)
  note o = ownedD [OF assms(1)]
  fix r
  assume r: "r \<in> set (fds (k\<lparr>objs := (objs k)(v := None)\<rparr>))"
  then obtain u where u: "objs k u = Some r"
    using o(4) by auto
  have "r \<noteq> kInvalidSocket"
    using r o(3) by auto
  then have "u \<noteq> v"
    using u assms(2) by auto
  then show "\<exists>u. objs (k\<lparr>objs := (objs k)(v := None)\<rparr>) u = Some r"
    using u by auto
qed (use ownedD [OF assms(1)] in \<open>auto split: if_splits\<close>)

lemma owned_close:
  assumes "owned k" and "objs k v = Some s" and "s \<noteq> kInvalidSocket"
  shows "owned (k\<lparr>fds := remove1 s (fds k), objs := (objs k)(v := None)\<rparr>)" (is "owned ?k")
proof (rule ownedI)
  note o = ownedD [OF assms(1)]
  fix r
  assume "r \<in> set (fds ?k)"
  then have r: "r \<in> set (fds k)" "r \<noteq> s"
    using o(1) by auto
  then obtain u where "objs k u = Some r"
    using o(4) by auto
  then show "\<exists>u. objs ?k u = Some r"
    using r(2) assms(2) by (intro exI [of _ u]) auto
next
  fix u r
  assume "objs ?k u = Some r" "r \<noteq> kInvalidSocket"
  then show "r \<in> set (fds ?k)"
    using ownedD(1,5,6) [OF assms(1)] assms(2,3) by (auto split: if_splits)
next
  show "kInvalidSocket \<notin> set (fds ?k)"
    using ownedD(3) [OF assms(1)] notin_set_remove1 by fastforce
qed (use ownedD [OF assms(1)] in \<open>auto split: if_splits\<close>)

lemma owned_destroy:
  assumes "owned k"
  shows "owned (Socket_destroy v k)"
proof (cases "objs k v")
  case (Some s)
  show ?thesis
  proof (cases "s = kInvalidSocket")
    case True
    then show ?thesis
      using owned_forget [OF assms] Some by (simp add: Socket_destroy_def IsValid_def)
  next
    case False
    note o = ownedD [OF assms]
    have "s \<in> set (fds k)"
      using o(5) Some False by blast
    then have "Socket_destroy v k = k\<lparr>fds := remove1 s (fds k), bad_close := False, objs := (objs k)(v := None)\<rparr>"
      using Some False o(2) by (simp add: Socket_destroy_def IsValid_def os_close_def)
    also have "\<dots> = k\<lparr>fds := remove1 s (fds k), objs := (objs k)(v := None)\<rparr>"
      using o(2) by (cases k) simp
    finally show ?thesis
      using owned_close [OF assms Some False] by simp
  qed
qed (use assms in \<open>simp add: Socket_destroy_def\<close>)

lemma owned_run: "owned k \<Longrightarrow> sock_legal op k \<Longrightarrow> owned (sock_run op k)"
  using owned_adopt [of k] by (cases op)
    (auto simp: Socket_create_def Socket_adopt_def owned_move owned_assign owned_destroy)

text \<open>A legal history from an empty process.\<close>

inductive sock_reach :: "'v kernel \<Rightarrow> bool" where
  none: "sock_reach \<lparr>objs = (\<lambda>_. None), fds = [], bad_close = False\<rparr>"
| op: "sock_reach k \<Longrightarrow> sock_legal a k \<Longrightarrow> sock_reach (sock_run a k)"

lemma reach_owned: "sock_reach k \<Longrightarrow> owned k"
  by (induction rule: sock_reach.induct) (auto intro: owned_run ownedI)

section \<open>Keep-alive and liveness\<close>

datatype KeepAliveError = kIdleTime | kMaxProbes | kTimeBetween | kEnable

text \<open>
  \<^verbatim>\<open>SetKeepalive\<close> with the results of its \<^verbatim>\<open>setsockopt\<close> calls (an error code or
  none): which options were set, and the error, if any.
\<close>

definition keepalive_steps :: "(KeepAliveError \<times> int) list" where
  "keepalive_steps = [(kIdleTime, 5), (kMaxProbes, 5), (kTimeBetween, 1), (kEnable, 1)]"

fun set_options :: "(KeepAliveError \<Rightarrow> int \<Rightarrow> int option) \<Rightarrow> (KeepAliveError \<times> int) list
    \<Rightarrow> (KeepAliveError \<times> int) option \<times> (KeepAliveError \<times> int) list" where
  "set_options so [] = (None, [])"
| "set_options so ((opt, v) # r) = (case so opt v of
     Some e \<Rightarrow> (Some (opt, e), [])
   | None \<Rightarrow> (let (e, ok) = set_options so r in (e, (opt, v) # ok)))"

definition SetKeepalive :: "(KeepAliveError \<Rightarrow> int \<Rightarrow> int option)
    \<Rightarrow> (KeepAliveError \<times> int) option \<times> (KeepAliveError \<times> int) list" where
  "SetKeepalive so = set_options so keepalive_steps"

text \<open>\<^verbatim>\<open>HasConnection\<close> from what a peek that does not block returns.\<close>

definition HasConnection :: "int + nat \<Rightarrow> bool" where
  "HasConnection r = (case r of Inl e \<Rightarrow> e = EAGAIN | Inr n \<Rightarrow> 0 < n)"

section \<open>The ring's connections\<close>

datatype ring_sock = AcceptSocket | PrevSocket | NextSocket | NewPrev

text \<open>
  The constructor, from the descriptor of \<^verbatim>\<open>accept_socket_\<close> and the results of its
  \<^verbatim>\<open>bind\<close>, \<^verbatim>\<open>listen\<close> and \<^verbatim>\<open>setsockopt\<close>; an exception destroys the members.
\<close>

datatype ring_exn = SocketCreation | Binding | Listening | SetTimeoutException

definition Ring :: "int \<Rightarrow> bool \<Rightarrow> bool \<Rightarrow> bool \<Rightarrow> ring_sock kernel \<Rightarrow> (ring_exn + unit) \<times> ring_sock kernel" where
  "Ring s bound listening timeout k =
     (case Socket_create AcceptSocket s k of
        (False, k1) \<Rightarrow> (Inl SocketCreation, k1)
      | (True, k1) \<Rightarrow>
          (let k2 = Socket_adopt NextSocket kInvalidSocket (Socket_adopt PrevSocket kInvalidSocket k1);
               undo = Socket_destroy AcceptSocket (Socket_destroy PrevSocket (Socket_destroy NextSocket k2))
           in if \<not> bound then (Inl Binding, undo)
              else if \<not> listening then (Inl Listening, undo)
              else if \<not> timeout then (Inl SetTimeoutException, undo)
              else (Inr (), k2)))"

text \<open>\<^verbatim>\<open>AcceptPrev\<close>, from the results of its \<^verbatim>\<open>accept\<close> and \<^verbatim>\<open>setsockopt\<close>.\<close>

definition AcceptPrev :: "int \<Rightarrow> bool \<Rightarrow> ring_sock kernel \<Rightarrow> (ring_exn + bool) \<times> ring_sock kernel" where
  "AcceptPrev s timeout k =
     (let k1 = Socket_adopt NewPrev s k
      in if s = kInvalidSocket then (Inr False, Socket_destroy NewPrev k1)
         else let k2 = Socket_destroy NewPrev (Socket_assign PrevSocket NewPrev k1)
              in if timeout then (Inr True, k2) else (Inl SetTimeoutException, k2))"

text \<open>\<^verbatim>\<open>CreateNext\<close> of \<^verbatim>\<open>server/Server.cpp\<close>: a new socket for the next server.\<close>

definition CreateNext :: "int \<Rightarrow> ring_sock kernel \<Rightarrow> bool \<times> ring_sock kernel" where
  "CreateNext s k =
     (case Socket_create NewPrev s k of
        (False, k1) \<Rightarrow> (False, k1)
      | (True, k1) \<Rightarrow> (True, Socket_destroy NewPrev (Socket_assign NextSocket NewPrev k1)))"

section \<open>Properties\<close>

text \<open>
  C25. Socket objects own their descriptors: whatever sequence of constructions, moves,
  assignments and destructions a process performs, no descriptor is closed twice or while
  it is not open, every open descriptor belongs to exactly one object, and once all objects
  are destroyed none is open.
\<close>

theorem sockets_own_descriptors:
  assumes "sock_reach k"
  shows "\<not> bad_close k \<and> distinct (fds k) \<and> (\<forall>s\<in>set (fds k). \<exists>!v. objs k v = Some s)
    \<and> ((\<forall>v. objs k v = None) \<longrightarrow> fds k = [])"
proof -
  note o = ownedD [OF reach_owned [OF assms]]
  have "\<exists>!v. objs k v = Some s" if "s \<in> set (fds k)" for s
    using o(3,4,6) that by metis
  moreover have "fds k = []" if "\<forall>v. objs k v = None"
    using o(4) that by (cases "fds k") auto
  ultimately show ?thesis
    using o(1,2) by blast
qed

definition sample_history :: "nat sock_op list" where
  "sample_history = [Create 0 3, Adopt 1 4, Move 2 0, Assign 1 2, Destroy 0, Destroy 1]"

lemma sample_history_reach:
  "sock_reach (fold sock_run sample_history \<lparr>objs = (\<lambda>_. None), fds = [], bad_close = False\<rparr>)"
  unfolding sample_history_def fold.simps comp_def id_def
  by (intro sock_reach.intros)
    (simp_all add: Socket_create_def Socket_adopt_def Socket_move_def Socket_assign_def
      Socket_destroy_def os_open_def os_close_def IsValid_def kInvalidSocket_def)

theorem sockets_own_descriptors_witness:
  "\<not> bad_close (fold sock_run sample_history \<lparr>objs = (\<lambda>_. None), fds = [], bad_close = False\<rparr>)"
  using sockets_own_descriptors [OF sample_history_reach] by blast

text \<open>
  Accepting a new previous server replaces the old connection and closes it: afterwards
  the ring holds the accepted descriptor, the old one is no longer open, and all others are
  as before.
\<close>

theorem AcceptPrev_replaces:
  assumes "owned k" and "objs k PrevSocket = Some old" and "objs k NewPrev = None"
    and "s \<notin> set (fds k)" and "s \<noteq> kInvalidSocket"
  shows "owned (snd (AcceptPrev s timeout k)) \<and> objs (snd (AcceptPrev s timeout k)) PrevSocket = Some s
    \<and> set (fds (snd (AcceptPrev s timeout k))) = insert s (set (fds k)) - {old}"
proof -
  have run: "snd (AcceptPrev s timeout k)
      = sock_run (Destroy NewPrev) (sock_run (Assign PrevSocket NewPrev) (sock_run (Adopt NewPrev s) k))"
    using assms(5) by (simp add: AcceptPrev_def Let_def)
  have "owned (snd (AcceptPrev s timeout k))"
    unfolding run using assms(1,3,4) by (intro owned_run) simp_all
  moreover have "old \<noteq> s" if "old \<noteq> kInvalidSocket"
    using ownedD(5) [OF assms(1,2) that] assms(4) by auto
  moreover have "old \<notin> set (fds k)" if "old = kInvalidSocket"
    using ownedD(3) [OF assms(1)] that by simp
  moreover have "objs (snd (AcceptPrev s timeout k)) PrevSocket = Some s"
    using assms by (simp add: run Socket_adopt_def Socket_assign_def Socket_destroy_def os_open_def
        IsValid_def os_close_def)
  moreover have "fds (snd (AcceptPrev s timeout k))
      = (if IsValid old then remove1 old (s # fds k) else s # fds k)"
    using assms by (simp add: run Socket_adopt_def Socket_assign_def Socket_destroy_def os_open_def
        IsValid_def os_close_def)
  moreover have "distinct (s # fds k)"
    using ownedD(1) [OF assms(1)] assms(4) by simp
  ultimately show ?thesis
    using assms(4,5) by (auto simp: IsValid_def)
qed

theorem AcceptPrev_replaces_witness:
  "set (fds (snd (AcceptPrev 9 True
      \<lparr>objs = [PrevSocket \<mapsto> 7], fds = [7], bad_close = False\<rparr>))) = {9}"
proof -
  define k :: "ring_sock kernel" where "k = \<lparr>objs = [PrevSocket \<mapsto> 7], fds = [7], bad_close = False\<rparr>"
  have k: "objs k PrevSocket = Some 7" "objs k NewPrev = None" "fds k = [7]" "\<not> bad_close k"
    "\<And>v s. objs k v = Some s \<longleftrightarrow> v = PrevSocket \<and> s = 7"
    by (auto simp: k_def split: if_splits)
  have "owned k"
    by (rule ownedI) (simp_all add: k kInvalidSocket_def)
  then have "set (fds (snd (AcceptPrev 9 True k))) = insert 9 {7} - {7}"
    using AcceptPrev_replaces [of k 7 9 True] k by (simp add: kInvalidSocket_def)
  also have "insert 9 {7} - {7::int} = {9}"
    by auto
  finally show ?thesis
    unfolding k_def .
qed

end
