(* ===== verification/Layout.thy ===== *)
theory Layout
  imports Prelude FileSystem Exchange
begin

text \<open>
  The abstract view of a service's files that the primary, its backups and its clients
  share: for each user the map from file names to contents that the directory
  \<^verbatim>\<open>sync_dir_<user>\<close> holds, and the two operations that change it, with the messages
  that carry them.
\<close>

section \<open>The directories of the users\<close>

definition user_path :: "string \<Rightarrow> string \<Rightarrow> string" where
  "user_path u f = path_append (SyncDirWithPrefix u) f"

definition user_name :: "string \<Rightarrow> bool" where
  "user_name u = (CHR ''/'' \<notin> set u \<and> CHR 0x00 \<notin> set u)"

definition dir_of :: "fsys \<Rightarrow> string \<Rightarrow> fpath" where
  "dir_of fs u = cwd fs @ [SyncDirWithPrefix u]"

definition contents :: "fsys \<Rightarrow> string \<Rightarrow> string \<Rightarrow> byte list option" where
  "contents fs u f = (case node_at fs (dir_of fs u @ [f]) of Some (File bs) \<Rightarrow> Some bs | _ \<Rightarrow> None)"

text \<open>
  What the program keeps of the working directory: the users' directories are directories,
  and hold no directories.
\<close>

definition layout :: "fsys \<Rightarrow> bool" where
  "layout fs = (fs_tree fs \<and> node_at fs (cwd fs) = Some Directory
     \<and> (\<forall>u. user_name u \<longrightarrow> (\<forall>bs. node_at fs (dir_of fs u) \<noteq> Some (File bs))
         \<and> (\<forall>f. simple_name f \<longrightarrow> node_at fs (dir_of fs u @ [f]) \<noteq> Some Directory)))"

definition has_dir :: "fsys \<Rightarrow> string \<Rightarrow> bool" where
  "has_dir fs u = (node_at fs (dir_of fs u) = Some Directory)"

lemma user_path_eq:
  "user_name u \<Longrightarrow> simple_name f \<Longrightarrow> user_path u f = SyncDirWithPrefix u @ CHR ''/'' # f"
  by (simp add: user_path_def path_append_dir simple_sync_dir user_name_def)

lemma SyncDir_inject [simp]: "SyncDirWithPrefix u = SyncDirWithPrefix v \<longleftrightarrow> u = v"
  by (simp add: SyncDirWithPrefix_def)

lemma dir_of_inject [simp]:
  "dir_of fs u = dir_of fs v \<longleftrightarrow> u = v"
  "dir_of fs u @ [f] = dir_of fs v @ [g] \<longleftrightarrow> u = v \<and> f = g"
  "dir_of fs u @ [f] \<noteq> dir_of fs v" "dir_of fs v \<noteq> dir_of fs u @ [f]"
  "cwd fs \<noteq> dir_of fs u" "dir_of fs u \<noteq> cwd fs" "cwd fs \<noteq> dir_of fs u @ [f]" "dir_of fs u @ [f] \<noteq> cwd fs"
  "dir_of fs u \<noteq> []"
  by (auto simp: dir_of_def)

lemma dir_of_cwd: "cwd fs' = cwd fs \<Longrightarrow> dir_of fs' = dir_of fs"
  by (simp add: dir_of_def fun_eq_iff)

lemma layoutD:
  assumes "layout fs"
  shows "fs_tree fs" "node_at fs (cwd fs) = Some Directory"
    "user_name u \<Longrightarrow> node_at fs (dir_of fs u) \<noteq> Some (File bs)"
    "user_name u \<Longrightarrow> simple_name f \<Longrightarrow> node_at fs (dir_of fs u @ [f]) \<noteq> Some Directory"
  using assms unfolding layout_def by blast+

text \<open>Only the nodes of the users' directories and files matter.\<close>

lemma layoutI:
  assumes "fs_tree fs" and "node_at fs (cwd fs) = Some Directory"
    and "\<And>u bs. user_name u \<Longrightarrow> node_at fs (dir_of fs u) \<noteq> Some (File bs)"
    and "\<And>u f. user_name u \<Longrightarrow> simple_name f \<Longrightarrow> node_at fs (dir_of fs u @ [f]) \<noteq> Some Directory"
  shows "layout fs"
  using assms unfolding layout_def by blast

lemma resolve_user_dir:
  "layout fs \<Longrightarrow> user_name u \<Longrightarrow> resolve fs (SyncDirWithPrefix u) = Inr (dir_of fs u)"
  by (simp add: layout_def dir_of_def resolve_name simple_sync_dir user_name_def)

lemma resolve_user_path:
  assumes "layout fs" and "has_dir fs u" and "user_name u" and "simple_name f"
  shows "resolve fs (user_path u f) = Inr (dir_of fs u @ [f])"
  using assms resolve_in_dir [of "SyncDirWithPrefix u" f fs]
  by (simp add: user_path_eq layout_def has_dir_def dir_of_def simple_sync_dir user_name_def)

lemma status_user_path:
  assumes "layout fs" and "has_dir fs u" and "user_name u" and "simple_name f"
  shows "status fs (user_path u f) = map_option File (contents fs u f)"
  using status_node [OF resolve_user_path [OF assms]] layoutD(4) [OF assms(1,3,4)]
  by (auto simp: contents_def split: option.splits node.splits)

lemma contents_no_dir:
  assumes "layout fs" and "\<not> has_dir fs u"
  shows "contents fs u f = None"
  using fs_tree_parent [OF layoutD(1) [OF assms(1)], of "dir_of fs u @ [f]"] assms(2)
  by (auto simp: contents_def has_dir_def split: option.splits)

lemma contents_dir: "layout fs \<Longrightarrow> contents fs u f \<noteq> None \<Longrightarrow> has_dir fs u"
  by (rule ccontr) (simp add: contents_no_dir)

section \<open>Changing them\<close>

text \<open>\<open>changed fs fs' u f c\<close>: the files of \<open>fs'\<close> are those of \<open>fs\<close> with \<open>f\<close> of \<open>u\<close> set to \<open>c\<close>.\<close>

definition same_files :: "fsys \<Rightarrow> fsys \<Rightarrow> bool" where
  "same_files fs fs' = (layout fs' \<and> cwd fs' = cwd fs \<and> contents fs' = contents fs
     \<and> (\<forall>u. has_dir fs u \<longrightarrow> has_dir fs' u))"

lemma same_files_refl: "layout fs \<Longrightarrow> same_files fs fs"
  by (simp add: same_files_def)

lemma create_user_dir:
  assumes "layout fs" and "user_name u"
  obtains b fs' where "create_directory fs (SyncDirWithPrefix u) = Inr (b, fs')"
    and "same_files fs fs'" and "has_dir fs' u"
proof (cases "has_dir fs u")
  case True
  then show thesis
    using that [of False fs] assms resolve_user_dir [OF assms] same_files_refl
    by (simp add: create_directory_def has_dir_def node_at_def)
next
  case False
  let ?fs = "set_node (dir_of fs u) Directory fs"
  have none: "node_at fs (dir_of fs u) = None"
    using False layoutD(3) [OF assms] by (cases "node_at fs (dir_of fs u)"; cases "the (node_at fs (dir_of fs u))")
      (auto simp: has_dir_def)
  have dirs: "dir_of ?fs = dir_of fs"
    by (rule dir_of_cwd) simp
  have "fs_tree ?fs"
    using layoutD(1,2) [OF assms(1)] none by (intro fs_tree_set) (simp_all add: dir_of_def butlast_append)
  then have "layout ?fs"
    by (rule layoutI) (use layoutD [OF assms(1)] in \<open>simp_all add: dirs\<close>)
  moreover have "contents ?fs = contents fs"
    by (simp add: contents_def fun_eq_iff dirs)
  ultimately show thesis
    using that [of True ?fs] resolve_user_dir [OF assms] none
    by (auto simp: create_directory_def same_files_def has_dir_def dirs simp flip: node_at_def)
qed

lemma put_user_file:
  assumes "layout fs" and "has_dir fs u" and "user_name u" and "simple_name f"
    and "node_at fs' = (node_at fs)(dir_of fs u @ [f] \<mapsto> File bs)" and "cwd fs' = cwd fs"
  shows "layout fs'" and "has_dir fs' v \<longleftrightarrow> has_dir fs v"
    and "contents fs' = (contents fs)(u := (contents fs u)(f \<mapsto> bs))"
proof -
  note dirs = dir_of_cwd [OF assms(6)]
  have "fs_tree (set_node (dir_of fs u @ [f]) (File bs) fs)"
    using layoutD [OF assms(1)] assms(2,3,4) by (intro fs_tree_set) (auto simp: has_dir_def)
  then have "fs_tree fs'"
    using assms(5) by (simp add: fs_tree_def)
  then show "layout fs'"
    by (rule layoutI) (use layoutD [OF assms(1)] assms(5,6) in \<open>simp_all add: dirs\<close>)
  show "contents fs' = (contents fs)(u := (contents fs u)(f \<mapsto> bs))"
    using assms(5) by (auto simp: contents_def fun_eq_iff dirs)
  show "has_dir fs' v \<longleftrightarrow> has_dir fs v"
    using assms(5) by (simp add: has_dir_def dirs)
qed

lemma fs_tree_del_file:
  assumes "fs_tree fs" and "node_at fs q = Some (File bs)"
  shows "fs_tree (del_node q fs)"
proof -
  have "butlast r \<noteq> q" if "node_at fs r = Some n" "r \<noteq> []" for r n
    using fs_tree_parent [OF assms(1) that(1)] assms(2) by auto
  moreover have "q \<noteq> []"
    using fs_tree_root [OF assms(1)] assms(2) by auto
  ultimately show ?thesis
    using assms unfolding fs_tree_def by (auto split: if_splits)
qed

lemma remove_user_file:
  assumes "layout fs" and "has_dir fs u" and "user_name u" and "simple_name f"
    and "contents fs u f = Some bs"
  obtains fs' where "fs_remove fs (user_path u f) = Inr (True, fs')" and "layout fs'"
    and "cwd fs' = cwd fs" and "\<And>v. has_dir fs' v \<longleftrightarrow> has_dir fs v"
    and "contents fs' = (contents fs)(u := (contents fs u)(f := None))"
proof -
  let ?q = "dir_of fs u @ [f]" and ?fs = "del_node (dir_of fs u @ [f]) fs"
  have node: "node_at fs ?q = Some (File bs)"
    using assms(5) by (auto simp: contents_def split: option.splits node.splits)
  have dirs: "dir_of ?fs = dir_of fs"
    by (rule dir_of_cwd) simp
  have "layout ?fs"
    by (rule layoutI [OF fs_tree_del_file [OF layoutD(1) [OF assms(1)] node]])
      (use layoutD [OF assms(1)] in \<open>simp_all add: dirs\<close>)
  moreover have "contents ?fs = (contents fs)(u := (contents fs u)(f := None))"
    by (auto simp: contents_def fun_eq_iff dirs)
  moreover have "has_dir ?fs v \<longleftrightarrow> has_dir fs v" for v
    by (simp add: has_dir_def dirs)
  moreover have "fs_remove fs (user_path u f) = Inr (True, ?fs)"
    using resolve_user_path [OF assms(1-4)] node by (simp add: fs_remove_def flip: node_at_def)
  ultimately show thesis
    using that [of ?fs] by simp
qed

section \<open>Operations and their messages\<close>

datatype op = Put string string "byte list" | Del string string

fun apply_op :: "op \<Rightarrow> (string \<Rightarrow> string \<Rightarrow> byte list option) \<Rightarrow> string \<Rightarrow> string \<Rightarrow> byte list option" where
  "apply_op (Put u f bs) m = m(u := (m u)(f \<mapsto> bs))"
| "apply_op (Del u f) m = m(u := (m u)(f := None))"

fun op_msg :: "codec \<Rightarrow> op \<Rightarrow> byte list" where
  "op_msg C (Put u f bs) = upload_msg C (user_path u f) bs"
| "op_msg C (Del u f) = path_msg C kDelete (user_path u f)"

fun op_ok :: "op \<Rightarrow> bool" where
  "op_ok (Put u f bs) = (user_name u \<and> simple_name f \<and> str_ok (user_path u f) \<and> size_ok bs)"
| "op_ok (Del u f) = (user_name u \<and> simple_name f \<and> str_ok (user_path u f))"

definition op_msgs :: "codec \<Rightarrow> op list \<Rightarrow> byte list" where
  "op_msgs C ops = concat (map (op_msg C) ops)"

lemma op_msgs_simps [simp]:
  "op_msgs C [] = []" "op_msgs C (a # ops) = op_msg C a @ op_msgs C ops"
  "op_msgs C (as @ ops) = op_msgs C as @ op_msgs C ops"
  by (simp_all add: op_msgs_def)

lemma fold_snoc: "fold f (xs @ [x]) s = f x (fold f xs s)"
  by simp

lemma writable_user:
  assumes "layout fs" and "has_dir fs u" and "user_name u" and "simple_name f"
  shows "writable fs (user_path u f) (dir_of fs u @ [f])"
  using resolve_user_path [OF assms] layoutD(1) [OF assms(1)] layoutD(4) [OF assms(1,3,4)]
  by (simp add: writable_def)

text \<open>Receiving a file into a user's directory.\<close>

lemma Receive_user_file:
  assumes "codec_ok C" and "layout fs" and "has_dir fs u" and "user_name u" and "simple_name f"
    and "xpath x = user_path u f" and "size_ok bs" and "sound (strm x)"
    and "incoming (strm x) = file_msg C bs @ rest"
  obtains s' fs' where "Receive C fs x = Some (True, x\<lparr>strm := s'\<rparr>, fs')" and "took rest (strm x) s'"
    and "layout fs'" and "cwd fs' = cwd fs" and "\<And>v. has_dir fs' v \<longleftrightarrow> has_dir fs v"
    and "contents fs' = (contents fs)(u := (contents fs u)(f \<mapsto> bs))"
proof -
  have "writable fs (xpath x) (dir_of fs u @ [f])"
    using writable_user [OF assms(2-5)] assms(6) by simp
  then obtain s' fs' where r: "Receive C fs x = Some (True, x\<lparr>strm := s'\<rparr>, fs')"
    "took rest (strm x) s'" "node_at fs' = (node_at fs)(dir_of fs u @ [f] \<mapsto> File bs)" "cwd fs' = cwd fs"
    by (rule Receive_ok [OF assms(1) _ assms(7-9)]) (rule that; assumption)
  then show thesis
    using that put_user_file [OF assms(2-5) r(3,4)] by blast
qed

section \<open>Operations on different files\<close>

text \<open>The file an operation is about.\<close>

fun op_file :: "op \<Rightarrow> string \<times> string" where
  "op_file (Put u f _) = (u, f)"
| "op_file (Del u f) = (u, f)"

lemma fold_untouched:
  "list_all (\<lambda>a. op_file a \<noteq> (u, f)) ops \<Longrightarrow> fold apply_op ops m u f = m u f"
proof (induction ops arbitrary: m)
  case (Cons a ops)
  have "apply_op a m u f = m u f"
    using Cons.prems by (cases a) auto
  then show ?case
    using Cons by simp
qed simp

end
