(* ===== verification/Replica.thy ===== *)
theory Replica
  imports Prelude Commands Sockets FileSystem Exchange Layout
begin

text \<open>
  A backup replica, and the primary's side of its connection:
  \<^verbatim>\<open>server/replica/Backup.hpp\<close>, \<^verbatim>\<open>Backup.cpp\<close>, \<^verbatim>\<open>BackupHandler.hpp\<close> and
  \<^verbatim>\<open>BackupHandler.cpp\<close>.
\<close>

section \<open>The primary's side\<close>

text \<open>
  A handler is a \<^verbatim>\<open>Sender\<close> and a mutex that each operation holds from beginning to end.
  An operation that finds it locked waits for ever in the sequential reading: \<open>None\<close>.
\<close>

record backup_handler =
  sender :: fexch
  bh_locked :: bool

definition BackupHandler :: "endpoint \<Rightarrow> backup_handler" where
  "BackupHandler e = \<lparr>sender = Base e, bh_locked = False\<rparr>"

definition with_sender :: "(fexch \<Rightarrow> (bool \<times> fexch) option) \<Rightarrow> backup_handler \<Rightarrow> (bool \<times> backup_handler) option" where
  "with_sender f b =
     (if bh_locked b then None
      else case f (sender b) of
        None \<Rightarrow> None
      | Some (ok, x) \<Rightarrow> Some (ok, b\<lparr>sender := x\<rparr>))"

definition BackupHandler_Upload :: "codec \<Rightarrow> fsys \<Rightarrow> string \<Rightarrow> backup_handler \<Rightarrow> (bool \<times> backup_handler) option" where
  "BackupHandler_Upload C fs p = with_sender (Sender_Upload C fs p)"

definition BackupHandler_Delete :: "codec \<Rightarrow> string \<Rightarrow> backup_handler \<Rightarrow> (bool \<times> backup_handler) option" where
  "BackupHandler_Delete C p = with_sender (Sender_Delete C p)"

section \<open>The backup\<close>

datatype MainLoopReply = kLostConnectionToPrimary | kShutdown

record backup =
  primary_addr :: addr
  connected :: bool      \<comment> \<open>whether \<^verbatim>\<open>exchange_.socket_\<close> has been connected\<close>
  exchange_s :: fexch

definition SetPrimaryAddr :: "addr \<Rightarrow> backup \<Rightarrow> backup" where
  "SetPrimaryAddr a b = b\<lparr>primary_addr := a\<rparr>"

text \<open>
  \<^verbatim>\<open>connect\<close> on a socket that has been connected fails with \<^verbatim>\<open>EISCONN\<close>; otherwise
  \<open>net\<close> says what the network answers for an address.
\<close>

definition ConnectToPrimary :: "(addr \<Rightarrow> endpoint option) \<Rightarrow> backup \<Rightarrow> bool \<times> backup" where
  "ConnectToPrimary net b =
     (if connected b then (False, b)
      else case net (primary_addr b) of
        None \<Rightarrow> (False, b)
      | Some e \<Rightarrow> (True, b\<lparr>connected := True,
          exchange_s := SetStream (SetSocket e (strm (exchange_s b))) (exchange_s b)\<rparr>))"

text \<open>
  The constructor tries once a second until it is connected: \<open>net i\<close> is the network at the
  \<open>i\<close>-th attempt. \<open>Inl\<close> is the thrown \<^verbatim>\<open>KeepAliveException\<close>.
\<close>

partial_function (option) connect_loop :: "(nat \<Rightarrow> addr \<Rightarrow> endpoint option) \<Rightarrow> nat \<Rightarrow> backup \<Rightarrow> backup option" where
  "connect_loop net i b =
     (if fst (ConnectToPrimary (net i) b) then Some (snd (ConnectToPrimary (net i) b))
      else connect_loop net (i + 1) (snd (ConnectToPrimary (net i) b)))"

declare connect_loop.simps [code]

definition Backup :: "(nat \<Rightarrow> addr \<Rightarrow> endpoint option) \<Rightarrow> (KeepAliveError \<Rightarrow> int \<Rightarrow> int option) \<Rightarrow> addr
    \<Rightarrow> ((KeepAliveError \<times> int) + backup) option" where
  "Backup net so a =
     (case connect_loop net 0 \<lparr>primary_addr = a, connected = False,
          exchange_s = Base \<lparr>rx = [], wr = [], tx = []\<rparr>\<rparr> of
        None \<Rightarrow> None
      | Some b \<Rightarrow> (case fst (SetKeepalive so) of
          Some e \<Rightarrow> Some (Inl e)
        | None \<Rightarrow> Some (Inr b)))"

text \<open>
  One command of \<^verbatim>\<open>MainLoop\<close>: failures of \<^verbatim>\<open>ReceivePath\<close> and \<^verbatim>\<open>Receive\<close> are ignored,
  an exception of the file system leaves the loop.
\<close>

definition first_component :: "string \<Rightarrow> string" where
  "first_component p = fst (getline (istringstream p) [] (CHR ''/''))"

definition Backup_command :: "codec \<Rightarrow> wire \<Rightarrow> fexch \<Rightarrow> fsys \<Rightarrow> ((int + unit) \<times> fexch \<times> fsys) option" where
  "Backup_command C w x fs = (case w of
     Cmd kUpload \<Rightarrow>
       (let x1 = snd (ReceivePath C x)
        in case create_directory fs (first_component (xpath x1)) of
             Inl e \<Rightarrow> Some (Inl e, x1, fs)
           | Inr (_, fs1) \<Rightarrow>
               (case Receive C fs1 x1 of
                  None \<Rightarrow> None
                | Some (_, x2, fs2) \<Rightarrow> Some (Inr (), x2, fs2)))
   | Cmd kDelete \<Rightarrow>
       (let x1 = snd (ReceivePath C x)
        in case create_directory fs (first_component (xpath x1)) of
             Inl e \<Rightarrow> Some (Inl e, x1, fs)
           | Inr (_, fs1) \<Rightarrow>
               (if exists_path fs1 (xpath x1)
                then case fs_remove fs1 (xpath x1) of
                    Inl e \<Rightarrow> Some (Inl e, x1, fs1)
                  | Inr (_, fs2) \<Rightarrow> Some (Inr (), x1, fs2)
                else Some (Inr (), x1, fs1)))
   | _ \<Rightarrow> Some (Inr (), x, fs))"

text \<open>\<open>sd i\<close> is the shutdown flag as the \<open>i\<close>-th turn of the loop sees it.\<close>

partial_function (option) Backup_loop ::
  "codec \<Rightarrow> (nat \<Rightarrow> bool) \<Rightarrow> nat \<Rightarrow> fexch \<Rightarrow> fsys \<Rightarrow> ((int + MainLoopReply) \<times> fexch \<times> fsys) option" where
  "Backup_loop C sd i x fs =
     (if sd i then Some (Inr kShutdown, x, fs)
      else let r = ReceiveCommand C x
           in case fst r of
                Inl e \<Rightarrow> if e = ECONNABORTED then Some (Inr kLostConnectionToPrimary, snd r, fs)
                         else Backup_loop C sd (i + 1) (snd r) fs
              | Inr w \<Rightarrow>
                  (case Backup_command C w (snd r) fs of
                     None \<Rightarrow> None
                   | Some t \<Rightarrow>
                       (case fst t of
                          Inl e \<Rightarrow> Some (Inl e, fst (snd t), snd (snd t))
                        | Inr _ \<Rightarrow> Backup_loop C sd (i + 1) (fst (snd t)) (snd (snd t)))))"

declare Backup_loop.simps [code]

definition Backup_MainLoop :: "codec \<Rightarrow> (nat \<Rightarrow> bool) \<Rightarrow> backup \<Rightarrow> fsys
    \<Rightarrow> ((int + MainLoopReply) \<times> backup \<times> fsys) option" where
  "Backup_MainLoop C sd b fs = (case Backup_loop C sd 0 (exchange_s b) fs of
     None \<Rightarrow> None
   | Some (r, x, fs') \<Rightarrow> Some (r, b\<lparr>exchange_s := x\<rparr>, fs'))"

section \<open>A backup follows its messages\<close>

lemma first_component_user:
  assumes "user_name u" and "simple_name f"
  shows "first_component (user_path u f) = SyncDirWithPrefix u"
proof -
  have "CHR ''/'' \<notin> set (SyncDirWithPrefix u)"
    using assms(1) by (auto simp: user_name_def SyncDirWithPrefix_def kSyncDirPrefix_def)
  then show ?thesis
    by (simp add: first_component_def istringstream_def user_path_eq [OF assms] getline_found)
qed

definition follows :: "fsys \<Rightarrow> fsys \<Rightarrow> op list \<Rightarrow> bool" where
  "follows fs fs' ops = (layout fs' \<and> cwd fs' = cwd fs \<and> contents fs' = fold apply_op ops (contents fs)
     \<and> (\<forall>u. has_dir fs u \<longrightarrow> has_dir fs' u))"

lemma followsD:
  assumes "follows fs fs' ops"
  shows "layout fs'" "cwd fs' = cwd fs" "contents fs' = fold apply_op ops (contents fs)"
    "has_dir fs u \<Longrightarrow> has_dir fs' u"
  using assms by (auto simp: follows_def)

lemma follows_refl: "layout fs \<Longrightarrow> follows fs fs []"
  by (simp add: follows_def)

lemma follows_trans: "follows fs fs' as \<Longrightarrow> follows fs' fs'' bs \<Longrightarrow> follows fs fs'' (as @ bs)"
  by (simp add: follows_def)

lemma same_follows: "same_files fs fs' \<Longrightarrow> follows fs' fs'' ops \<Longrightarrow> follows fs fs'' ops"
  by (simp add: follows_def same_files_def)

lemma Backup_put:
  assumes "codec_ok C" and "layout fs" and "op_ok (Put u f bs)" and "sound (strm x)"
    and "incoming (strm x) = enc_str C (user_path u f) @ file_msg C bs @ rest"
  obtains s' fs' where "Backup_command C (Cmd kUpload) x fs = Some (Inr (), x\<lparr>xpath := user_path u f, strm := s'\<rparr>, fs')"
    and "took rest (strm x) s'" and "follows fs fs' [Put u f bs]"
proof -
  have ok: "user_name u" "simple_name f" "str_ok (user_path u f)" "size_ok bs"
    using assms(3) by simp_all
  obtain s1 where s1: "ReceivePath C x = (True, x\<lparr>xpath := user_path u f, strm := s1\<rparr>)"
    "took (file_msg C bs @ rest) (strm x) s1"
    by (rule ReceivePath_ok [OF assms(1,4,5) ok(3)]) (rule that; assumption)
  let ?x1 = "x\<lparr>xpath := user_path u f, strm := s1\<rparr>"
  obtain b fs1 where fs1: "create_directory fs (SyncDirWithPrefix u) = Inr (b, fs1)"
    "same_files fs fs1" "has_dir fs1 u"
    by (rule create_user_dir [OF assms(2) ok(1)]) (rule that; assumption)
  have lay: "layout fs1"
    using fs1(2) by (simp add: same_files_def)
  have in1: "xpath ?x1 = user_path u f" "sound (strm ?x1)" "incoming (strm ?x1) = file_msg C bs @ rest"
    using took_sound [OF s1(2)] by simp_all
  obtain s2 fs2 where r: "Receive C fs1 ?x1 = Some (True, ?x1\<lparr>strm := s2\<rparr>, fs2)"
    "took rest (strm ?x1) s2" "layout fs2" "cwd fs2 = cwd fs1" "\<And>v. has_dir fs2 v \<longleftrightarrow> has_dir fs1 v"
    "contents fs2 = (contents fs1)(u := (contents fs1 u)(f \<mapsto> bs))"
    by (rule Receive_user_file [OF assms(1) lay fs1(3) ok(1,2) in1(1) ok(4) in1(2,3)]) (rule that; assumption)
  have "follows fs1 fs2 [Put u f bs]"
    using r by (simp add: follows_def)
  then show thesis
    using that [of s2 fs2] s1 r(1,2) fs1 took_trans [OF s1(2)]
    by (simp add: Backup_command_def first_component_user [OF ok(1,2)] same_follows)
qed

lemma Backup_del:
  assumes "codec_ok C" and "layout fs" and "op_ok (Del u f)" and "sound (strm x)"
    and "incoming (strm x) = enc_str C (user_path u f) @ rest"
  obtains s' fs' where "Backup_command C (Cmd kDelete) x fs = Some (Inr (), x\<lparr>xpath := user_path u f, strm := s'\<rparr>, fs')"
    and "took rest (strm x) s'" and "follows fs fs' [Del u f]"
proof -
  have ok: "user_name u" "simple_name f" "str_ok (user_path u f)"
    using assms(3) by simp_all
  obtain s1 where s1: "ReceivePath C x = (True, x\<lparr>xpath := user_path u f, strm := s1\<rparr>)"
    "took rest (strm x) s1"
    by (rule ReceivePath_ok [OF assms(1,4,5) ok(3)]) (rule that; assumption)
  obtain b fs1 where fs1: "create_directory fs (SyncDirWithPrefix u) = Inr (b, fs1)"
    "same_files fs fs1" "has_dir fs1 u"
    by (rule create_user_dir [OF assms(2) ok(1)]) (rule that; assumption)
  have lay: "layout fs1"
    using fs1(2) by (simp add: same_files_def)
  note st = status_user_path [OF lay fs1(3) ok(1,2)]
  show thesis
  proof (cases "contents fs1 u f")
    case None
    then have "\<not> exists_path fs1 (user_path u f)"
      by (simp add: exists_path_def st)
    moreover have "(contents fs1 u)(f := None) = contents fs1 u"
      using None by (rule fun_upd_idem)
    then have "follows fs1 fs1 [Del u f]"
      using lay by (simp add: follows_def)
    ultimately show thesis
      using that [of s1 fs1] s1 fs1
      by (simp add: Backup_command_def first_component_user [OF ok(1,2)] same_follows)
  next
    case (Some bs)
    obtain fs2 where fs2: "fs_remove fs1 (user_path u f) = Inr (True, fs2)" "layout fs2"
      "cwd fs2 = cwd fs1" "\<And>v. has_dir fs2 v \<longleftrightarrow> has_dir fs1 v"
      "contents fs2 = (contents fs1)(u := (contents fs1 u)(f := None))"
      by (rule remove_user_file [OF lay fs1(3) ok(1,2) Some]) (rule that; assumption)
    have "exists_path fs1 (user_path u f)"
      using Some by (simp add: exists_path_def st)
    moreover have "follows fs1 fs2 [Del u f]"
      using fs2 by (simp add: follows_def)
    ultimately show thesis
      using that [of s1 fs2] s1 fs1 fs2(1)
      by (simp add: Backup_command_def first_component_user [OF ok(1,2)] same_follows)
  qed
qed

lemma wire_of_cmd [simp]: "wire_of (cmd_code c) = Cmd c"
  by (cases c) (simp_all add: wire_of_def all_commands_def)

text \<open>One turn of the loop on the message of an operation.\<close>

lemma Backup_loop_op:
  assumes "codec_ok C" and "layout fs" and "op_ok a" and "sound (strm x)" and "\<not> sd i"
    and "incoming (strm x) = op_msg C a @ rest"
  obtains x1 fs1 where "Backup_loop C sd i x fs = Backup_loop C sd (i + 1) x1 fs1"
    and "took rest (strm x) (strm x1)" and "follows fs fs1 [a]"
proof (cases a)
  case (Put u f bs)
  have "incoming (strm x) = enc_cmd C (cmd_code kUpload) @ (enc_str C (user_path u f) @ file_msg C bs @ rest)"
    using assms(6) Put by (simp add: upload_msg_def path_msg_def)
  then obtain s1 where s1: "ReceiveCommand C x = (Inr (Cmd kUpload), x\<lparr>strm := s1\<rparr>)"
    "took (enc_str C (user_path u f) @ file_msg C bs @ rest) (strm x) s1"
    by (rule ReceiveCommand_ok [OF assms(1,4), of "cmd_code kUpload", unfolded wire_of_cmd])
      (rule that; assumption)
  have in1: "sound (strm (x\<lparr>strm := s1\<rparr>))"
    "incoming (strm (x\<lparr>strm := s1\<rparr>)) = enc_str C (user_path u f) @ file_msg C bs @ rest"
    using took_sound [OF s1(2)] by simp_all
  have ok: "op_ok (Put u f bs)"
    using assms(3) Put by simp
  obtain s2 fs2 where r: "Backup_command C (Cmd kUpload) (x\<lparr>strm := s1\<rparr>) fs
      = Some (Inr (), x\<lparr>strm := s1\<rparr>\<lparr>xpath := user_path u f, strm := s2\<rparr>, fs2)"
    "took rest (strm (x\<lparr>strm := s1\<rparr>)) s2" "follows fs fs2 [Put u f bs]"
    by (rule Backup_put [OF assms(1,2) ok in1]) (rule that; assumption)
  show thesis
    using that [of "x\<lparr>strm := s1\<rparr>\<lparr>xpath := user_path u f, strm := s2\<rparr>" fs2] s1 r Put assms(5)
      took_trans [OF s1(2)] by (simp add: Backup_loop.simps [of C sd i])
next
  case (Del u f)
  have "incoming (strm x) = enc_cmd C (cmd_code kDelete) @ (enc_str C (user_path u f) @ rest)"
    using assms(6) Del by (simp add: path_msg_def)
  then obtain s1 where s1: "ReceiveCommand C x = (Inr (Cmd kDelete), x\<lparr>strm := s1\<rparr>)"
    "took (enc_str C (user_path u f) @ rest) (strm x) s1"
    by (rule ReceiveCommand_ok [OF assms(1,4), of "cmd_code kDelete", unfolded wire_of_cmd])
      (rule that; assumption)
  have in1: "sound (strm (x\<lparr>strm := s1\<rparr>))"
    "incoming (strm (x\<lparr>strm := s1\<rparr>)) = enc_str C (user_path u f) @ rest"
    using took_sound [OF s1(2)] by simp_all
  have ok: "op_ok (Del u f)"
    using assms(3) Del by simp
  obtain s2 fs2 where r: "Backup_command C (Cmd kDelete) (x\<lparr>strm := s1\<rparr>) fs
      = Some (Inr (), x\<lparr>strm := s1\<rparr>\<lparr>xpath := user_path u f, strm := s2\<rparr>, fs2)"
    "took rest (strm (x\<lparr>strm := s1\<rparr>)) s2" "follows fs fs2 [Del u f]"
    by (rule Backup_del [OF assms(1,2) ok in1]) (rule that; assumption)
  show thesis
    using that [of "x\<lparr>strm := s1\<rparr>\<lparr>xpath := user_path u f, strm := s2\<rparr>" fs2] s1 r Del assms(5)
      took_trans [OF s1(2)] by (simp add: Backup_loop.simps [of C sd i])
qed

lemma Backup_loop_closed:
  assumes "codec_ok C" and "sound (strm x)" and "\<not> sd i" and "incoming (strm x) = []"
  obtains x' where "Backup_loop C sd i x fs = Some (Inr kLostConnectionToPrimary, x', fs)"
proof (rule ReceiveCommand_closed [OF assms(1,2,4)])
  fix s'
  assume "ReceiveCommand C x = (Inl ECONNABORTED, x\<lparr>strm := s'\<rparr>)"
  then show thesis
    using that [of "x\<lparr>strm := s'\<rparr>"] assms(3) by (simp add: Backup_loop.simps [of C sd i])
qed

lemma Backup_loop_ops:
  assumes "codec_ok C" and "layout fs" and "list_all op_ok ops" and "sound (strm x)"
    and "\<And>i. \<not> sd i" and "incoming (strm x) = op_msgs C ops"
  shows "\<exists>x' fs'. Backup_loop C sd i x fs = Some (Inr kLostConnectionToPrimary, x', fs') \<and> follows fs fs' ops"
  using assms(2-4,6)
proof (induction ops arbitrary: x fs i)
  case Nil
  obtain x' where "Backup_loop C sd i x fs = Some (Inr kLostConnectionToPrimary, x', fs)"
    by (rule Backup_loop_closed [where sd = sd and i = i and fs = fs, OF assms(1) Nil(3) assms(5)])
      (use Nil(4) that in auto)
  then show ?case
    using follows_refl [OF Nil(1)] by blast
next
  case (Cons a ops)
  then have prems: "layout fs" "op_ok a" "sound (strm x)" "\<not> sd i" "incoming (strm x) = op_msg C a @ op_msgs C ops"
    using assms(5) by simp_all
  obtain x1 fs1 where step: "Backup_loop C sd i x fs = Backup_loop C sd (i + 1) x1 fs1"
    "took (op_msgs C ops) (strm x) (strm x1)" "follows fs fs1 [a]"
    by (rule Backup_loop_op [where sd = sd and i = i, OF assms(1) prems]) (rule that; assumption)
  have "\<exists>x' fs'. Backup_loop C sd (i + 1) x1 fs1 = Some (Inr kLostConnectionToPrimary, x', fs') \<and> follows fs1 fs' ops"
    using Cons.IH [of fs1 x1 "i + 1"] Cons.prems took_sound [OF step(2)] followsD(1) [OF step(3)] by simp
  then show ?case
    using step follows_trans [OF step(3)] by fastforce
qed

section \<open>What a handler sends\<close>

text \<open>The operation of a handler that belongs to an operation on the primary's files.\<close>

fun handler_op :: "codec \<Rightarrow> fsys \<Rightarrow> op \<Rightarrow> backup_handler \<Rightarrow> (bool \<times> backup_handler) option" where
  "handler_op C fs (Put u f _) = BackupHandler_Upload C fs (user_path u f)"
| "handler_op C fs (Del u f) = BackupHandler_Delete C (user_path u f)"

fun stored :: "fsys \<Rightarrow> op \<Rightarrow> bool" where
  "stored fs (Put u f bs) = (contents fs u f = Some bs)"
| "stored fs (Del u f) = (contents fs u f = None)"

definition handler_ready :: "backup_handler \<Rightarrow> bool" where
  "handler_ready b = (\<not> bh_locked b \<and> ready (sender b) \<and> pending (strm (sender b)) = [])"

lemma handler_room: "handler_ready b \<Longrightarrow> room (strm (sender b)) = kBufferSize"
  by (auto simp: handler_ready_def room_def pending_def)

lemma flushed_pending: "ready x \<Longrightarrow> pending (strm (Flush x)) = []"
  using Flush_ready [of x] by (simp add: outgoing_def)

lemma wrote_ready_fexch: "wrote bs s s' \<Longrightarrow> ready (x\<lparr>xpath := p, strm := s'\<rparr>)"
  by (simp add: wrote_def ready_def)

lemma handler_op_sends:
  assumes "handler_ready b" and "layout fs" and "op_ok a" and "stored fs a"
    and "length (op_msg C a) \<le> kBufferSize"
  obtains b' where "handler_op C fs a b = Some (True, b')" and "handler_ready b'"
    and "tx (ep (strm (sender b'))) = tx (ep (strm (sender b))) @ op_msg C a"
    and "incoming (strm (sender b')) = incoming (strm (sender b))"
proof -
  note finish = that
  have b: "\<not> bh_locked b" "ready (sender b)" "length (op_msg C a) \<le> room (strm (sender b))"
    using assms(1,5) handler_room by (auto simp: handler_ready_def)
  have out: "outgoing (strm (sender b)) = tx (ep (strm (sender b)))"
    using assms(1) by (simp add: handler_ready_def outgoing_def)
  have sent: thesis if "handler_op C fs a b = Some (True, b\<lparr>sender := Flush (sender b\<lparr>xpath := p, strm := s'\<rparr>)\<rparr>)"
    "wrote (op_msg C a) (strm (sender b)) s'" for p s'
  proof -
    note rd = wrote_ready_fexch [where x = "sender b" and p = p, OF that(2)]
    show ?thesis
      using finish [of "b\<lparr>sender := Flush (sender b\<lparr>xpath := p, strm := s'\<rparr>)\<rparr>"] that(1) b(1) Flush_ready [OF rd] flushed_pending [OF rd] that(2)
      by (simp add: handler_ready_def wrote_def out)
  qed
  show thesis
  proof (cases a)
    case (Put u f bs)
    then have dir: "has_dir fs u"
      using contents_dir [OF assms(2), of u f] assms(4) by simp
    have st: "status fs (user_path u f) = Some (File bs)"
      using status_user_path [OF assms(2) dir] assms(3,4) Put by simp
    have len: "length (upload_msg C (user_path u f) bs) \<le> room (strm (sender b))"
      using b(3) Put by simp
    show thesis
      by (rule Sender_Upload_ready [OF b(2) st len])
        (use sent Put b(1) in \<open>auto simp: BackupHandler_Upload_def with_sender_def\<close>)
  next
    case (Del u f)
    then have len: "length (path_msg C kDelete (user_path u f)) \<le> room (strm (sender b))"
      using b(3) by simp
    show thesis
      by (rule Sender_Delete_ready [OF b(2) len])
        (use sent Del b(1) in \<open>auto simp: BackupHandler_Delete_def with_sender_def\<close>)
  qed
qed

lemma connect_loop_answer:
  "connect_loop net i b = Some r \<Longrightarrow> \<exists>j. net j (primary_addr b) \<noteq> None"
  by (erule connect_loop.raw_induct [where P = "\<lambda>net i b r. \<exists>j. net j (primary_addr b) \<noteq> None", rotated])
    (auto simp: ConnectToPrimary_def split: if_splits option.splits)

section \<open>Properties\<close>

text \<open>
  A backup follows its primary: from any layout, the messages of a sequence of uploads
  and deletions leave it with exactly the files that performing those operations in that
  order gives, whatever else its working directory holds, and when the primary closes the
  connection between two messages the loop returns \<^verbatim>\<open>kLostConnectionToPrimary\<close>.
\<close>

theorem backup_replays:
  assumes "codec_ok C" and "layout fs" and "list_all op_ok ops" and "\<And>i. \<not> sd i"
    and "sound (strm (exchange_s b))" and "incoming (strm (exchange_s b)) = op_msgs C ops"
  shows "\<exists>b' fs'. Backup_MainLoop C sd b fs = Some (Inr kLostConnectionToPrimary, b', fs')
    \<and> layout fs' \<and> contents fs' = fold apply_op ops (contents fs)"
  using Backup_loop_ops [where sd = sd and i = 0, OF assms(1-3,5,4,6)]
  by (auto simp: Backup_MainLoop_def follows_def)

lemma user_u [simp]: "user_path ''u'' ''f'' = ''sync_dir_u/f''" "user_path ''u'' ''g'' = ''sync_dir_u/g''"
  by (simp_all add: user_path_def path_append_def SyncDirWithPrefix_def kSyncDirPrefix_def)

definition sample_ops :: "op list" where
  "sample_ops = [Put ''u'' ''g'' [7], Del ''u'' ''f'']"

lemma sample_ops_ok: "list_all op_ok sample_ops"
  by (simp add: sample_ops_def user_name_def simple_name_def str_ok_def size_ok_def)

lemma sample_fs_nodes:
  "node_at sample_fs q = (if q = [] \<or> q = [''srv''] \<or> q = [''srv'', ''sync_dir_u''] then Some Directory
     else if q = [''srv'', ''sync_dir_u'', ''f''] then Some (File [1, 2, 3]) else None)"
  by (simp add: sample_fs_def node_at_def)

lemma sample_fs_cwd: "cwd sample_fs = [''srv'']"
  by (simp add: sample_fs_def)

lemma sample_layout: "layout sample_fs"
  by (rule layoutI) (simp_all add: sample_fs_nodes sample_fs_cwd dir_of_def SyncDirWithPrefix_def)

lemma sample_contents:
  "contents sample_fs v f = (if v = ''u'' \<and> f = ''f'' then Some [1, 2, 3] else None)"
  by (auto simp: contents_def sample_fs_nodes sample_fs_cwd dir_of_def SyncDirWithPrefix_def
      kSyncDirPrefix_def)

definition sample_backup :: "byte list \<Rightarrow> backup" where
  "sample_backup bs = \<lparr>primary_addr = Addr 0 ''10.0.0.1'' 54321, connected = True,
     exchange_s = \<lparr>xpath = [], strm = fresh bs\<rparr>\<rparr>"

theorem backup_replays_witness:
  "\<exists>b' fs'. Backup_MainLoop pb_codec (\<lambda>_. False) (sample_backup (op_msgs pb_codec sample_ops)) sample_fs
      = Some (Inr kLostConnectionToPrimary, b', fs')
    \<and> contents fs' ''u'' ''g'' = Some [7] \<and> contents fs' ''u'' ''f'' = None"
  using backup_replays [OF pb_codec_ok sample_layout sample_ops_ok, of "\<lambda>_. False"
      "sample_backup (op_msgs pb_codec sample_ops)"]
  by (auto simp: sample_backup_def sample_ops_def)

text \<open>
  A primary that fails while it sends a file stops its backup for good: the loop of
  \<^verbatim>\<open>Receive\<close> never ends, so the loss of the connection is not noticed and no election
  follows.
\<close>

theorem backup_stuck_mid_file:
  assumes "codec_ok C" and "layout fs" and "user_name u" and "simple_name f" and "str_ok (user_path u f)"
    and "\<not> sd 0" and "sound (strm (exchange_s b))"
    and "incoming (strm (exchange_s b)) = path_msg C kUpload (user_path u f) @ enc_i64 C n @ part"
    and "int (length part) < sint n"
  shows "Backup_MainLoop C sd b fs = None"
proof -
  let ?x = "exchange_s b" and ?p = "user_path u f"
  have "incoming (strm ?x) = enc_cmd C (cmd_code kUpload) @ (enc_str C ?p @ enc_i64 C n @ part)"
    using assms(8) by (simp add: path_msg_def)
  then obtain s1 where s1: "ReceiveCommand C ?x = (Inr (Cmd kUpload), ?x\<lparr>strm := s1\<rparr>)"
    "took (enc_str C ?p @ enc_i64 C n @ part) (strm ?x) s1"
    by (rule ReceiveCommand_ok [OF assms(1,7), of "cmd_code kUpload", unfolded wire_of_cmd])
      (rule that; assumption)
  have in1: "sound (strm (?x\<lparr>strm := s1\<rparr>))"
    "incoming (strm (?x\<lparr>strm := s1\<rparr>)) = enc_str C ?p @ (enc_i64 C n @ part)"
    using took_sound [OF s1(2)] by simp_all
  obtain s2 where s2: "ReceivePath C (?x\<lparr>strm := s1\<rparr>) = (True, ?x\<lparr>strm := s1\<rparr>\<lparr>xpath := ?p, strm := s2\<rparr>)"
    "took (enc_i64 C n @ part) (strm (?x\<lparr>strm := s1\<rparr>)) s2"
    by (rule ReceivePath_ok [OF assms(1) in1 assms(5)]) (rule that; assumption)
  obtain c fs1 where fs1: "create_directory fs (SyncDirWithPrefix u) = Inr (c, fs1)"
    "same_files fs fs1" "has_dir fs1 u"
    by (rule create_user_dir [OF assms(2,3)]) (rule that; assumption)
  have lay: "layout fs1"
    using fs1(2) by (simp add: same_files_def)
  let ?x2 = "?x\<lparr>strm := s1\<rparr>\<lparr>xpath := ?p, strm := s2\<rparr>"
  have "Receive C fs1 ?x2 = None"
    by (rule Receive_truncated [where q = "dir_of fs1 u @ [f]" and n = n and part = part])
      (use assms(1,9) writable_user [OF lay fs1(3) assms(3,4)] took_sound [OF s2(2)] in simp_all)
  then have "Backup_command C (Cmd kUpload) (?x\<lparr>strm := s1\<rparr>) fs = None"
    using s2(1) fs1(1) by (simp add: Backup_command_def first_component_user [OF assms(3,4)])
  then show ?thesis
    using s1(1) assms(6) by (simp add: Backup_MainLoop_def Backup_loop.simps [of C sd 0])
qed

theorem backup_stuck_mid_file_witness:
  "Backup_MainLoop pb_codec (\<lambda>_. False)
    (sample_backup (path_msg pb_codec kUpload ''sync_dir_u/g'' @ enc_i64 pb_codec 3 @ [5, 6])) sample_fs = None"
  by (rule backup_stuck_mid_file [OF pb_codec_ok sample_layout, of "''u''" "''g''" _ _ 3 "[5, 6]"])
    (simp_all add: sample_backup_def user_name_def simple_name_def str_ok_def)

text \<open>
  The path of a message decides where a backup creates a directory: an absolute path has
  an empty first component, \<^verbatim>\<open>create_directory\<close> throws, and the exception leaves the main
  loop and ends the backup.
\<close>

theorem backup_absolute_path_throws:
  assumes "codec_ok C" and "\<not> sd 0" and "sound (strm (exchange_s b))" and "str_ok (CHR ''/'' # p)"
    and "incoming (strm (exchange_s b)) = path_msg C kUpload (CHR ''/'' # p) @ rest"
  shows "\<exists>b'. Backup_MainLoop C sd b fs = Some (Inl ENOENT, b', fs)"
proof -
  let ?x = "exchange_s b" and ?p = "CHR ''/'' # p"
  have "incoming (strm ?x) = enc_cmd C (cmd_code kUpload) @ (enc_str C ?p @ rest)"
    using assms(5) by (simp add: path_msg_def)
  then obtain s1 where s1: "ReceiveCommand C ?x = (Inr (Cmd kUpload), ?x\<lparr>strm := s1\<rparr>)"
    "took (enc_str C ?p @ rest) (strm ?x) s1"
    by (rule ReceiveCommand_ok [OF assms(1,3), of "cmd_code kUpload", unfolded wire_of_cmd])
      (rule that; assumption)
  have in1: "sound (strm (?x\<lparr>strm := s1\<rparr>))" "incoming (strm (?x\<lparr>strm := s1\<rparr>)) = enc_str C ?p @ rest"
    using took_sound [OF s1(2)] by simp_all
  obtain s2 where "ReceivePath C (?x\<lparr>strm := s1\<rparr>) = (True, ?x\<lparr>strm := s1\<rparr>\<lparr>xpath := ?p, strm := s2\<rparr>)"
    by (rule ReceivePath_ok [OF assms(1) in1 assms(4)]) (rule that; assumption)
  moreover have "first_component ?p = []"
    by (simp add: first_component_def istringstream_def getline_def)
  moreover have "create_directory fs [] = Inl ENOENT"
    by (simp add: create_directory_def resolve_def)
  ultimately show ?thesis
    using s1(1) assms(2) by (simp add: Backup_MainLoop_def Backup_loop.simps [of C sd 0] Backup_command_def)
qed

theorem backup_absolute_path_throws_witness:
  "\<exists>b'. Backup_MainLoop pb_codec (\<lambda>_. False)
    (sample_backup (path_msg pb_codec kUpload ''/etc/x'' @ [])) sample_fs = Some (Inl ENOENT, b', sample_fs)"
  by (rule backup_absolute_path_throws [OF pb_codec_ok, of _ _ "''etc/x''" "[]"])
    (simp_all add: sample_backup_def str_ok_def)

text \<open>
  A backup is constructed with the first answer the network gives to its attempts to
  connect, and never while there is none.
\<close>

theorem backup_connects:
  assumes "fst (SetKeepalive so) = None"
  shows "(\<forall>i. (\<forall>j<i. net j a = None) \<and> net i a = Some e \<longrightarrow>
      (\<exists>b. Backup net so a = Some (Inr b) \<and> connected b \<and> primary_addr b = a \<and> ep (strm (exchange_s b)) = e))
    \<and> ((\<forall>i. net i a = None) \<longrightarrow> Backup net so a = None)"
proof (intro conjI allI impI)
  let ?b = "\<lparr>primary_addr = a, connected = False, exchange_s = Base \<lparr>rx = [], wr = [], tx = []\<rparr>\<rparr>"
  fix i
  assume i: "(\<forall>j<i. net j a = None) \<and> net i a = Some e"
  let ?b' = "?b\<lparr>connected := True, exchange_s := SetStream (SetSocket e (strm (exchange_s ?b))) (exchange_s ?b)\<rparr>"
  have "connect_loop net k ?b = Some ?b'" if "k \<le> i" for k
    using that
  proof (induction k rule: inc_induct)
    case base
    then show ?case
      using i by (simp add: connect_loop.simps [of net i] ConnectToPrimary_def)
  next
    case (step k)
    then show ?case
      using i by (simp add: connect_loop.simps [of net k] ConnectToPrimary_def)
  qed
  then have "Backup net so a = Some (Inr ?b')"
    using assms by (simp add: Backup_def)
  then show "\<exists>b. Backup net so a = Some (Inr b) \<and> connected b \<and> primary_addr b = a \<and> ep (strm (exchange_s b)) = e"
    by (intro exI [of _ ?b']) (simp add: SetSocket_def)
next
  let ?b = "\<lparr>primary_addr = a, connected = False, exchange_s = Base \<lparr>rx = [], wr = [], tx = []\<rparr>\<rparr>"
  assume none: "\<forall>i. net i a = None"
  have "connect_loop net 0 ?b = None"
    using connect_loop_answer [of net 0 ?b] none by (cases "connect_loop net 0 ?b") auto
  then show "Backup net so a = None"
    by (simp add: Backup_def)
qed

theorem backup_connects_witness:
  "\<exists>b. Backup (\<lambda>i _. if i = 2 then Some \<lparr>rx = [], wr = [], tx = []\<rparr> else None) (\<lambda>_ _. None)
      (Addr 1 ''10.0.0.1'' 54321) = Some (Inr b) \<and> connected b"
  using backup_connects [of "\<lambda>_ _. None" "\<lambda>i _. if i = 2 then Some \<lparr>rx = [], wr = [], tx = []\<rparr> else None"
      "Addr 1 ''10.0.0.1'' 54321" "\<lparr>rx = [], wr = [], tx = []\<rparr>"]
  by (auto simp: SetKeepalive_def keepalive_steps_def dest: spec [of _ 2])

end
