(* ===== verification/Composite.thy ===== *)
theory Composite
  imports Prelude Exchange Layout Replica
begin

text \<open>
  The devices of a user and the broadcast of a change: \<^verbatim>\<open>server/ClientComposite.hpp\<close>,
  \<^verbatim>\<open>ClientComposite.cpp\<close>, the part of \<^verbatim>\<open>ClientHandler.hpp\<close> it calls, and
  \<^verbatim>\<open>ClientPool.cpp\<close>. Here the operations are read sequentially, a call that waits for a
  mutex nobody will release being \<open>None\<close>; the interleaving of broadcasts is in
  \<^verbatim>\<open>BroadcastThreads\<close>.
\<close>

section \<open>State\<close>

text \<open>
  What other threads see of a \<^verbatim>\<open>ClientHandler\<close>: its id and the connection over which
  changes are sent to its client (\<^verbatim>\<open>server_sync_composite_\<close>).
\<close>

record device =
  dev_id :: int
  sync_out :: fexch

record composite =
  username :: string
  devices :: "device list"    \<comment> \<open>\<^verbatim>\<open>list_\<close>\<close>
  locked :: bool              \<comment> \<open>\<^verbatim>\<open>mutex_\<close>\<close>

text \<open>
  The state of a primary: its files, the static counter of \<^verbatim>\<open>BroadcastCommand\<close>, the
  backups, the pool with its mutex, and the list of servers it tells its clients.
\<close>

record srv =
  sfs :: fsys
  users :: byte
  backups :: "backup_handler list"
  clients :: "string \<Rightarrow> composite option"
  pool_locked :: bool
  server_list :: string

definition kDeviceLimit :: nat where
  "kDeviceLimit = 2"

definition ClientComposite :: "string \<Rightarrow> composite" where
  "ClientComposite u = \<lparr>username = u, devices = [], locked = False\<rparr>"

definition put_comp :: "string \<Rightarrow> composite \<Rightarrow> srv \<Rightarrow> srv" where
  "put_comp u c s = s\<lparr>clients := (clients s)(u \<mapsto> c)\<rparr>"

section \<open>Operations\<close>

definition SyncUpload :: "codec \<Rightarrow> fsys \<Rightarrow> string \<Rightarrow> device \<Rightarrow> (bool \<times> device) option" where
  "SyncUpload C fs p d = (case Sender_Upload C fs p (sync_out d) of
     None \<Rightarrow> None
   | Some (ok, x) \<Rightarrow> Some (ok, d\<lparr>sync_out := x\<rparr>))"

definition SyncDelete :: "codec \<Rightarrow> string \<Rightarrow> device \<Rightarrow> (bool \<times> device) option" where
  "SyncDelete C p d = (case Sender_Delete C p (sync_out d) of
     None \<Rightarrow> None
   | Some (ok, x) \<Rightarrow> Some (ok, d\<lparr>sync_out := x\<rparr>))"

text \<open>A loop over the elements that satisfy a filter, left at the first failure.\<close>

fun each :: "('a \<Rightarrow> bool) \<Rightarrow> ('a \<Rightarrow> (bool \<times> 'a) option) \<Rightarrow> 'a list \<Rightarrow> (bool \<times> 'a list) option" where
  "each P f [] = Some (True, [])"
| "each P f (x # xs) =
     (if P x
      then case f x of
          None \<Rightarrow> None
        | Some (False, x') \<Rightarrow> Some (False, x' # xs)
        | Some (True, x') \<Rightarrow> map_option (\<lambda>(ok, xs'). (ok, x' # xs')) (each P f xs)
      else map_option (\<lambda>(ok, xs'). (ok, x # xs')) (each P f xs))"

definition BroadcastCommand :: "(device \<Rightarrow> (bool \<times> device) option)
    \<Rightarrow> (backup_handler \<Rightarrow> (bool \<times> backup_handler) option) \<Rightarrow> string \<Rightarrow> int \<Rightarrow> srv \<Rightarrow> (bool \<times> srv) option" where
  "BroadcastCommand method backup_method u origin s = (case clients s u of
     None \<Rightarrow> Some (False, s)
   | Some c \<Rightarrow>
       (let n = users s + 1 in
        if n = 1 \<and> locked c then None
        else let c1 = c\<lparr>locked := (locked c \<or> n = 1)\<rparr>; s1 = put_comp u c1 (s\<lparr>users := n\<rparr>)
             in case each (\<lambda>d. dev_id d \<noteq> origin) method (devices c1) of
                  None \<Rightarrow> None
                | Some (False, ds) \<Rightarrow> Some (False, put_comp u (c1\<lparr>devices := ds\<rparr>) s1)
                | Some (True, ds) \<Rightarrow>
                    (let c2 = c1\<lparr>devices := ds\<rparr>; s2 = put_comp u c2 s1 in
                     case each (\<lambda>_. True) backup_method (backups s2) of
                       None \<Rightarrow> None
                     | Some (False, bs) \<Rightarrow> Some (False, s2\<lparr>backups := bs\<rparr>)
                     | Some (True, bs) \<Rightarrow>
                         (let m = users s2 - 1; c3 = c2\<lparr>locked := (locked c2 \<and> m \<noteq> 0)\<rparr>
                          in Some (True, put_comp u c3 (s2\<lparr>backups := bs, users := m\<rparr>))))))"

definition BroadcastUpload :: "codec \<Rightarrow> string \<Rightarrow> int \<Rightarrow> string \<Rightarrow> srv \<Rightarrow> (bool \<times> srv) option" where
  "BroadcastUpload C u origin p s =
     BroadcastCommand (SyncUpload C (sfs s) p) (BackupHandler_Upload C (sfs s) p) u origin s"

definition BroadcastDelete :: "codec \<Rightarrow> string \<Rightarrow> int \<Rightarrow> string \<Rightarrow> srv \<Rightarrow> (bool \<times> srv) option" where
  "BroadcastDelete C u origin p s =
     BroadcastCommand (SyncDelete C p) (BackupHandler_Delete C p) u origin s"

definition Composite_Remove :: "string \<Rightarrow> int \<Rightarrow> srv \<Rightarrow> srv option" where
  "Composite_Remove u i s = (case clients s u of
     None \<Rightarrow> Some s
   | Some c \<Rightarrow> if locked c then None
       else Some (put_comp u (c\<lparr>devices := filter (\<lambda>d. dev_id d \<noteq> i) (devices c)\<rparr>) s))"

text \<open>
  \<^verbatim>\<open>Emplace\<close> of a composite and of the pool. \<open>ctor\<close> is the constructor of the new
  handler, which runs under both mutexes and may throw.
\<close>

datatype emplace_exn = FullList | CtorThrew int

definition Composite_Emplace :: "(srv \<Rightarrow> ((int + device \<times> 'h) \<times> srv) option) \<Rightarrow> string \<Rightarrow> srv
    \<Rightarrow> ((emplace_exn + 'h) \<times> srv) option" where
  "Composite_Emplace ctor u s = (case clients s u of
     None \<Rightarrow> None
   | Some c \<Rightarrow>
       if locked c then None
       else if kDeviceLimit \<le> length (devices c) then Some (Inl FullList, s)
       else (case ctor s of
           None \<Rightarrow> None
         | Some (Inl e, s1) \<Rightarrow> Some (Inl (CtorThrew e), s1)
         | Some (Inr (d, h), s1) \<Rightarrow>
             Some (Inr h, put_comp u (c\<lparr>devices := devices c @ [d]\<rparr>) s1)))"

definition try_emplace :: "string \<Rightarrow> srv \<Rightarrow> srv" where
  "try_emplace u s = (case clients s u of
     None \<Rightarrow> put_comp u (ClientComposite u) s
   | Some _ \<Rightarrow> s)"

definition Pool_Emplace :: "(srv \<Rightarrow> ((int + device \<times> 'h) \<times> srv) option) \<Rightarrow> string \<Rightarrow> srv
    \<Rightarrow> ((emplace_exn + 'h) \<times> srv) option" where
  "Pool_Emplace ctor u s =
     (if pool_locked s then None else Composite_Emplace ctor u (try_emplace u s))"

section \<open>Loops\<close>

lemma each_all:
  assumes "\<And>x. x \<in> set xs \<Longrightarrow> P x \<Longrightarrow> \<exists>x'. f x = Some (True, x') \<and> R x x'"
    and "\<And>x. \<not> P x \<Longrightarrow> R x x"
  shows "\<exists>xs'. each P f xs = Some (True, xs') \<and> list_all2 R xs xs'"
  using assms(1)
proof (induction xs)
  case (Cons x xs)
  then obtain xs' where "each P f xs = Some (True, xs')" "list_all2 R xs xs'"
    by auto
  then show ?case
    using Cons.prems [of x] assms(2) [of x] by (cases "P x") auto
qed simp

lemma each_fails:
  assumes "\<And>x. x \<in> set xs \<Longrightarrow> P x \<Longrightarrow> \<exists>x'. f x = Some (False, x')" and "\<exists>x\<in>set xs. P x"
  shows "\<exists>xs'. each P f xs = Some (False, xs')"
  using assms
proof (induction xs)
  case (Cons x xs)
  show ?case
  proof (cases "P x")
    case True
    then show ?thesis
      using Cons.prems(1) [of x] by auto
  next
    case False
    then obtain xs' where "each P f xs = Some (False, xs')"
      using Cons by auto
    then show ?thesis
      using False by simp
  qed
qed simp

lemma each_none: "\<not> (\<exists>x\<in>set xs. P x) \<Longrightarrow> each P f xs = Some (True, xs)"
  by (induction xs) auto

lemma each_keeps:
  assumes "each P f xs = Some (ok, xs')" and "\<And>x ok x'. P x \<Longrightarrow> f x = Some (ok, x') \<Longrightarrow> g x' = g x"
  shows "map g xs' = map g xs"
  using assms(1)
proof (induction xs arbitrary: xs' ok)
  case (Cons x xs)
  then show ?case
    using assms(2) [of x] by (auto split: if_splits option.splits bool.splits prod.splits)
qed simp

lemma Sync_dev_id:
  "SyncUpload C fs p d = Some (ok, d') \<Longrightarrow> dev_id d' = dev_id d"
  "SyncDelete C p d = Some (ok, d') \<Longrightarrow> dev_id d' = dev_id d"
  by (auto simp: SyncUpload_def SyncDelete_def split: option.splits)

text \<open>
  However a broadcast ends, it changes the streams, the lock of the composite and the
  counter; a broadcast that fails keeps its place in the counter and the lock.
\<close>

definition users_after :: "bool \<Rightarrow> srv \<Rightarrow> byte" where
  "users_after ok s = (if ok then users s else users s + 1)"

definition locked_after :: "bool \<Rightarrow> composite \<Rightarrow> srv \<Rightarrow> bool" where
  "locked_after ok c s = ((locked c \<or> users s + 1 = 1) \<and> (ok \<longrightarrow> users s \<noteq> 0))"

lemma put_comp_simps:
  "put_comp u c (put_comp u c' s) = put_comp u c s" "(put_comp u c s)\<lparr>backups := bs\<rparr> = put_comp u c (s\<lparr>backups := bs\<rparr>)"
  "(put_comp u c s)\<lparr>users := n\<rparr> = put_comp u c (s\<lparr>users := n\<rparr>)" "backups (put_comp u c s) = backups s"
  "users (put_comp u c s) = users s"
  by (simp_all add: put_comp_def)

lemma broadcast_free: "BroadcastCommand f g u i s = Some r \<Longrightarrow> clients s u = Some c \<Longrightarrow> \<not> (users s + 1 = 1 \<and> locked c)"
  by (auto simp: BroadcastCommand_def)

lemma broadcast_shape:
  assumes "BroadcastCommand f g u i s = Some (ok, s')" and "clients s u = Some c"
  obtains ok1 ds bs where "each (\<lambda>d. dev_id d \<noteq> i) f (devices c) = Some (ok1, ds)"
    and "s' = put_comp u (c\<lparr>locked := locked_after ok c s, devices := ds\<rparr>) (s\<lparr>users := users_after ok s, backups := bs\<rparr>)"
    and "bs = backups s \<or> (\<exists>ok2. each (\<lambda>_. True) g (backups s) = Some (ok2, bs))"
proof -
  note free = broadcast_free [OF assms]
  note defs = BroadcastCommand_def Let_def put_comp_simps users_after_def locked_after_def
  obtain ok1 ds where ds: "each (\<lambda>d. dev_id d \<noteq> i) f (devices c) = Some (ok1, ds)"
    using assms free by (cases "each (\<lambda>d. dev_id d \<noteq> i) f (devices c)") (auto simp: defs split: if_splits)
  show thesis
  proof (cases ok1)
    case False
    then have "s' = put_comp u (c\<lparr>locked := locked_after ok c s, devices := ds\<rparr>)
        (s\<lparr>users := users_after ok s, backups := backups s\<rparr>)"
      using assms free ds by (auto simp: defs split: if_splits)
    then show thesis
      using that ds by blast
  next
    case True
    then obtain ok2 bs where bs: "each (\<lambda>_. True) g (backups s) = Some (ok2, bs)"
      using assms free ds by (cases "each (\<lambda>_. True) g (backups s)") (auto simp: defs split: if_splits)
    have same: "c\<lparr>devices := ds, locked := l\<rparr> = c\<lparr>locked := l, devices := ds\<rparr>" for l
      by simp
    have "s' = put_comp u (c\<lparr>locked := locked_after ok c s, devices := ds\<rparr>)
        (s\<lparr>users := users_after ok s, backups := bs\<rparr>)"
    proof (cases ok2)
      case False
      then show ?thesis
        using assms free ds bs True by (auto simp: defs split: if_splits)
    next
      case ok2: True
      then show ?thesis
        using assms free ds bs True unfolding same [symmetric] by (auto simp: defs split: if_splits)
    qed
    then show thesis
      using that ds bs by blast
  qed
qed

section \<open>Broadcasting an operation\<close>

definition device_ready :: "device \<Rightarrow> bool" where
  "device_ready d = (ready (sync_out d) \<and> pending (strm (sync_out d)) = [])"

definition unlocked :: "string \<Rightarrow> srv \<Rightarrow> bool" where
  "unlocked u s = (users s = 0 \<and> (\<exists>c. clients s u = Some c \<and> \<not> locked c))"

definition srv_ready :: "string \<Rightarrow> srv \<Rightarrow> bool" where
  "srv_ready u s = (unlocked u s \<and> layout (sfs s) \<and> list_all handler_ready (backups s)
     \<and> (\<forall>c. clients s u = Some c \<longrightarrow> list_all device_ready (devices c)))"

text \<open>\<open>sent bs x x'\<close>: the bytes \<open>bs\<close> went out on a connection and nothing else changed for its peer.\<close>

definition dev_sent :: "int \<Rightarrow> byte list \<Rightarrow> device \<Rightarrow> device \<Rightarrow> bool" where
  "dev_sent origin bs d d' = (dev_id d' = dev_id d
     \<and> (if dev_id d = origin then d' = d
        else device_ready d' \<and> tx (ep (strm (sync_out d'))) = tx (ep (strm (sync_out d))) @ bs))"

definition bak_sent :: "byte list \<Rightarrow> backup_handler \<Rightarrow> backup_handler \<Rightarrow> bool" where
  "bak_sent bs b b' = (handler_ready b'
     \<and> tx (ep (strm (sender b'))) = tx (ep (strm (sender b))) @ bs)"

text \<open>A device sends like a backup handler whose mutex is free.\<close>

fun device_op :: "codec \<Rightarrow> fsys \<Rightarrow> op \<Rightarrow> device \<Rightarrow> (bool \<times> device) option" where
  "device_op C fs (Put u f _) = SyncUpload C fs (user_path u f)"
| "device_op C fs (Del u f) = SyncDelete C (user_path u f)"

lemma device_as_handler:
  assumes "handler_op C fs a \<lparr>sender = sync_out d, bh_locked = False\<rparr> = Some (ok, b')"
  shows "device_op C fs a d = Some (ok, d\<lparr>sync_out := sender b'\<rparr>)"
  using assms by (cases a) (auto simp: BackupHandler_Upload_def BackupHandler_Delete_def with_sender_def
      SyncUpload_def SyncDelete_def split: option.splits)

lemma device_op_sends:
  assumes "device_ready d" and "layout fs" and "op_ok a" and "stored fs a"
    and "length (op_msg C a) \<le> kBufferSize" and "dev_id d \<noteq> origin"
  shows "\<exists>d'. device_op C fs a d = Some (True, d') \<and> dev_sent origin (op_msg C a) d d'"
proof -
  let ?b = "\<lparr>sender = sync_out d, bh_locked = False\<rparr>"
  have "handler_ready ?b"
    using assms(1) by (simp add: device_ready_def handler_ready_def)
  then obtain b' where "handler_op C fs a ?b = Some (True, b')" "handler_ready b'"
    "tx (ep (strm (sender b'))) = tx (ep (strm (sender ?b))) @ op_msg C a"
    by (rule handler_op_sends [OF _ assms(2-5)]) (rule that; assumption)
  then show ?thesis
    using device_as_handler assms(6)
    by (intro exI [of _ "d\<lparr>sync_out := sender b'\<rparr>"])
      (simp add: dev_sent_def device_ready_def handler_ready_def)
qed

fun broadcast_op :: "codec \<Rightarrow> int \<Rightarrow> op \<Rightarrow> srv \<Rightarrow> (bool \<times> srv) option" where
  "broadcast_op C origin (Put u f _) s = BroadcastUpload C u origin (user_path u f) s"
| "broadcast_op C origin (Del u f) s = BroadcastDelete C u origin (user_path u f) s"

fun op_user :: "op \<Rightarrow> string" where
  "op_user (Put u _ _) = u"
| "op_user (Del u _) = u"

lemma broadcast_op_command:
  "broadcast_op C origin a s
    = BroadcastCommand (device_op C (sfs s) a) (handler_op C (sfs s) a) (op_user a) origin s"
  by (cases a) (simp_all add: BroadcastUpload_def BroadcastDelete_def)

lemma broadcast_sends:
  assumes "srv_ready (op_user a) s" and "clients s (op_user a) = Some c"
    and "op_ok a" and "stored (sfs s) a" and "length (op_msg C a) \<le> kBufferSize"
  obtains ds bs where "broadcast_op C origin a s
      = Some (True, put_comp (op_user a) (c\<lparr>devices := ds\<rparr>) (s\<lparr>backups := bs\<rparr>))"
    and "list_all2 (dev_sent origin (op_msg C a)) (devices c) ds"
    and "list_all2 (bak_sent (op_msg C a)) (backups s) bs"
proof -
  have lay: "layout (sfs s)" and dr: "list_all device_ready (devices c)"
    and br: "list_all handler_ready (backups s)" and un: "users s = 0" "\<not> locked c"
    using assms(1,2) by (auto simp: srv_ready_def unlocked_def)
  have "\<exists>ds. each (\<lambda>d. dev_id d \<noteq> origin) (device_op C (sfs s) a) (devices c) = Some (True, ds)
      \<and> list_all2 (dev_sent origin (op_msg C a)) (devices c) ds"
    using device_op_sends [OF _ lay assms(3-5)] dr
    by (intro each_all) (auto simp: list_all_iff dev_sent_def)
  then obtain ds where ds: "each (\<lambda>d. dev_id d \<noteq> origin) (device_op C (sfs s) a) (devices c) = Some (True, ds)"
    "list_all2 (dev_sent origin (op_msg C a)) (devices c) ds"
    by blast
  have "\<exists>b'. handler_op C (sfs s) a b = Some (True, b') \<and> bak_sent (op_msg C a) b b'"
    if "handler_ready b" for b
    by (rule handler_op_sends [OF that lay assms(3-5)]) (auto simp: bak_sent_def)
  then have "\<exists>bs. each (\<lambda>_. True) (handler_op C (sfs s) a) (backups s) = Some (True, bs)
      \<and> list_all2 (bak_sent (op_msg C a)) (backups s) bs"
    using br by (intro each_all) (auto simp: list_all_iff)
  then obtain bs where bs: "each (\<lambda>_. True) (handler_op C (sfs s) a) (backups s) = Some (True, bs)"
    "list_all2 (bak_sent (op_msg C a)) (backups s) bs"
    by blast
  have same: "c\<lparr>devices := ds, locked := False\<rparr> = c\<lparr>devices := ds\<rparr>"
    using un by (cases c) simp
  have same': "s\<lparr>backups := bs, users := 0, clients := f\<rparr> = s\<lparr>backups := bs, clients := f\<rparr>" for f
    using un by (cases s) simp
  have "broadcast_op C origin a s
      = Some (True, put_comp (op_user a) (c\<lparr>devices := ds\<rparr>) (s\<lparr>backups := bs\<rparr>))"
    using assms(2) un ds(1) bs(1)
    by (simp add: broadcast_op_command BroadcastCommand_def put_comp_def Let_def same same')
  then show thesis
    using that ds(2) bs(2) by blast
qed

text \<open>A broadcast whose file cannot be read.\<close>

lemma Sender_Upload_missing:
  assumes "ready x" and "length (path_msg C kUpload p) \<le> room (strm x)"
    and "\<forall>content. status fs p \<noteq> Some (File content)"
  shows "\<exists>x'. Sender_Upload C fs p x = Some (False, x')"
proof -
  obtain s1 s2 where s: "SendCommand C kUpload x = Some (x\<lparr>strm := s1\<rparr>)"
    "SendPath C (SetPath p (x\<lparr>strm := s1\<rparr>)) = (True, x\<lparr>xpath := p, strm := s2\<rparr>)"
    by (rule path_msg_ready [OF assms(1,2)]) (rule that; assumption)
  moreover have "Send C fs (x\<lparr>xpath := p, strm := s2\<rparr>) = (False, x\<lparr>xpath := p, strm := s2\<rparr>)"
    using assms(3) by (auto simp: Send_def split: option.splits node.splits)
  ultimately show ?thesis
    by (simp add: Sender_Upload_def)
qed

section \<open>The ids of a user's devices\<close>

definition ids_of :: "srv \<Rightarrow> string \<Rightarrow> int list option" where
  "ids_of s u = map_option (\<lambda>c. map dev_id (devices c)) (clients s u)"

definition devices_ok :: "srv \<Rightarrow> bool" where
  "devices_ok s = (\<forall>u ids. ids_of s u = Some ids \<longrightarrow> length ids \<le> kDeviceLimit \<and> distinct ids)"

text \<open>
  What admission needs of the constructor it is given: it leaves the pool alone, and the id
  of the new device is not in use. \<open>Bystanders\<close> shows it of \<^verbatim>\<open>ClientHandler\<close>.
\<close>

definition ctor_ok :: "int list option \<Rightarrow> (srv \<Rightarrow> ((int + device \<times> 'h) \<times> srv) option) \<Rightarrow> bool" where
  "ctor_ok ids ctor = (\<forall>t r t'. ctor t = Some (r, t') \<longrightarrow> clients t' = clients t
     \<and> (case r of Inl _ \<Rightarrow> True | Inr (d, _) \<Rightarrow> (case ids of None \<Rightarrow> True | Some is \<Rightarrow> dev_id d \<notin> set is)))"

lemma ids_of_simps [simp]:
  "ids_of (put_comp u c s) = (ids_of s)(u \<mapsto> map dev_id (devices c))"
  "ids_of (s\<lparr>users := n\<rparr>) = ids_of s" "ids_of (s\<lparr>backups := bs\<rparr>) = ids_of s"
  by (auto simp: ids_of_def put_comp_def fun_eq_iff)

lemma ids_of_comp: "clients s u = Some c \<Longrightarrow> ids_of s u = Some (map dev_id (devices c))"
  by (simp add: ids_of_def)

lemma devices_ok_put:
  "devices_ok s \<Longrightarrow> ids_of s' = (ids_of s)(u \<mapsto> ids) \<Longrightarrow> length ids \<le> kDeviceLimit \<Longrightarrow> distinct ids
    \<Longrightarrow> devices_ok s'"
  by (auto simp: devices_ok_def)

lemma broadcast_ids:
  assumes "BroadcastCommand f g u o' s = Some (ok, s')" and "\<And>d ok d'. f d = Some (ok, d') \<Longrightarrow> dev_id d' = dev_id d"
  shows "ids_of s' = ids_of s"
proof (cases "clients s u")
  case (Some c)
  have keep: "map dev_id ds = map dev_id (devices c)"
    if "each (\<lambda>d. dev_id d \<noteq> o') f (devices c) = Some (ok', ds)" for ok' ds
    using each_keeps [OF that, of dev_id] assms(2) by blast
  have same: "(ids_of s)(u \<mapsto> map dev_id (devices c)) = ids_of s"
    using ids_of_comp [OF Some] by (simp add: fun_upd_idem)
  show ?thesis
    using assms(1) Some same
    by (auto simp: BroadcastCommand_def Let_def dest!: keep split: if_splits option.splits bool.splits)
qed (use assms(1) in \<open>simp add: BroadcastCommand_def\<close>)

lemma devices_ok_broadcast:
  "devices_ok s \<Longrightarrow> BroadcastCommand f g u o' s = Some (ok, s')
    \<Longrightarrow> (\<And>d ok d'. f d = Some (ok, d') \<Longrightarrow> dev_id d' = dev_id d) \<Longrightarrow> devices_ok s'"
  using broadcast_ids [of f g u o' s ok s'] by (simp add: devices_ok_def)

lemma devices_ok_changes:
  assumes "devices_ok s"
  shows "BroadcastUpload C u o' p s = Some (ok, s') \<Longrightarrow> devices_ok s'"
    and "BroadcastDelete C u o' p s = Some (ok, s') \<Longrightarrow> devices_ok s'"
  unfolding BroadcastUpload_def BroadcastDelete_def
  by (erule devices_ok_broadcast [OF assms], erule Sync_dev_id)+

lemma devices_ok_remove:
  assumes "devices_ok s" and "Composite_Remove u i s = Some s'"
  shows "devices_ok s'"
proof (cases "clients s u")
  case (Some c)
  let ?ids = "map dev_id (filter (\<lambda>d. dev_id d \<noteq> i) (devices c))"
  have "length (map dev_id (devices c)) \<le> kDeviceLimit \<and> distinct (map dev_id (devices c))"
    using assms(1) ids_of_comp [OF Some] unfolding devices_ok_def by blast
  then have c: "length (devices c) \<le> kDeviceLimit" "distinct (map dev_id (devices c))"
    by simp_all
  have "length ?ids \<le> kDeviceLimit"
    using order_trans [OF length_filter_le c(1)] by simp
  moreover have "ids_of s' = (ids_of s)(u \<mapsto> ?ids)"
    using assms(2) Some by (auto simp: Composite_Remove_def split: if_splits)
  ultimately show ?thesis
    using devices_ok_put [OF assms(1)] c(2) by (simp add: distinct_map_filter)
qed (use assms in \<open>simp add: Composite_Remove_def\<close>)

lemma devices_ok_emplace:
  assumes "devices_ok s" and "Pool_Emplace ctor u s = Some (r, s')" and "ctor_ok (ids_of s u) ctor"
  shows "devices_ok s'"
proof -
  let ?t = "try_emplace u s"
  have t: "devices_ok ?t"
    using assms(1) by (auto simp: try_emplace_def devices_ok_def ClientComposite_def split: option.splits)
  obtain c where c: "clients ?t u = Some c" "clients s u = Some c \<or> clients s u = None \<and> devices c = []"
    by (cases "clients s u") (auto simp: try_emplace_def put_comp_def ClientComposite_def)
  have run: "Composite_Emplace ctor u ?t = Some (r, s')"
    using assms(2) by (simp add: Pool_Emplace_def split: if_splits)
  consider "s' = ?t" | e where "ctor ?t = Some (Inl e, s')"
    | d h t' where "ctor ?t = Some (Inr (d, h), t')" "length (devices c) < kDeviceLimit"
        "s' = put_comp u (c\<lparr>devices := devices c @ [d]\<rparr>) t'"
    using run c(1) by (auto simp: Composite_Emplace_def split: if_splits option.splits sum.splits prod.splits)
  then show ?thesis
  proof cases
    case 1
    then show ?thesis
      using t by simp
  next
    case 2
    then have "clients s' = clients ?t"
      using assms(3) by (auto simp: ctor_ok_def)
    then show ?thesis
      using t by (simp add: devices_ok_def ids_of_def)
  next
    case 3
    then have same: "clients t' = clients ?t"
      using assms(3) unfolding ctor_ok_def by blast
    have "dev_id d \<notin> dev_id ` set (devices c)"
      using assms(3) 3(1) c(2) ids_of_comp [of s u c] unfolding ctor_ok_def by fastforce
    moreover have "distinct (map dev_id (devices c))"
      using t ids_of_comp [OF c(1)] by (auto simp: devices_ok_def)
    moreover have "ids_of t' = ids_of ?t"
      using same by (simp add: ids_of_def fun_eq_iff)
    ultimately show ?thesis
      using devices_ok_put [OF t, of s' u "map dev_id (devices c @ [d])"] 3(2,3) by simp
  qed
qed

section \<open>Properties\<close>

text \<open>
  A broadcast that finds its connections in order delivers the operation exactly once to
  every other device of the user and to every backup, leaves the origin alone, changes
  neither the files nor any other user, and returns the counter and the mutex as they were.
\<close>

theorem broadcast_delivers:
  assumes "srv_ready (op_user a) s" and "clients s (op_user a) = Some c"
    and "op_ok a" and "stored (sfs s) a" and "length (op_msg C a) \<le> kBufferSize"
  shows "\<exists>ds bs. broadcast_op C origin a s
      = Some (True, put_comp (op_user a) (c\<lparr>devices := ds\<rparr>) (s\<lparr>backups := bs\<rparr>))
    \<and> list_all2 (\<lambda>d d'. dev_id d' = dev_id d \<and> (if dev_id d = origin then d' = d
        else tx (ep (strm (sync_out d'))) = tx (ep (strm (sync_out d))) @ op_msg C a)) (devices c) ds
    \<and> list_all2 (\<lambda>b b'. tx (ep (strm (sender b'))) = tx (ep (strm (sender b))) @ op_msg C a) (backups s) bs"
proof (rule broadcast_sends [OF assms, of origin])
  fix ds bs
  assume "broadcast_op C origin a s = Some (True, put_comp (op_user a) (c\<lparr>devices := ds\<rparr>) (s\<lparr>backups := bs\<rparr>))"
    and "list_all2 (dev_sent origin (op_msg C a)) (devices c) ds"
    and "list_all2 (bak_sent (op_msg C a)) (backups s) bs"
  then show ?thesis
    by (intro exI conjI) (auto elim!: list_all2_mono simp: dev_sent_def bak_sent_def split: if_splits)
qed

definition sample_device :: "int \<Rightarrow> device" where
  "sample_device i = \<lparr>dev_id = i, sync_out = \<lparr>xpath = [], strm = fresh []\<rparr>\<rparr>"

definition sample_srv :: srv where
  "sample_srv = \<lparr>sfs = sample_fs, users = 0,
     backups = [\<lparr>sender = \<lparr>xpath = [], strm = fresh []\<rparr>, bh_locked = False\<rparr>],
     clients = [''u'' \<mapsto> \<lparr>username = ''u'', devices = [sample_device 4, sample_device 7], locked = False\<rparr>],
     pool_locked = False, server_list = []\<rparr>"

lemma fresh_pending [simp]: "pending (fresh bs) = []"
  by (simp add: fresh_def SocketStream_def InitializePointers_def pending_def)

lemma sample_device_ready [simp]: "device_ready (sample_device i)"
  by (simp add: device_ready_def sample_device_def)

lemma sample_srv_ready: "srv_ready ''u'' sample_srv"
  by (simp add: srv_ready_def unlocked_def sample_srv_def handler_ready_def sample_layout)

theorem broadcast_delivers_witness:
  "\<exists>s'. broadcast_op pb_codec 4 (Put ''u'' ''f'' [1, 2, 3]) sample_srv = Some (True, s')
    \<and> map (\<lambda>b. tx (ep (strm (sender b)))) (backups s') = [upload_msg pb_codec ''sync_dir_u/f'' [1, 2, 3]]"
proof -
  have small: "length (op_msg pb_codec (Put ''u'' ''f'' [1, 2, 3])) \<le> kBufferSize"
    by (simp add: upload_msg_def path_msg_def file_msg_def pb_codec_def kBufferSize_val)
  show ?thesis
    using broadcast_delivers [of "Put ''u'' ''f'' [1, 2, 3]" sample_srv _ pb_codec 4] small
      sample_srv_ready
    by (fastforce simp: sample_srv_def sample_contents user_name_def simple_name_def str_ok_def
        size_ok_def put_comp_def list_all2_Cons1)
qed

text \<open>
  A broadcast that fails keeps what it took: when the file of an upload cannot be read,
  the call returns with the counter at 1 and the user's mutex locked, so the user's devices
  can neither be removed nor added any more, and the device limit is never reached because
  no call comes back.
\<close>

theorem broadcast_failure_leaks:
  assumes "srv_ready u s" and "clients s u = Some c"
    and "\<forall>content. status (sfs s) p \<noteq> Some (File content)"
    and "length (path_msg C kUpload p) \<le> kBufferSize"
    and "(\<exists>d\<in>set (devices c). dev_id d \<noteq> origin) \<or> backups s \<noteq> []"
  shows "\<exists>s'. BroadcastUpload C u origin p s = Some (False, s') \<and> users s' = 1
    \<and> Composite_Remove u i s' = None \<and> Composite_Emplace ctor u s' = None"
proof -
  have dr: "list_all device_ready (devices c)"
    and br: "list_all handler_ready (backups s)" and un: "users s = 0" "\<not> locked c"
    using assms(1,2) by (auto simp: srv_ready_def unlocked_def)
  have dev: "\<exists>d'. SyncUpload C (sfs s) p d = Some (False, d')" if "device_ready d" for d
    using Sender_Upload_missing [of "sync_out d" C p "sfs s"] that assms(3,4)
    by (auto simp: device_ready_def SyncUpload_def room_def pending_def)
  have bak: "\<exists>b'. BackupHandler_Upload C (sfs s) p b = Some (False, b')" if "handler_ready b" for b
    using Sender_Upload_missing [of "sender b" C p "sfs s"] that assms(3,4) handler_room [OF that]
    by (auto simp: handler_ready_def BackupHandler_Upload_def with_sender_def)
  let ?P = "\<lambda>d. dev_id d \<noteq> origin" and ?f = "SyncUpload C (sfs s) p" and ?g = "BackupHandler_Upload C (sfs s) p"
  show ?thesis
  proof (cases "\<exists>d\<in>set (devices c). ?P d")
    case True
    have "\<exists>ds. each ?P ?f (devices c) = Some (False, ds)"
      by (rule each_fails) (use dev dr True in \<open>auto simp: list_all_iff\<close>)
    then show ?thesis
      using assms(2) un by (auto simp: BroadcastUpload_def BroadcastCommand_def put_comp_def
          Composite_Remove_def Composite_Emplace_def)
  next
    case False
    have "\<exists>bs. each (\<lambda>_. True) ?g (backups s) = Some (False, bs)"
      by (rule each_fails) (use bak br assms(5) False in \<open>auto simp: list_all_iff neq_Nil_conv\<close>)
    then show ?thesis
      using assms(2) un each_none [OF False, of ?f]
      by (auto simp: BroadcastUpload_def BroadcastCommand_def put_comp_def
          Composite_Remove_def Composite_Emplace_def)
  qed
qed

theorem broadcast_failure_leaks_witness:
  "\<exists>s'. BroadcastUpload pb_codec ''u'' 4 ''sync_dir_u/g'' sample_srv = Some (False, s')
    \<and> users s' = 1 \<and> Composite_Remove ''u'' 4 s' = None"
proof -
  have len: "length (path_msg pb_codec kUpload ''sync_dir_u/g'') \<le> kBufferSize"
    by (simp add: path_msg_def pb_codec_def kBufferSize_val)
  show ?thesis
    using broadcast_failure_leaks [OF sample_srv_ready _ _ len, of _ 4 4 "\<lambda>_. None"]
    by (auto simp: sample_srv_def)
qed

end
