(* ===== verification/ClientHandler.thy ===== *)
theory ClientHandler
  imports Prelude Commands FileSystem Exchange Layout Replica Composite
begin

text \<open>
  The primary's side of one device: \<^verbatim>\<open>server/ClientHandler.hpp\<close> and
  \<^verbatim>\<open>ClientHandler.cpp\<close>, and the listing of a directory,
  \<^verbatim>\<open>common/list_directory.cpp\<close>.

  The handler's own state is what only its own threads use; what the rest of the server
  uses of it is its \<open>device\<close> in the composite. An exception is \<open>Inl\<close> its error code.
\<close>

section \<open>Listing a directory\<close>

text \<open>
  The table library and the time stamps of files are parameters: how rows become text, and
  the three times of a file.
\<close>

record tables =
  render :: "string list list \<Rightarrow> string"
  times :: "fsys \<Rightarrow> string \<Rightarrow> string list"

definition RowFromEntry :: "tables \<Rightarrow> fsys \<Rightarrow> string \<Rightarrow> string list" where
  "RowFromEntry T fs p = filename p # times T fs p"

definition ListDirectory :: "tables \<Rightarrow> fsys \<Rightarrow> string \<Rightarrow> int + string list list" where
  "ListDirectory T fs p = (case directory_names fs p of
     Inl e \<Rightarrow> Inl e
   | Inr names \<Rightarrow> Inr ([''File name'', ''Modification'', ''Access'', ''Creation'']
       # map (RowFromEntry T fs) (filter (is_regular_file fs) (map (path_append p) names))))"

section \<open>The handler\<close>

record handler =
  h_id :: int
  h_user :: string
  fe :: fexch       \<comment> \<open>on \<^verbatim>\<open>payload_stream_\<close>\<close>
  csfe :: fexch     \<comment> \<open>on \<^verbatim>\<open>cs_stream_\<close>\<close>
  h_servers :: string

definition kAttemptAmount :: byte where
  "kAttemptAmount = 5"

definition SyncDirPath :: "handler \<Rightarrow> string" where
  "SyncDirPath h = SyncDirWithPrefix (h_user h)"

text \<open>\<^verbatim>\<open>GetSyncDir\<close>: the loop over the entries, then \<^verbatim>\<open>kExit\<close>.\<close>

fun send_entries :: "codec \<Rightarrow> fsys \<Rightarrow> string \<Rightarrow> string list \<Rightarrow> fexch \<Rightarrow> (bool \<times> fexch) option" where
  "send_entries C fs d [] x = (case SendCommand C kExit x of
     None \<Rightarrow> None
   | Some x1 \<Rightarrow> Some (True, x1))"
| "send_entries C fs d (nm # nms) x = (case SendCommand C kSuccess x of
     None \<Rightarrow> None
   | Some x1 \<Rightarrow>
       (case SendPath C (SetPath (path_append d (filename nm)) x1) of
          (False, x2) \<Rightarrow> Some (False, x2)
        | (True, x2) \<Rightarrow>
            (case Send C fs x2 of
               (False, x3) \<Rightarrow> Some (False, x3)
             | (True, x3) \<Rightarrow> send_entries C fs d nms x3)))"

definition Handler_GetSyncDir :: "codec \<Rightarrow> fsys \<Rightarrow> string \<Rightarrow> fexch \<Rightarrow> (int + bool \<times> fexch) option" where
  "Handler_GetSyncDir C fs d x = (case directory_names fs d of
     Inl e \<Rightarrow> Some (Inl e)
   | Inr names \<Rightarrow> map_option Inr (send_entries C fs d names x))"

text \<open>
  The constructor: the payload stream comes with what the user name's archive left in it;
  the user's folder is created and sent. The result of \<^verbatim>\<open>GetSyncDir\<close> is ignored.
\<close>

definition CreateUserFolder :: "string \<Rightarrow> fsys \<Rightarrow> int + fsys" where
  "CreateUserFolder u fs = (case create_directory fs (SyncDirWithPrefix u) of
     Inl e \<Rightarrow> Inl e
   | Inr (_, fs') \<Rightarrow> Inr fs')"

definition ClientHandler :: "codec \<Rightarrow> string \<Rightarrow> int \<Rightarrow> sstream \<Rightarrow> endpoint \<Rightarrow> endpoint \<Rightarrow> srv
    \<Rightarrow> ((int + device \<times> handler) \<times> srv) option" where
  "ClientHandler C u i payload client_sync server_sync s =
     (case CreateUserFolder u (sfs s) of
        Inl e \<Rightarrow> Some (Inl e, s)
      | Inr fs' \<Rightarrow>
          (let s' = s\<lparr>sfs := fs'\<rparr>
           in case Handler_GetSyncDir C fs' (SyncDirWithPrefix u) (FileExchange payload) of
                None \<Rightarrow> None
              | Some (Inl e) \<Rightarrow> Some (Inl e, s')
              | Some (Inr (_, x)) \<Rightarrow>
                  Some (Inr (\<lparr>dev_id = i, sync_out = Base server_sync\<rparr>,
                             \<lparr>h_id = i, h_user = u, fe = x, csfe = Base client_sync, h_servers = []\<rparr>), s')))"

definition SetServers :: "string \<Rightarrow> handler \<Rightarrow> handler" where
  "SetServers str h = h\<lparr>h_servers := str\<rparr>"

section \<open>The client's commands\<close>

definition Handler_Upload :: "codec \<Rightarrow> handler \<Rightarrow> srv \<Rightarrow> (bool \<times> handler \<times> srv) option" where
  "Handler_Upload C h s = (case ReceivePath C (fe h) of
     (False, x) \<Rightarrow> Some (False, h\<lparr>fe := x\<rparr>, s)
   | (True, x) \<Rightarrow>
       (case Receive C (sfs s) x of
          None \<Rightarrow> None
        | Some (False, x', fs') \<Rightarrow> Some (False, h\<lparr>fe := x'\<rparr>, s\<lparr>sfs := fs'\<rparr>)
        | Some (True, x', fs') \<Rightarrow>
            (case BroadcastUpload C (h_user h) (h_id h) (xpath x') (s\<lparr>sfs := fs'\<rparr>) of
               None \<Rightarrow> None
             | Some (ok, s') \<Rightarrow> Some (ok, h\<lparr>fe := x'\<rparr>, s'))))"

definition Handler_Delete :: "codec \<Rightarrow> handler \<Rightarrow> srv \<Rightarrow> ((int + bool) \<times> handler \<times> srv) option" where
  "Handler_Delete C h s = (case ReceivePath C (fe h) of
     (False, x) \<Rightarrow> Some (Inr False, h\<lparr>fe := x\<rparr>, s)
   | (True, x) \<Rightarrow>
       (if exists_path (sfs s) (xpath x)
        then case fs_remove (sfs s) (xpath x) of
            Inl e \<Rightarrow> Some (Inl e, h\<lparr>fe := x\<rparr>, s)
          | Inr (_, fs') \<Rightarrow>
              (case BroadcastDelete C (h_user h) (h_id h) (xpath x) (s\<lparr>sfs := fs'\<rparr>) of
                 None \<Rightarrow> None
               | Some (ok, s') \<Rightarrow> Some (Inr ok, h\<lparr>fe := x\<rparr>, s'))
        else Some (Inr False, h\<lparr>fe := x\<rparr>, s)))"

definition Handler_Download :: "codec \<Rightarrow> fsys \<Rightarrow> handler \<Rightarrow> (bool \<times> handler) option" where
  "Handler_Download C fs h = (case ReceivePath C (fe h) of
     (False, x) \<Rightarrow> Some (False, h\<lparr>fe := x\<rparr>)
   | (True, x) \<Rightarrow>
       (if \<not> exists_path fs (xpath x)
        then case SendCommand C kError x of
            None \<Rightarrow> None
          | Some x1 \<Rightarrow> Some (False, h\<lparr>fe := x1\<rparr>)
        else case SendCommand C kSuccess x of
            None \<Rightarrow> None
          | Some x1 \<Rightarrow> (let (ok, x2) = Send C fs x1 in Some (ok, h\<lparr>fe := x2\<rparr>))))"

text \<open>\<^verbatim>\<open>ListServer\<close> is \<^verbatim>\<open>noexcept\<close>, and lists the directory before its \<^verbatim>\<open>try\<close>.\<close>

definition ListServer :: "codec \<Rightarrow> tables \<Rightarrow> fsys \<Rightarrow> handler \<Rightarrow> (bool \<times> handler) option" where
  "ListServer C T fs h = (case ListDirectory T fs (SyncDirPath h) of
     Inl _ \<Rightarrow> None
   | Inr rows \<Rightarrow> (let (ok, st) = save (enc_str C (render T rows)) (strm (fe h))
                  in Some (ok, h\<lparr>fe := (fe h)\<lparr>strm := st\<rparr>\<rparr>)))"

text \<open>The \<^verbatim>\<open>switch\<close> of \<^verbatim>\<open>MainLoop\<close>, \<^verbatim>\<open>kExit\<close> apart.\<close>

definition Handler_command :: "codec \<Rightarrow> tables \<Rightarrow> wire \<Rightarrow> handler \<Rightarrow> srv
    \<Rightarrow> ((int + unit) \<times> handler \<times> srv) option" where
  "Handler_command C T w h s = (case w of
     Cmd kUpload \<Rightarrow> map_option (\<lambda>(_, h', s'). (Inr (), h', s')) (Handler_Upload C h s)
   | Cmd kDownload \<Rightarrow> map_option (\<lambda>(_, h'). (Inr (), h', s)) (Handler_Download C (sfs s) h)
   | Cmd kDelete \<Rightarrow> map_option (\<lambda>(r, h', s'). (case r of Inl e \<Rightarrow> Inl e | Inr _ \<Rightarrow> Inr (), h', s'))
                     (Handler_Delete C h s)
   | Cmd kListServer \<Rightarrow> map_option (\<lambda>(_, h'). (Inr (), h', s)) (ListServer C T (sfs s) h)
   | _ \<Rightarrow> Some (Inr (), h, s))"

definition flush_payload :: "handler \<Rightarrow> handler" where
  "flush_payload h = h\<lparr>fe := Flush (fe h)\<rparr>"

text \<open>
  One turn of \<^verbatim>\<open>MainLoop\<close>: \<open>Inl\<close> when it leaves the loop, with the exception or
  normally, \<open>Inr\<close> the attempts left and the new state when it goes on.
\<close>

definition Handler_turn :: "codec \<Rightarrow> tables \<Rightarrow> byte \<Rightarrow> handler \<Rightarrow> srv
    \<Rightarrow> (((int + unit) \<times> handler \<times> srv) + (byte \<times> handler \<times> srv)) option" where
  "Handler_turn C T attempts h s =
     (let r = ReceiveCommand C (fe h); h1 = h\<lparr>fe := snd r\<rparr>
      in case fst r of
           Inr w \<Rightarrow>
             (if w = Cmd kExit then Some (Inl (Inr (), flush_payload h1, s))
              else case Handler_command C T w h1 s of
                  None \<Rightarrow> None
                | Some t \<Rightarrow>
                    (case fst t of
                       Inl e \<Rightarrow> Some (Inl (Inl e, snd t))
                     | Inr _ \<Rightarrow> Some (Inr (kAttemptAmount, flush_payload (fst (snd t)), snd (snd t)))))
         | Inl e \<Rightarrow>
             (if attempts - 1 = 0 then Some (Inl (Inr (), h1, s)) else Some (Inr (attempts - 1, h1, s))))"

partial_function (option) Handler_loop :: "codec \<Rightarrow> tables \<Rightarrow> byte \<Rightarrow> handler \<Rightarrow> srv
    \<Rightarrow> ((int + unit) \<times> handler \<times> srv) option" where
  "Handler_loop C T attempts h s =
     (case Handler_turn C T attempts h s of
        None \<Rightarrow> None
      | Some r \<Rightarrow>
          (case r of
             Inl e \<Rightarrow> Some e
           | Inr t \<Rightarrow> Handler_loop C T (fst t) (fst (snd t)) (snd (snd t))))"

declare Handler_loop.simps [code]

definition Handler_MainLoop :: "codec \<Rightarrow> tables \<Rightarrow> handler \<Rightarrow> srv \<Rightarrow> ((int + unit) \<times> handler \<times> srv) option" where
  "Handler_MainLoop C T h s = Handler_loop C T kAttemptAmount h s"

section \<open>Changes the client's watcher reports\<close>

text \<open>
  \<^verbatim>\<open>SyncFromClient\<close> runs in a thread of its own, where an exception ends the process.
  \<open>stop i\<close> is the stop token as the \<open>i\<close>-th turn of the loop sees it.
\<close>

definition Sync_command :: "codec \<Rightarrow> wire \<Rightarrow> handler \<Rightarrow> srv \<Rightarrow> (handler \<times> srv) option" where
  "Sync_command C w h s = (case w of
     Cmd kUpload \<Rightarrow>
       (case Receive C (sfs s) (snd (ReceivePath C (csfe h))) of
          None \<Rightarrow> None
        | Some (_, x, fs') \<Rightarrow>
            (case BroadcastUpload C (h_user h) (h_id h) (xpath x) (s\<lparr>sfs := fs'\<rparr>) of
               None \<Rightarrow> None
             | Some (_, s') \<Rightarrow> Some (h\<lparr>csfe := x\<rparr>, s')))
   | Cmd kDelete \<Rightarrow>
       (let x = snd (ReceivePath C (csfe h))
        in case fs_remove (sfs s) (xpath x) of
             Inl _ \<Rightarrow> None
           | Inr (_, fs') \<Rightarrow>
               (case BroadcastDelete C (h_user h) (h_id h) (xpath x) (s\<lparr>sfs := fs'\<rparr>) of
                  None \<Rightarrow> None
                | Some (_, s') \<Rightarrow> Some (h\<lparr>csfe := x\<rparr>, s')))
   | _ \<Rightarrow> Some (h, s))"

text \<open>A turn of the loop; a command that does not arrive has no effect but on the stream.\<close>

definition Sync_once :: "codec \<Rightarrow> handler \<Rightarrow> srv \<Rightarrow> (handler \<times> srv) option" where
  "Sync_once C h s =
     (let r = ReceiveCommand C (csfe h); h1 = h\<lparr>csfe := snd r\<rparr>
      in case fst r of Inl e \<Rightarrow> Some (h1, s) | Inr w \<Rightarrow> Sync_command C w h1 s)"

partial_function (option) Sync_loop :: "codec \<Rightarrow> (nat \<Rightarrow> bool) \<Rightarrow> nat \<Rightarrow> handler \<Rightarrow> srv \<Rightarrow> (handler \<times> srv) option" where
  "Sync_loop C stop i h s =
     (if stop i then Some (h, s)
      else case Sync_once C h s of
          None \<Rightarrow> None
        | Some t \<Rightarrow> Sync_loop C stop (i + 1) (fst t) (snd t))"

declare Sync_loop.simps [code]

definition Handler_SyncFromClient :: "codec \<Rightarrow> (nat \<Rightarrow> bool) \<Rightarrow> handler \<Rightarrow> srv \<Rightarrow> (handler \<times> srv) option" where
  "Handler_SyncFromClient C stop h s =
     (case save (enc_str C (h_servers h)) (strm (csfe h)) of
        (False, _) \<Rightarrow> None
      | (True, st) \<Rightarrow> Sync_loop C stop 0 (h\<lparr>csfe := Flush ((csfe h)\<lparr>strm := st\<rparr>)\<rparr>) s)"

section \<open>A session of uploads and deletions\<close>

text \<open>The operations that change something: deletions of files that are not there do not.\<close>

fun effective :: "op list \<Rightarrow> (string \<Rightarrow> string \<Rightarrow> byte list option) \<Rightarrow> op list" where
  "effective [] m = []"
| "effective (Put u f bs # ops) m = Put u f bs # effective ops (apply_op (Put u f bs) m)"
| "effective (Del u f # ops) m =
     (if m u f = None then effective ops m else Del u f # effective ops (apply_op (Del u f) m))"

lemma apply_del_missing: "m u f = None \<Longrightarrow> apply_op (Del u f) m = m"
  by (simp add: fun_upd_idem)

lemma effective_same: "fold apply_op (effective ops m) m = fold apply_op ops m"
  by (induction ops m rule: effective.induct) (simp_all add: apply_del_missing del: apply_op.simps)

lemma effective_ok: "list_all P ops \<Longrightarrow> list_all P (effective ops m)"
  by (induction ops m rule: effective.induct) auto

definition delivered :: "codec \<Rightarrow> string \<Rightarrow> int \<Rightarrow> op list \<Rightarrow> srv \<Rightarrow> srv \<Rightarrow> bool" where
  "delivered C u origin ops s s' = (srv_ready u s'
     \<and> list_all2 (bak_sent (op_msgs C ops)) (backups s) (backups s')
     \<and> (\<exists>c c'. clients s u = Some c \<and> clients s' u = Some c'
          \<and> list_all2 (dev_sent origin (op_msgs C ops)) (devices c) (devices c'))
     \<and> (\<forall>v. v \<noteq> u \<longrightarrow> clients s' v = clients s v))"

lemma delivered_ready: "delivered C u origin ops s s' \<Longrightarrow> srv_ready u s'"
  by (simp add: delivered_def)

lemma delivered_refl:
  assumes "srv_ready u s"
  shows "delivered C u origin [] s s"
proof -
  obtain c where "clients s u = Some c" "list_all device_ready (devices c)"
    using assms by (auto simp: srv_ready_def unlocked_def)
  moreover have "list_all handler_ready (backups s)"
    using assms by (simp add: srv_ready_def)
  ultimately show ?thesis
    using assms by (auto simp: delivered_def list_all_iff bak_sent_def dev_sent_def intro!: list.rel_refl_strong)
qed

lemma delivered_trans:
  assumes "delivered C u origin as s t" and "delivered C u origin bs t r"
  shows "delivered C u origin (as @ bs) s r"
proof -
  have bak: "bak_sent x b b1 \<Longrightarrow> bak_sent y b1 b2 \<Longrightarrow> bak_sent (x @ y) b b2" for x y b b1 b2
    by (simp add: bak_sent_def)
  have dev: "dev_sent origin x d d1 \<Longrightarrow> dev_sent origin y d1 d2 \<Longrightarrow> dev_sent origin (x @ y) d d2" for x y d d1 d2
    by (auto simp: dev_sent_def split: if_splits)
  show ?thesis
    using assms list_all2_trans [of "bak_sent (op_msgs C as)" "bak_sent (op_msgs C bs)"
        "bak_sent (op_msgs C as @ op_msgs C bs)" "backups s" "backups t" "backups r"]
      list_all2_trans [of "dev_sent origin (op_msgs C as)" "dev_sent origin (op_msgs C bs)"
        "dev_sent origin (op_msgs C as @ op_msgs C bs)"] bak dev
    by (fastforce simp: delivered_def)
qed

lemma devices_stay_ready:
  "list_all2 (dev_sent origin x) ds ds' \<Longrightarrow> list_all device_ready ds \<Longrightarrow> list_all device_ready ds'"
  by (induction rule: list_all2_induct) (auto simp: dev_sent_def split: if_splits)

lemma backups_stay_ready: "list_all2 (bak_sent x) bs bs' \<Longrightarrow> list_all handler_ready bs'"
  by (induction rule: list_all2_induct) (auto simp: bak_sent_def)

lemma broadcast_delivered:
  assumes "srv_ready (op_user a) s" and "op_ok a" and "stored (sfs s) a" and "length (op_msg C a) \<le> kBufferSize"
  obtains s' where "broadcast_op C origin a s = Some (True, s')" and "sfs s' = sfs s"
    and "delivered C (op_user a) origin [a] s s'"
proof -
  obtain c where c: "clients s (op_user a) = Some c" "\<not> locked c" "users s = 0"
    using assms(1) by (auto simp: srv_ready_def unlocked_def)
  obtain ds bs where b: "broadcast_op C origin a s
      = Some (True, put_comp (op_user a) (c\<lparr>devices := ds\<rparr>) (s\<lparr>backups := bs\<rparr>))"
    "list_all2 (dev_sent origin (op_msg C a)) (devices c) ds"
    "list_all2 (bak_sent (op_msg C a)) (backups s) bs"
    by (rule broadcast_sends [OF assms(1) c(1) assms(2-4), of origin]) (rule that; assumption)
  let ?s' = "put_comp (op_user a) (c\<lparr>devices := ds\<rparr>) (s\<lparr>backups := bs\<rparr>)"
  have ready: "list_all device_ready (devices c)"
    using assms(1) c(1) by (simp add: srv_ready_def)
  have "list_all device_ready ds"
    using devices_stay_ready [OF b(2) ready] .
  moreover have "list_all handler_ready bs"
    using b(3) by (rule backups_stay_ready)
  ultimately have "srv_ready (op_user a) ?s'"
    using assms(1) c by (auto simp: srv_ready_def unlocked_def put_comp_def)
  then show thesis
    using that [of ?s'] b c(1) by (simp add: delivered_def put_comp_def)
qed

text \<open>What one command does to the state, with the rest of the input left in the stream.\<close>

definition session_step :: "codec \<Rightarrow> string \<Rightarrow> int \<Rightarrow> op list \<Rightarrow> op list \<Rightarrow> byte list \<Rightarrow> handler \<Rightarrow> srv
    \<Rightarrow> handler \<Rightarrow> srv \<Rightarrow> bool" where
  "session_step C u origin ops sent rest h s h' s' =
     (h_user h' = h_user h \<and> h_id h' = h_id h \<and> took rest (strm (fe h)) (strm (fe h'))
      \<and> follows (sfs s) (sfs s') ops \<and> delivered C u origin sent s s')"

lemma srv_ready_sfs: "srv_ready u s \<Longrightarrow> layout fs \<Longrightarrow> srv_ready u (s\<lparr>sfs := fs\<rparr>)"
  by (simp add: srv_ready_def unlocked_def)

lemma delivered_sfs: "delivered C u origin ops (s\<lparr>sfs := fs\<rparr>) s' \<longleftrightarrow> delivered C u origin ops s s'"
  by (simp add: delivered_def)

lemma Handler_put:
  assumes "codec_ok C" and "srv_ready u s" and "h_user h = u" and "has_dir (sfs s) u"
    and "op_ok (Put u f bs)" and "length (op_msg C (Put u f bs)) \<le> kBufferSize"
    and "sound (strm (fe h))" and "incoming (strm (fe h)) = enc_str C (user_path u f) @ file_msg C bs @ rest"
  obtains h' s' where "Handler_command C T (Cmd kUpload) h s = Some (Inr (), h', s')"
    and "session_step C u (h_id h) [Put u f bs] [Put u f bs] rest h s h' s'"
proof -
  let ?p = "user_path u f"
  have ok: "user_name u" "simple_name f" "str_ok ?p" "size_ok bs"
    using assms(5) by simp_all
  have lay: "layout (sfs s)"
    using assms(2) by (simp add: srv_ready_def)
  obtain s1 where s1: "ReceivePath C (fe h) = (True, (fe h)\<lparr>xpath := ?p, strm := s1\<rparr>)"
    "took (file_msg C bs @ rest) (strm (fe h)) s1"
    by (rule ReceivePath_ok [OF assms(1,7,8) ok(3)]) (rule that; assumption)
  let ?x = "(fe h)\<lparr>xpath := ?p, strm := s1\<rparr>"
  have in1: "xpath ?x = ?p" "sound (strm ?x)" "incoming (strm ?x) = file_msg C bs @ rest"
    using took_sound [OF s1(2)] by simp_all
  obtain s2 fs2 where r: "Receive C (sfs s) ?x = Some (True, ?x\<lparr>strm := s2\<rparr>, fs2)"
    "took rest (strm ?x) s2" "layout fs2" "cwd fs2 = cwd (sfs s)"
    "\<And>v. has_dir fs2 v \<longleftrightarrow> has_dir (sfs s) v"
    "contents fs2 = (contents (sfs s))(u := (contents (sfs s) u)(f \<mapsto> bs))"
    by (rule Receive_user_file [OF assms(1) lay assms(4) ok(1,2) in1(1) ok(4) in1(2,3)])
      (rule that; assumption)
  have st: "srv_ready (op_user (Put u f bs)) (s\<lparr>sfs := fs2\<rparr>)" "stored (sfs (s\<lparr>sfs := fs2\<rparr>)) (Put u f bs)"
    using srv_ready_sfs [OF assms(2) r(3)] r(6) by simp_all
  obtain s' where b: "broadcast_op C (h_id h) (Put u f bs) (s\<lparr>sfs := fs2\<rparr>) = Some (True, s')"
    "sfs s' = sfs (s\<lparr>sfs := fs2\<rparr>)"
    "delivered C (op_user (Put u f bs)) (h_id h) [Put u f bs] (s\<lparr>sfs := fs2\<rparr>) s'"
    by (rule broadcast_delivered [where origin = "h_id h", OF st(1) assms(5) st(2) assms(6)])
      (rule that; assumption)
  have "Handler_command C T (Cmd kUpload) h s = Some (Inr (), h\<lparr>fe := ?x\<lparr>strm := s2\<rparr>\<rparr>, s')"
    using s1(1) r(1) b(1) assms(3) by (simp add: Handler_command_def Handler_Upload_def)
  moreover have "session_step C u (h_id h) [Put u f bs] [Put u f bs] rest h s (h\<lparr>fe := ?x\<lparr>strm := s2\<rparr>\<rparr>) s'"
    using took_trans [OF s1(2)] r(2-6) b(2,3) by (simp add: session_step_def follows_def delivered_sfs)
  ultimately show thesis
    by (rule that)
qed

lemma Handler_del:
  assumes "codec_ok C" and "srv_ready u s" and "h_user h = u" and "has_dir (sfs s) u"
    and "op_ok (Del u f)" and "length (op_msg C (Del u f)) \<le> kBufferSize"
    and "sound (strm (fe h))" and "incoming (strm (fe h)) = enc_str C (user_path u f) @ rest"
  obtains h' s' where "Handler_command C T (Cmd kDelete) h s = Some (Inr (), h', s')"
    and "session_step C u (h_id h) [Del u f] (effective [Del u f] (contents (sfs s))) rest h s h' s'"
proof -
  let ?p = "user_path u f"
  have ok: "user_name u" "simple_name f" "str_ok ?p"
    using assms(5) by simp_all
  have lay: "layout (sfs s)"
    using assms(2) by (simp add: srv_ready_def)
  obtain s1 where s1: "ReceivePath C (fe h) = (True, (fe h)\<lparr>xpath := ?p, strm := s1\<rparr>)"
    "took rest (strm (fe h)) s1"
    by (rule ReceivePath_ok [OF assms(1,7,8) ok(3)]) (rule that; assumption)
  let ?h' = "h\<lparr>fe := (fe h)\<lparr>xpath := ?p, strm := s1\<rparr>\<rparr>"
  note st = status_user_path [OF lay assms(4) ok(1,2)]
  show thesis
  proof (cases "contents (sfs s) u f")
    case None
    then have "Handler_command C T (Cmd kDelete) h s = Some (Inr (), ?h', s)"
      using s1(1) by (simp add: Handler_command_def Handler_Delete_def exists_path_def st)
    moreover have "follows (sfs s) (sfs s) [Del u f]"
      using lay apply_del_missing [of "contents (sfs s)" u f, OF None] by (simp add: follows_def)
    ultimately show thesis
      using that [of ?h' s] s1(2) None delivered_refl [OF assms(2)] by (simp add: session_step_def)
  next
    case (Some bs)
    obtain fs2 where fs2: "fs_remove (sfs s) ?p = Inr (True, fs2)" "layout fs2"
      "cwd fs2 = cwd (sfs s)" "\<And>v. has_dir fs2 v \<longleftrightarrow> has_dir (sfs s) v"
      "contents fs2 = (contents (sfs s))(u := (contents (sfs s) u)(f := None))"
      by (rule remove_user_file [OF lay assms(4) ok(1,2) Some]) (rule that; assumption)
    have rd: "srv_ready (op_user (Del u f)) (s\<lparr>sfs := fs2\<rparr>)" "stored (sfs (s\<lparr>sfs := fs2\<rparr>)) (Del u f)"
      using srv_ready_sfs [OF assms(2) fs2(2)] fs2(5) by simp_all
    obtain s' where b: "broadcast_op C (h_id h) (Del u f) (s\<lparr>sfs := fs2\<rparr>) = Some (True, s')"
      "sfs s' = sfs (s\<lparr>sfs := fs2\<rparr>)"
      "delivered C (op_user (Del u f)) (h_id h) [Del u f] (s\<lparr>sfs := fs2\<rparr>) s'"
      by (rule broadcast_delivered [where origin = "h_id h", OF rd(1) assms(5) rd(2) assms(6)])
        (rule that; assumption)
    have "Handler_command C T (Cmd kDelete) h s = Some (Inr (), ?h', s')"
      using s1(1) Some fs2(1) b(1) assms(3)
      by (simp add: Handler_command_def Handler_Delete_def exists_path_def st)
    moreover have "session_step C u (h_id h) [Del u f] [Del u f] rest h s ?h' s'"
      using s1(2) fs2(2-5) b(2,3) by (simp add: session_step_def follows_def delivered_sfs)
    ultimately show thesis
      using that Some by simp
  qed
qed

lemma took_flush:
  assumes "took rest s s'"
  shows "took rest s (stream_flush s')"
proof -
  have "sound s'"
    using assms by (simp add: took_def)
  then show ?thesis
    by (rule stream_flush_sound) (use assms in \<open>auto simp: took_def room_def\<close>)
qed

lemma session_flush:
  "session_step C u origin ops sent rest h s h' s' \<Longrightarrow> session_step C u origin ops sent rest h s (flush_payload h') s'"
  by (simp add: session_step_def flush_payload_def took_flush)

lemma session_prefix:
  assumes "took mid (strm (fe h)) st" and "session_step C u origin ops sent rest (h\<lparr>fe := (fe h)\<lparr>strm := st\<rparr>\<rparr>) s h' s'"
  shows "session_step C u origin ops sent rest h s h' s'"
  using assms took_trans [OF assms(1)] by (simp add: session_step_def)

lemma session_trans:
  assumes "session_step C u origin as xs mid h s h1 s1" and "session_step C u origin bs ys rest h1 s1 h2 s2"
  shows "session_step C u origin (as @ bs) (xs @ ys) rest h s h2 s2"
  using assms took_trans follows_trans delivered_trans unfolding session_step_def by metis

text \<open>One turn of the main loop on the message of an operation.\<close>

lemma Handler_turn_op:
  assumes "codec_ok C" and "srv_ready (h_user h) s" and "has_dir (sfs s) (h_user h)"
    and "op_ok a" and "op_user a = h_user h" and "length (op_msg C a) \<le> kBufferSize"
    and "sound (strm (fe h))" and "incoming (strm (fe h)) = op_msg C a @ rest"
  obtains h' s' where "Handler_turn C T n h s = Some (Inr (kAttemptAmount, h', s'))"
    and "session_step C (h_user h) (h_id h) [a] (effective [a] (contents (sfs s))) rest h s h' s'"
proof (cases a)
  case (Put u f bs)
  let ?r = "enc_str C (user_path u f) @ file_msg C bs @ rest"
  have "incoming (strm (fe h)) = enc_cmd C (cmd_code kUpload) @ ?r"
    using assms(8) Put by (simp add: upload_msg_def path_msg_def)
  then obtain s1 where s1: "ReceiveCommand C (fe h) = (Inr (Cmd kUpload), (fe h)\<lparr>strm := s1\<rparr>)"
    "took ?r (strm (fe h)) s1"
    by (rule ReceiveCommand_ok [OF assms(1,7), of "cmd_code kUpload", unfolded wire_of_cmd])
      (rule that; assumption)
  let ?h = "h\<lparr>fe := (fe h)\<lparr>strm := s1\<rparr>\<rparr>"
  have pre: "srv_ready u s" "h_user ?h = u" "has_dir (sfs s) u" "op_ok (Put u f bs)"
    "length (op_msg C (Put u f bs)) \<le> kBufferSize" "sound (strm (fe ?h))" "incoming (strm (fe ?h)) = ?r"
    using assms Put took_sound [OF s1(2)] by simp_all
  obtain h' s' where r: "Handler_command C T (Cmd kUpload) ?h s = Some (Inr (), h', s')"
    "session_step C u (h_id ?h) [Put u f bs] [Put u f bs] rest ?h s h' s'"
    by (rule Handler_put [where T = T, OF assms(1) pre]) (rule that; assumption)
  show thesis
    using that [of "flush_payload h'" s'] s1(1) r(1) session_flush [OF session_prefix [OF s1(2) r(2)]] Put assms(5)
    by (simp add: Handler_turn_def)
next
  case (Del u f)
  let ?r = "enc_str C (user_path u f) @ rest"
  have "incoming (strm (fe h)) = enc_cmd C (cmd_code kDelete) @ ?r"
    using assms(8) Del by (simp add: path_msg_def)
  then obtain s1 where s1: "ReceiveCommand C (fe h) = (Inr (Cmd kDelete), (fe h)\<lparr>strm := s1\<rparr>)"
    "took ?r (strm (fe h)) s1"
    by (rule ReceiveCommand_ok [OF assms(1,7), of "cmd_code kDelete", unfolded wire_of_cmd])
      (rule that; assumption)
  let ?h = "h\<lparr>fe := (fe h)\<lparr>strm := s1\<rparr>\<rparr>"
  have pre: "srv_ready u s" "h_user ?h = u" "has_dir (sfs s) u" "op_ok (Del u f)"
    "length (op_msg C (Del u f)) \<le> kBufferSize" "sound (strm (fe ?h))" "incoming (strm (fe ?h)) = ?r"
    using assms Del took_sound [OF s1(2)] by simp_all
  obtain h' s' where r: "Handler_command C T (Cmd kDelete) ?h s = Some (Inr (), h', s')"
    "session_step C u (h_id ?h) [Del u f] (effective [Del u f] (contents (sfs s))) rest ?h s h' s'"
    by (rule Handler_del [where T = T, OF assms(1) pre]) (rule that; assumption)
  show thesis
    using that [of "flush_payload h'" s'] s1(1) r(1) session_flush [OF session_prefix [OF s1(2) r(2)]] Del assms(5)
    by (simp add: Handler_turn_def del: effective.simps)
qed

lemma Handler_loop_goes_on:
  "Handler_turn C T n h s = Some (Inr (m, h', s')) \<Longrightarrow> Handler_loop C T n h s = Handler_loop C T m h' s'"
  by (simp add: Handler_loop.simps [of C T n])

lemma Handler_loop_exit:
  assumes "codec_ok C" and "sound (strm (fe h))" and "incoming (strm (fe h)) = enc_cmd C (cmd_code kExit) @ rest"
  obtains h' where "Handler_loop C T n h s = Some (Inr (), h', s)"
proof (rule ReceiveCommand_ok [OF assms, unfolded wire_of_cmd])
  fix s'
  assume "ReceiveCommand C (fe h) = (Inr (Cmd kExit), fe h\<lparr>strm := s'\<rparr>)"
  then show thesis
    using that by (simp add: Handler_loop.simps [of C T n] Handler_turn_def)
qed

lemma effective_Cons: "effective (a # ops) m = effective [a] m @ effective ops (apply_op a m)"
  by (cases a) (simp_all add: apply_del_missing del: apply_op.simps)

definition session_op :: "codec \<Rightarrow> string \<Rightarrow> op \<Rightarrow> bool" where
  "session_op C u a = (op_ok a \<and> op_user a = u \<and> length (op_msg C a) \<le> kBufferSize)"

lemma Handler_loop_session:
  assumes "codec_ok C" and "srv_ready (h_user h) s" and "has_dir (sfs s) (h_user h)"
    and "list_all (session_op C (h_user h)) ops" and "sound (strm (fe h))"
    and "incoming (strm (fe h)) = op_msgs C ops @ enc_cmd C (cmd_code kExit) @ rest"
  shows "\<exists>h' s'. Handler_loop C T n h s = Some (Inr (), h', s') \<and> follows (sfs s) (sfs s') ops
    \<and> delivered C (h_user h) (h_id h) (effective ops (contents (sfs s))) s s'"
  using assms(2-)
proof (induction ops arbitrary: h s n)
  case Nil
  obtain h' where "Handler_loop C T n h s = Some (Inr (), h', s)"
    by (rule Handler_loop_exit [where n = n and T = T and s = s, OF assms(1) Nil(4)])
      (use Nil(5) that in auto)
  moreover have "layout (sfs s)"
    using Nil(1) by (simp add: srv_ready_def)
  ultimately show ?case
    using follows_refl delivered_refl [OF Nil(1)] by auto
next
  case (Cons a ops)
  let ?rest = "op_msgs C ops @ enc_cmd C (cmd_code kExit) @ rest" and ?m = "contents (sfs s)"
  have a: "op_ok a" "op_user a = h_user h" "length (op_msg C a) \<le> kBufferSize"
    "incoming (strm (fe h)) = op_msg C a @ ?rest"
    using Cons.prems by (simp_all add: session_op_def)
  obtain h1 s1 where st: "Handler_turn C T n h s = Some (Inr (kAttemptAmount, h1, s1))"
    "session_step C (h_user h) (h_id h) [a] (effective [a] ?m) ?rest h s h1 s1"
    by (rule Handler_turn_op [where n = n and T = T, OF assms(1) Cons.prems(1,2) a(1-3) Cons.prems(4) a(4)])
      (rule that; assumption)
  then have one: "h_user h1 = h_user h" "h_id h1 = h_id h" "took ?rest (strm (fe h)) (strm (fe h1))"
    "follows (sfs s) (sfs s1) [a]" "delivered C (h_user h) (h_id h) (effective [a] ?m) s s1"
    by (auto simp: session_step_def)
  have m1: "contents (sfs s1) = apply_op a ?m"
    using one(4) by (simp add: follows_def)
  have pre: "srv_ready (h_user h1) s1" "has_dir (sfs s1) (h_user h1)"
    "list_all (session_op C (h_user h1)) ops" "sound (strm (fe h1))" "incoming (strm (fe h1)) = ?rest"
    using delivered_ready [OF one(5)] followsD(4) [OF one(4) Cons.prems(2)] Cons.prems(3)
      took_sound [OF one(3)] one(1) by simp_all
  obtain h' s' where r: "Handler_loop C T kAttemptAmount h1 s1 = Some (Inr (), h', s')"
    "follows (sfs s1) (sfs s') ops" "delivered C (h_user h) (h_id h) (effective ops (apply_op a ?m)) s1 s'"
    using Cons.IH [OF pre, of kAttemptAmount] unfolding one(1,2) m1 by blast
  have "follows (sfs s) (sfs s') (a # ops)"
    using follows_trans [OF one(4) r(2)] by simp
  moreover have "delivered C (h_user h) (h_id h) (effective (a # ops) ?m) s s'"
    using delivered_trans [OF one(5) r(3)] unfolding effective_Cons [of a ops] .
  ultimately show ?case
    using Handler_loop_goes_on [OF st(1)] r(1) by simp
qed

lemma Handler_loop_closed:
  assumes "codec_ok C" and "sound (strm (fe h))" and "incoming (strm (fe h)) = []" and "k < 255"
  shows "\<exists>h'. Handler_loop C T (of_nat (Suc k)) h s = Some (Inr (), h', s)"
  using assms(2-)
proof (induction k arbitrary: h)
  case 0
  show ?case
    by (rule ReceiveCommand_closed [OF assms(1) 0(1,2)]) (simp add: Handler_loop.simps [of C T 1] Handler_turn_def)
next
  case (Suc k)
  obtain s1 where s1: "ReceiveCommand C (fe h) = (Inl ECONNABORTED, (fe h)\<lparr>strm := s1\<rparr>)" "took [] (strm (fe h)) s1"
    by (rule ReceiveCommand_closed [OF assms(1) Suc.prems(1,2)]) (rule that; assumption)
  have "of_nat (Suc (Suc k)) - 1 = (of_nat (Suc k) :: byte)"
    by simp
  moreover have "(of_nat (Suc k) :: byte) \<noteq> 0"
    using Suc.prems(3) by (simp add: word_unat_eq_iff unat_of_nat del: of_nat_Suc)
  ultimately have "Handler_loop C T (of_nat (Suc (Suc k))) h s
      = Handler_loop C T (of_nat (Suc k)) (h\<lparr>fe := (fe h)\<lparr>strm := s1\<rparr>\<rparr>) s"
    using s1(1) by (simp add: Handler_loop.simps [of C T "of_nat (Suc (Suc k))"] Handler_turn_def Let_def del: of_nat_Suc)
  then show ?case
    using Suc.IH [of "h\<lparr>fe := (fe h)\<lparr>strm := s1\<rparr>\<rparr>"] Suc.prems(3) took_sound [OF s1(2)] by simp
qed

section \<open>Properties\<close>

text \<open>
  A session of uploads and deletions does what its commands say: the main loop returns
  at \<^verbatim>\<open>kExit\<close>, the user's files are those that performing the operations in order gives,
  and every backup and every other device of the user has been sent exactly the operations
  that changed something, in that order.
\<close>

theorem session_performs_commands:
  assumes "codec_ok C" and "srv_ready (h_user h) s" and "has_dir (sfs s) (h_user h)"
    and "list_all (session_op C (h_user h)) ops" and "sound (strm (fe h))"
    and "incoming (strm (fe h)) = op_msgs C ops @ enc_cmd C (cmd_code kExit) @ rest"
  shows "\<exists>h' s'. Handler_MainLoop C T h s = Some (Inr (), h', s')
    \<and> contents (sfs s') = fold apply_op ops (contents (sfs s))
    \<and> delivered C (h_user h) (h_id h) (effective ops (contents (sfs s))) s s'"
  using Handler_loop_session [OF assms, of T kAttemptAmount] by (auto simp: Handler_MainLoop_def follows_def)

definition sample_handler :: "byte list \<Rightarrow> handler" where
  "sample_handler bs = \<lparr>h_id = 4, h_user = ''u'', fe = \<lparr>xpath = [], strm = fresh bs\<rparr>,
     csfe = \<lparr>xpath = [], strm = fresh []\<rparr>, h_servers = []\<rparr>"

definition sample_tables :: tables where
  "sample_tables = \<lparr>render = concat \<circ> concat, times = (\<lambda>_ _. [])\<rparr>"

definition session_msg :: "op list \<Rightarrow> byte list" where
  "session_msg ops = op_msgs pb_codec ops @ enc_cmd pb_codec (cmd_code kExit) @ []"

lemma sample_session_ops: "list_all (session_op pb_codec ''u'') sample_ops"
  by (simp add: sample_ops_def session_op_def user_name_def simple_name_def str_ok_def size_ok_def
      upload_msg_def path_msg_def file_msg_def pb_codec_def kBufferSize_val)

lemma sample_has_dir: "has_dir sample_fs ''u''"
  by (simp add: has_dir_def dir_of_def sample_fs_nodes sample_fs_cwd SyncDirWithPrefix_def kSyncDirPrefix_def)

lemma sample_session:
  "srv_ready (h_user (sample_handler (session_msg sample_ops))) sample_srv"
  "has_dir (sfs sample_srv) (h_user (sample_handler (session_msg sample_ops)))"
  "list_all (session_op pb_codec (h_user (sample_handler (session_msg sample_ops)))) sample_ops"
  "sound (strm (fe (sample_handler (session_msg sample_ops))))"
  "incoming (strm (fe (sample_handler (session_msg sample_ops))))
    = op_msgs pb_codec sample_ops @ enc_cmd pb_codec (cmd_code kExit) @ []"
  using sample_srv_ready sample_has_dir sample_session_ops
  by (simp_all add: sample_handler_def sample_srv_def session_msg_def)

theorem session_performs_commands_witness:
  "\<exists>h' s'. Handler_MainLoop pb_codec sample_tables (sample_handler (session_msg sample_ops)) sample_srv
      = Some (Inr (), h', s')
    \<and> contents (sfs s') ''u'' ''g'' = Some [7] \<and> contents (sfs s') ''u'' ''f'' = None"
  using session_performs_commands [OF pb_codec_ok sample_session, of sample_tables]
  by (auto simp: sample_ops_def)

text \<open>
  Replication: a backup that had the primary's files before a session, and is connected
  to the handler \<open>i\<close> of that session by a connection that loses nothing, has the primary's
  files after it.
\<close>

theorem backup_replicates_session:
  assumes "codec_ok C" and "srv_ready (h_user h) s" and "has_dir (sfs s) (h_user h)"
    and "list_all (session_op C (h_user h)) ops" and "sound (strm (fe h))"
    and "incoming (strm (fe h)) = op_msgs C ops @ enc_cmd C (cmd_code kExit) @ rest"
    and "i < length (backups s)" and "layout bfs" and "contents bfs = contents (sfs s)"
    and "\<And>j. \<not> sd j" and "sound (strm (exchange_s b))"
  shows "\<exists>h' s'. Handler_MainLoop C T h s = Some (Inr (), h', s')
    \<and> (tx (ep (strm (sender (backups s' ! i)))) = tx (ep (strm (sender (backups s ! i)))) @ incoming (strm (exchange_s b)) \<longrightarrow>
       (\<exists>b' bfs'. Backup_MainLoop C sd b bfs = Some (Inr kLostConnectionToPrimary, b', bfs')
          \<and> contents bfs' = contents (sfs s')))"
proof -
  let ?sent = "effective ops (contents (sfs s))"
  obtain h' s' where run: "Handler_loop C T kAttemptAmount h s = Some (Inr (), h', s')"
    and fol: "follows (sfs s) (sfs s') ops" and del: "delivered C (h_user h) (h_id h) ?sent s s'"
    using Handler_loop_session [OF assms(1-6), of T kAttemptAmount] by blast
  have "bak_sent (op_msgs C ?sent) (backups s ! i) (backups s' ! i)"
    using del assms(7) by (auto simp: delivered_def list_all2_conv_all_nth)
  then have tx: "tx (ep (strm (sender (backups s' ! i)))) = tx (ep (strm (sender (backups s ! i)))) @ op_msgs C ?sent"
    by (simp add: bak_sent_def)
  have "list_all op_ok ops"
    using assms(4) by (auto simp: list_all_iff session_op_def)
  then have ok: "list_all op_ok ?sent"
    by (rule effective_ok)
  have "\<exists>b' bfs'. Backup_MainLoop C sd b bfs = Some (Inr kLostConnectionToPrimary, b', bfs')
      \<and> contents bfs' = contents (sfs s')"
    if inc: "incoming (strm (exchange_s b)) = op_msgs C ?sent"
  proof -
    obtain x' bfs' where "Backup_loop C sd 0 (exchange_s b) bfs = Some (Inr kLostConnectionToPrimary, x', bfs')"
      "follows bfs bfs' ?sent"
      using Backup_loop_ops [where sd = sd and i = 0, OF assms(1,8) ok assms(11,10) inc] by blast
    then show ?thesis
      using assms(9) followsD(3) [OF fol] by (auto simp: Backup_MainLoop_def follows_def effective_same)
  qed
  then show ?thesis
    using run tx by (auto simp: Handler_MainLoop_def)
qed

theorem backup_replicates_session_witness:
  "\<exists>h' s' b' bfs'. Handler_MainLoop pb_codec sample_tables (sample_handler (session_msg sample_ops)) sample_srv
      = Some (Inr (), h', s')
    \<and> Backup_MainLoop pb_codec (\<lambda>_. False) (sample_backup (op_msgs pb_codec sample_ops)) sample_fs
      = Some (Inr kLostConnectionToPrimary, b', bfs') \<and> contents bfs' = contents (sfs s')"
proof -
  let ?h = "sample_handler (session_msg sample_ops)" and ?b = "sample_backup (op_msgs pb_codec sample_ops)"
  have eff: "effective sample_ops (contents (sfs sample_srv)) = sample_ops"
    by (simp add: sample_ops_def sample_srv_def sample_contents)
  obtain h' s' where run: "Handler_MainLoop pb_codec sample_tables ?h sample_srv = Some (Inr (), h', s')"
    and del: "delivered pb_codec ''u'' 4 sample_ops sample_srv s'"
    using Handler_loop_session [OF pb_codec_ok sample_session, of sample_tables kAttemptAmount] eff
    by (auto simp: Handler_MainLoop_def sample_handler_def)
  have len: "0 < length (backups sample_srv)"
    by (simp add: sample_srv_def)
  then have "tx (ep (strm (sender (backups s' ! 0)))) = tx (ep (strm (sender (backups sample_srv ! 0)))) @ op_msgs pb_codec sample_ops"
    using del by (auto simp: delivered_def list_all2_conv_all_nth bak_sent_def)
  moreover have "incoming (strm (exchange_s ?b)) = op_msgs pb_codec sample_ops" "sound (strm (exchange_s ?b))"
    "contents sample_fs = contents (sfs sample_srv)"
    by (simp_all add: sample_backup_def sample_srv_def)
  ultimately show ?thesis
    using backup_replicates_session [OF pb_codec_ok sample_session len sample_layout, of "\<lambda>_. False" ?b sample_tables] run
    by auto
qed

text \<open>
  A client that is gone does not keep its handler: when the connection is closed the
  main loop gives up after five attempts and returns, without an effect on the server.
\<close>

theorem handler_times_out:
  assumes "codec_ok C" and "sound (strm (fe h))" and "incoming (strm (fe h)) = []"
  shows "\<exists>h'. Handler_MainLoop C T h s = Some (Inr (), h', s)"
  using Handler_loop_closed [OF assms, of 4 T s] by (simp add: Handler_MainLoop_def kAttemptAmount_def)

theorem handler_times_out_witness:
  "\<exists>h'. Handler_MainLoop pb_codec sample_tables (sample_handler []) sample_srv = Some (Inr (), h', sample_srv)"
  by (rule handler_times_out [OF pb_codec_ok]) (simp_all add: sample_handler_def)

text \<open>
  C40. The path of an upload is the client's: whatever file it resolves to on the server,
  inside or outside of the user's directory, is replaced by what the client sends.
\<close>

theorem upload_not_confined:
  assumes "codec_ok C" and "clients s (h_user h) = Some c" and "\<not> locked c" and "users s = 0"
    and "\<forall>d\<in>set (devices c). dev_id d = h_id h" and "backups s = []"
    and "str_ok p" and "size_ok content" and "writable (sfs s) p q" and "sound (strm (fe h))"
    and "incoming (strm (fe h)) = upload_msg C p content @ enc_cmd C (cmd_code kExit) @ rest"
  shows "\<exists>h' s'. Handler_MainLoop C T h s = Some (Inr (), h', s')
    \<and> node_at (sfs s') = (node_at (sfs s))(q \<mapsto> File content)"
proof -
  let ?x = "enc_cmd C (cmd_code kExit) @ rest"
  let ?r = "enc_str C p @ file_msg C content @ ?x"
  have "incoming (strm (fe h)) = enc_cmd C (cmd_code kUpload) @ ?r"
    using assms(11) by (simp add: upload_msg_def path_msg_def)
  then obtain s1 where s1: "ReceiveCommand C (fe h) = (Inr (Cmd kUpload), (fe h)\<lparr>strm := s1\<rparr>)"
    "took ?r (strm (fe h)) s1"
    by (rule ReceiveCommand_ok [OF assms(1,10), of "cmd_code kUpload", unfolded wire_of_cmd])
      (rule that; assumption)
  have in1: "sound (strm ((fe h)\<lparr>strm := s1\<rparr>))" "incoming (strm ((fe h)\<lparr>strm := s1\<rparr>)) = ?r"
    using took_sound [OF s1(2)] by simp_all
  obtain s2 where s2: "ReceivePath C ((fe h)\<lparr>strm := s1\<rparr>) = (True, (fe h)\<lparr>strm := s1\<rparr>\<lparr>xpath := p, strm := s2\<rparr>)"
    "took (file_msg C content @ ?x) (strm ((fe h)\<lparr>strm := s1\<rparr>)) s2"
    by (rule ReceivePath_ok [OF assms(1) in1 assms(7)]) (rule that; assumption)
  let ?x2 = "(fe h)\<lparr>strm := s1\<rparr>\<lparr>xpath := p, strm := s2\<rparr>"
  have in2: "writable (sfs s) (xpath ?x2) q" "sound (strm ?x2)" "incoming (strm ?x2) = file_msg C content @ ?x"
    using assms(9) took_sound [OF s2(2)] by simp_all
  obtain s3 fs' where r: "Receive C (sfs s) ?x2 = Some (True, ?x2\<lparr>strm := s3\<rparr>, fs')"
    "took ?x (strm ?x2) s3" "node_at fs' = (node_at (sfs s))(q \<mapsto> File content)"
    by (rule Receive_ok [OF assms(1) in2(1) assms(8) in2(2,3)]) (rule that; assumption)
  have "each (\<lambda>d. dev_id d \<noteq> h_id h) f (devices c) = Some (True, devices c)" for f
    by (rule each_none) (use assms(5) in auto)
  then obtain s' where "BroadcastUpload C (h_user h) (h_id h) p (s\<lparr>sfs := fs'\<rparr>) = Some (True, s')" "sfs s' = fs'"
    using assms(2-4,6) by (simp add: BroadcastUpload_def BroadcastCommand_def put_comp_def Let_def)
  moreover define h1 where "h1 = flush_payload (h\<lparr>fe := ?x2\<lparr>strm := s3\<rparr>\<rparr>)"
  ultimately have "Handler_MainLoop C T h s = Handler_loop C T kAttemptAmount h1 s'" "sfs s' = fs'"
    using s1(1) s2(1) r(1)
    by (simp_all add: Handler_MainLoop_def Handler_loop.simps [of C T _ h] Handler_turn_def Handler_command_def Handler_Upload_def)
  moreover have "sound (strm (fe h1))" "incoming (strm (fe h1)) = ?x"
    using took_sound [OF took_flush [OF r(2)]] by (simp_all add: h1_def flush_payload_def)
  ultimately show ?thesis
    using r(3) by (rule_tac Handler_loop_exit [where h = h1 and n = kAttemptAmount and T = T and s = s', OF assms(1)]) auto
qed

definition lone_srv :: srv where
  "lone_srv = sample_srv\<lparr>backups := [],
     clients := [''u'' \<mapsto> \<lparr>username = ''u'', devices = [sample_device 4], locked = False\<rparr>]\<rparr>"

theorem upload_not_confined_witness:
  "\<exists>h' s'. Handler_MainLoop pb_codec sample_tables
      (sample_handler (upload_msg pb_codec ''../passwd'' [9] @ enc_cmd pb_codec (cmd_code kExit) @ [])) lone_srv
      = Some (Inr (), h', s') \<and> node_at (sfs s') [''passwd''] = Some (File [9])"
proof -
  have "writable sample_fs ''../passwd'' [''passwd'']"
    by (simp add: writable_def) (simp add: sample_fs_def node_at_def resolve_def step_name_def)
  then show ?thesis
    using upload_not_confined [OF pb_codec_ok, of lone_srv
        "sample_handler (upload_msg pb_codec ''../passwd'' [9] @ enc_cmd pb_codec (cmd_code kExit) @ [])"
        _ "''../passwd''" "[9]" "[''passwd'']" "[]" sample_tables]
    by (fastforce simp: lone_srv_def sample_srv_def sample_handler_def sample_device_def str_ok_def size_ok_def)
qed

text \<open>
  A deletion that the file system refuses ends the session with an exception: asked to
  delete a directory that is not empty, \<^verbatim>\<open>MainLoop\<close> does not return.
\<close>

theorem delete_directory_throws:
  assumes "codec_ok C" and "layout (sfs s)" and "user_name u" and "contents (sfs s) u f \<noteq> None"
    and "str_ok (SyncDirWithPrefix u)" and "sound (strm (fe h))"
    and "incoming (strm (fe h)) = path_msg C kDelete (SyncDirWithPrefix u) @ rest"
  shows "\<exists>h'. Handler_MainLoop C T h s = Some (Inl ENOTEMPTY, h', s)"
proof -
  let ?p = "SyncDirWithPrefix u" and ?q = "dir_of (sfs s) u"
  have "incoming (strm (fe h)) = enc_cmd C (cmd_code kDelete) @ (enc_str C ?p @ rest)"
    using assms(7) by (simp add: path_msg_def)
  then obtain s1 where s1: "ReceiveCommand C (fe h) = (Inr (Cmd kDelete), (fe h)\<lparr>strm := s1\<rparr>)"
    "took (enc_str C ?p @ rest) (strm (fe h)) s1"
    by (rule ReceiveCommand_ok [OF assms(1,6), of "cmd_code kDelete", unfolded wire_of_cmd])
      (rule that; assumption)
  have in1: "sound (strm ((fe h)\<lparr>strm := s1\<rparr>))" "incoming (strm ((fe h)\<lparr>strm := s1\<rparr>)) = enc_str C ?p @ rest"
    using took_sound [OF s1(2)] by simp_all
  obtain s2 where s2: "ReceivePath C ((fe h)\<lparr>strm := s1\<rparr>) = (True, (fe h)\<lparr>strm := s1\<rparr>\<lparr>xpath := ?p, strm := s2\<rparr>)"
    by (rule ReceivePath_ok [OF assms(1) in1 assms(5)]) (rule that; assumption)
  have dir: "has_dir (sfs s) u"
    using contents_dir [OF assms(2)] assms(4) by blast
  have "node_at (sfs s) (?q @ [f]) \<noteq> None"
    using assms(4) by (auto simp: contents_def split: option.splits)
  then have "has_children (sfs s) ?q"
    by (auto simp: has_children_def node_at_def list_ex_iff dest!: map_of_SomeD
        intro!: bexI [of _ "(?q @ [f], _)"])
  moreover have "rmdir_refused ?p ?q = None"
    using assms(3) by (intro simple_not_refused) (simp_all add: simple_sync_dir user_name_def)
  ultimately have "fs_remove (sfs s) ?p = Inl ENOTEMPTY"
    using resolve_user_dir [OF assms(2,3)] dir by (simp add: fs_remove_def has_dir_def flip: node_at_def)
  moreover have "exists_path (sfs s) ?p"
    using status_node [OF resolve_user_dir [OF assms(2,3)]] dir by (simp add: exists_path_def has_dir_def)
  ultimately show ?thesis
    using s1(1) s2 by (simp add: Handler_MainLoop_def Handler_loop.simps [of C T _ h] Handler_turn_def Handler_command_def
        Handler_Delete_def)
qed

theorem delete_directory_throws_witness:
  "\<exists>h'. Handler_MainLoop pb_codec sample_tables (sample_handler (path_msg pb_codec kDelete ''sync_dir_u'' @ []))
    sample_srv = Some (Inl ENOTEMPTY, h', sample_srv)"
proof -
  have "SyncDirWithPrefix ''u'' = ''sync_dir_u''"
    by (simp add: SyncDirWithPrefix_def kSyncDirPrefix_def)
  then show ?thesis
    using delete_directory_throws [OF pb_codec_ok, of sample_srv "''u''" "''f''"
        "sample_handler (path_msg pb_codec kDelete ''sync_dir_u'' @ [])" "[]" sample_tables] sample_layout
    by (simp add: sample_srv_def sample_handler_def sample_contents user_name_def str_ok_def)
qed

end
