(* ===== verification/BroadcastThreads.thy ===== *)
theory BroadcastThreads
  imports Prelude
begin

text \<open>
  The interleaving of broadcasts: \<^verbatim>\<open>ClientComposite::BroadcastCommand\<close> of
  \<^verbatim>\<open>server/ClientComposite.cpp\<close> as run by many threads at once. The counter
  \<^verbatim>\<open>users\<close> is one static atomic for all composites, each composite has its own mutex,
  and the increment, the test, the lock, the loops, the decrement, the test and the unlock
  are separate steps. A thread calls it again and again, also after a call that failed: the
  main loop of a handler does not look at the result.
\<close>

section \<open>The threads\<close>

datatype pc =
    Start      \<comment> \<open>before \<^verbatim>\<open>users += 1\<close>\<close>
  | Entered    \<comment> \<open>before \<^verbatim>\<open>if (users == 1)\<close>\<close>
  | Locking    \<comment> \<open>in \<^verbatim>\<open>mutex_.lock()\<close>\<close>
  | Sending    \<comment> \<open>in the loops over the list and the backups\<close>
  | Left       \<comment> \<open>before \<^verbatim>\<open>if (users == 0)\<close>\<close>
  | Returned   \<comment> \<open>\<^verbatim>\<open>return true\<close>\<close>
  | Aborted    \<comment> \<open>\<^verbatim>\<open>return false\<close>\<close>

record threads =
  pc_of :: "nat \<Rightarrow> pc"
  users_cnt :: byte
  owner :: "nat \<Rightarrow> nat option"   \<comment> \<open>of a composite's mutex: the thread that locked it\<close>
  failures :: nat                \<comment> \<open>how many calls have returned false so far\<close>
  bad_unlock :: bool             \<comment> \<open>a thread has unlocked a mutex that was not its own\<close>

definition init_threads :: threads where
  "init_threads = \<lparr>pc_of = (\<lambda>_. Start), users_cnt = 0, owner = (\<lambda>_. None), failures = 0, bad_unlock = False\<rparr>"

definition goto :: "nat \<Rightarrow> pc \<Rightarrow> threads \<Rightarrow> threads" where
  "goto t p s = s\<lparr>pc_of := (pc_of s)(t := p)\<rparr>"

text \<open>\<open>grp t\<close> is the composite on which thread \<open>t\<close> calls the broadcast.\<close>

definition unlock_mutex :: "(nat \<Rightarrow> nat) \<Rightarrow> nat \<Rightarrow> threads \<Rightarrow> threads" where
  "unlock_mutex grp t s = s\<lparr>owner := (owner s)(grp t := None),
     bad_unlock := (bad_unlock s \<or> owner s (grp t) \<noteq> Some t)\<rparr>"

inductive bstep :: "(nat \<Rightarrow> nat) \<Rightarrow> nat \<Rightarrow> threads \<Rightarrow> threads \<Rightarrow> bool" for grp n where
  enter: "t < n \<Longrightarrow> pc_of s t = Start \<Longrightarrow>
    bstep grp n s (goto t Entered (s\<lparr>users_cnt := users_cnt s + 1\<rparr>))"
| test_first: "t < n \<Longrightarrow> pc_of s t = Entered \<Longrightarrow>
    bstep grp n s (goto t (if users_cnt s = 1 then Locking else Sending) s)"
| lock: "t < n \<Longrightarrow> pc_of s t = Locking \<Longrightarrow> owner s (grp t) = None \<Longrightarrow>
    bstep grp n s (goto t Sending (s\<lparr>owner := (owner s)(grp t \<mapsto> t)\<rparr>))"
| abort: "t < n \<Longrightarrow> pc_of s t = Sending \<Longrightarrow> 
    bstep grp n s (goto t Aborted (s\<lparr>failures := failures s + 1\<rparr>))"
| leave: "t < n \<Longrightarrow> pc_of s t = Sending \<Longrightarrow>
    bstep grp n s (goto t Left (s\<lparr>users_cnt := users_cnt s - 1\<rparr>))"
| test_last: "t < n \<Longrightarrow> pc_of s t = Left \<Longrightarrow>
    bstep grp n s (goto t Returned (if users_cnt s = 0 then unlock_mutex grp t s else s))"
| again: "t < n \<Longrightarrow> pc_of s t = Returned \<or> pc_of s t = Aborted \<Longrightarrow> bstep grp n s (goto t Start s)"

inductive breach :: "(nat \<Rightarrow> nat) \<Rightarrow> nat \<Rightarrow> threads \<Rightarrow> bool" for grp n where
  init: "breach grp n init_threads"
| step: "breach grp n s \<Longrightarrow> bstep grp n s s' \<Longrightarrow> breach grp n s'"

lemma bstep_cases [consumes 1, case_names enter test_first lock abort leave test_last again]:
  assumes "bstep grp n s s'"
  obtains t where "s' = goto t Entered (s\<lparr>users_cnt := users_cnt s + 1\<rparr>)" "t < n" "pc_of s t = Start"
    | t where "s' = goto t (if users_cnt s = 1 then Locking else Sending) s" "t < n" "pc_of s t = Entered"
    | t where "s' = goto t Sending (s\<lparr>owner := (owner s)(grp t \<mapsto> t)\<rparr>)" "t < n" "pc_of s t = Locking"
        "owner s (grp t) = None"
    | t where "s' = goto t Aborted (s\<lparr>failures := failures s + 1\<rparr>)" "t < n" "pc_of s t = Sending"
    | t where "s' = goto t Left (s\<lparr>users_cnt := users_cnt s - 1\<rparr>)" "t < n" "pc_of s t = Sending"
    | t where "s' = goto t Returned (if users_cnt s = 0 then unlock_mutex grp t s else s)" "t < n"
        "pc_of s t = Left"
    | t where "s' = goto t Start s" "t < n" "pc_of s t = Returned \<or> pc_of s t = Aborted"
  using assms by (cases rule: bstep.cases) blast+

section \<open>The counter\<close>

definition inside :: "pc \<Rightarrow> bool" where
  "inside p = (p \<in> {Entered, Locking, Sending})"

definition n_inside :: "nat \<Rightarrow> threads \<Rightarrow> nat" where
  "n_inside n s = card {t. t < n \<and> inside (pc_of s t)}"

lemma inside_simps [simp]:
  "\<not> inside Start" "inside Entered" "inside Locking" "inside Sending" "\<not> inside Left"
  "\<not> inside Returned" "\<not> inside Aborted"
  by (simp_all add: inside_def)

lemma goto_simps [simp]:
  "pc_of (goto t p s) = (pc_of s)(t := p)" "users_cnt (goto t p s) = users_cnt s"
  "owner (goto t p s) = owner s" "bad_unlock (goto t p s) = bad_unlock s" "failures (goto t p s) = failures s"
  by (simp_all add: goto_def)

lemma unlock_simps [simp]:
  "pc_of (unlock_mutex grp t s) = pc_of s" "users_cnt (unlock_mutex grp t s) = users_cnt s"
  "owner (unlock_mutex grp t s) = (owner s)(grp t := None)" "failures (unlock_mutex grp t s) = failures s"
  by (simp_all add: unlock_mutex_def)

lemma n_inside_same:
  assumes "pc_of s' = (pc_of s)(t := p)" and "inside p = inside (pc_of s t)"
  shows "n_inside n s' = n_inside n s"
proof -
  have "{x. x < n \<and> inside (pc_of s' x)} = {x. x < n \<and> inside (pc_of s x)}"
    using assms by auto
  then show ?thesis
    by (simp add: n_inside_def)
qed

lemma n_inside_enter:
  assumes "pc_of s' = (pc_of s)(t := p)" and "t < n" and "inside p" and "\<not> inside (pc_of s t)"
  shows "n_inside n s' = Suc (n_inside n s)"
proof -
  have "{x. x < n \<and> inside (pc_of s' x)} = insert t {x. x < n \<and> inside (pc_of s x)}"
    using assms by auto
  then show ?thesis
    using assms(4) by (simp add: n_inside_def)
qed

lemma n_inside_leave:
  assumes "pc_of s' = (pc_of s)(t := p)" and "t < n" and "\<not> inside p" and "inside (pc_of s t)"
  shows "n_inside n s = Suc (n_inside n s')"
proof -
  have "{x. x < n \<and> inside (pc_of s x)} = insert t {x. x < n \<and> inside (pc_of s' x)}"
    using assms by auto
  then show ?thesis
    using assms(1,3) by (simp add: n_inside_def)
qed

lemma n_inside_le: "n_inside n s \<le> n"
  using card_mono [of "{..<n}" "{t. t < n \<and> inside (pc_of s t)}"] by (auto simp: n_inside_def)

lemma n_inside_move:
  assumes "pc_of s' = (pc_of s)(t := p)" and "t < n"
  shows "n_inside n s' + of_bool (inside (pc_of s t)) = n_inside n s + of_bool (inside p)"
proof -
  consider "inside p = inside (pc_of s t)" | "inside p" "\<not> inside (pc_of s t)" | "\<not> inside p" "inside (pc_of s t)"
    by blast
  then show ?thesis
  proof cases
    case 1
    then show ?thesis
      using n_inside_same [OF assms(1)] by simp
  next
    case 2
    then show ?thesis
      using n_inside_enter [OF assms] by simp
  next
    case 3
    then show ?thesis
      using n_inside_leave [OF assms] by simp
  qed
qed

definition counted :: "nat \<Rightarrow> threads \<Rightarrow> bool" where
  "counted n s = (users_cnt s = of_nat (n_inside n s + failures s))"

lemma counter_move:
  assumes "counted n s" and "pc_of s' = (pc_of s)(t := p)" and "t < n"
    and "users_cnt s' + of_bool (inside (pc_of s t)) + of_nat (failures s)
      = users_cnt s + of_bool (inside p) + of_nat (failures s')"
  shows "counted n s'"
  unfolding counted_def
proof (rule add_right_imp_eq)
  show "users_cnt s' + of_bool (inside (pc_of s t)) = of_nat (n_inside n s' + failures s') + of_bool (inside (pc_of s t))"
    using arg_cong [OF n_inside_move [OF assms(2,3)], where f = "of_nat :: nat \<Rightarrow> byte"] assms(1,4)
    by (simp add: counted_def algebra_simps)
qed

lemma counter_step:
  assumes "bstep grp n s s'" and "counted n s"
  shows "counted n s'"
  using assms(1)
proof (cases rule: bstep_cases)
  case (enter t)
  show ?thesis
    by (rule counter_move [OF assms(2), of s' t "Entered"]) (use enter in auto)
next
  case (test_first t)
  show ?thesis
    by (rule counter_move [OF assms(2), of s' t "if users_cnt s = 1 then Locking else Sending"]) (use test_first in auto)
next
  case (lock t)
  show ?thesis
    by (rule counter_move [OF assms(2), of s' t "Sending"]) (use lock in auto)
next
  case (abort t)
  show ?thesis
    by (rule counter_move [OF assms(2), of s' t "Aborted"]) (use abort in auto)
next
  case (leave t)
  show ?thesis
    by (rule counter_move [OF assms(2), of s' t "Left"]) (use leave in auto)
next
  case (test_last t)
  show ?thesis
    by (rule counter_move [OF assms(2), of s' t "Returned"]) (use test_last in auto)
next
  case (again t)
  show ?thesis
    by (rule counter_move [OF assms(2), of s' t "Start"]) (use again in auto)
qed

lemma counter: "breach grp n s \<Longrightarrow> counted n s"
proof (induction rule: breach.induct)
  case (step s s')
  show ?case
    by (rule counter_step [OF step.hyps(2) step.IH])
qed (simp add: init_threads_def n_inside_def counted_def)

lemma failures_mono: "(bstep grp n)\<^sup>*\<^sup>* s s' \<Longrightarrow> failures s \<le> failures s'"
proof (induction rule: rtranclp_induct)
  case (step y z)
  from step(2) have "failures y \<le> failures z"
    by (cases rule: bstep_cases) auto
  then show ?case
    using step(3) by simp
qed simp

lemma breach_steps: "(bstep grp n)\<^sup>*\<^sup>* s s' \<Longrightarrow> breach grp n s \<Longrightarrow> breach grp n s'"
  by (induction rule: rtranclp_induct) (auto intro: breach.step)

text \<open>As long as the counter has not wrapped around it does not come back to 0 after a failure.\<close>

lemma counter_pos:
  assumes "breach grp n s" and "0 < failures s" and "failures s + n < 256"
  shows "users_cnt s \<noteq> 0"
  using counter [OF assms(1)] n_inside_le [of n s] assms(2,3)
  by (simp add: counted_def word_unat_eq_iff unat_of_nat del: of_nat_add)

lemma owner_kept:
  assumes "breach grp n s" and "0 < failures s" and "failures s + n < 256" and "bstep grp n s s'"
    and "owner s c = Some x"
  shows "owner s' c = Some x"
  using assms(4) by (cases rule: bstep_cases) (use assms(5) counter_pos [OF assms(1-3)] in auto)

section \<open>A thread that nothing interrupts\<close>

text \<open>Its steps up to the loops, and from the loops to the end of the call.\<close>

lemma goto_goto [simp]: "goto t p (goto t q s) = goto t p s"
  by (simp add: goto_def)

lemma runs_to_loops:
  assumes "t < n" and "pc_of s t = Start" and "users_cnt s + 1 = 1 \<longrightarrow> owner s (grp t) = None"
  shows "(bstep grp n)\<^sup>*\<^sup>* s (goto t Sending (s\<lparr>users_cnt := users_cnt s + 1,
    owner := if users_cnt s + 1 = 1 then (owner s)(grp t \<mapsto> t) else owner s\<rparr>))"
proof -
  let ?s1 = "goto t Entered (s\<lparr>users_cnt := users_cnt s + 1\<rparr>)"
  let ?s2 = "goto t (if users_cnt s + 1 = 1 then Locking else Sending) (s\<lparr>users_cnt := users_cnt s + 1\<rparr>)"
  have "bstep grp n s ?s1"
    using enter [OF assms(1,2)] .
  moreover have "bstep grp n ?s1 ?s2"
    using test_first [OF assms(1), of ?s1 grp] by (simp add: goto_def)
  ultimately have s2: "(bstep grp n)\<^sup>*\<^sup>* s ?s2"
    by (meson r_into_rtranclp rtranclp.rtrancl_into_rtrancl)
  show ?thesis
  proof (cases "users_cnt s + 1 = 1")
    case True
    then have "bstep grp n ?s2 (goto t Sending (s\<lparr>users_cnt := users_cnt s + 1, owner := (owner s)(grp t \<mapsto> t)\<rparr>))"
      using lock [OF assms(1), of ?s2 grp] assms(3) by (simp add: goto_def)
    then show ?thesis
      using rtranclp.rtrancl_into_rtrancl [OF s2] True by simp
  next
    case False
    then show ?thesis
      using s2 by (simp add: goto_def)
  qed
qed

lemma runs_to_end:
  assumes "t < n" and "pc_of s t = Sending"
  shows "(bstep grp n)\<^sup>*\<^sup>* s (goto t Aborted (s\<lparr>failures := failures s + 1\<rparr>))"
    and "(bstep grp n)\<^sup>*\<^sup>* s (goto t Returned (if users_cnt s - 1 = 0
      then unlock_mutex grp t (s\<lparr>users_cnt := users_cnt s - 1\<rparr>) else s\<lparr>users_cnt := users_cnt s - 1\<rparr>))"
proof -
  show "(bstep grp n)\<^sup>*\<^sup>* s (goto t Aborted (s\<lparr>failures := failures s + 1\<rparr>))"
    using abort [OF assms] by blast
  let ?s1 = "goto t Left (s\<lparr>users_cnt := users_cnt s - 1\<rparr>)"
  have "bstep grp n s ?s1"
    using leave [OF assms] .
  moreover have "bstep grp n ?s1 (goto t Returned (if users_cnt ?s1 = 0 then unlock_mutex grp t ?s1 else ?s1))"
    by (rule test_last [OF assms(1)]) (simp add: goto_def)
  ultimately show "(bstep grp n)\<^sup>*\<^sup>* s (goto t Returned (if users_cnt s - 1 = 0
      then unlock_mutex grp t (s\<lparr>users_cnt := users_cnt s - 1\<rparr>) else s\<lparr>users_cnt := users_cnt s - 1\<rparr>))"
    by (simp add: goto_def unlock_mutex_def split: if_splits)
qed

section \<open>Properties\<close>

text \<open>
  C17. The counter counts: in every state that threads running broadcasts again and again can
  reach, it is the number of threads between the increment and the decrement plus the number
  of calls that have failed so far, modulo 256.
\<close>

theorem broadcast_counter:
  assumes "breach grp n s"
  shows "users_cnt s = of_nat (card {t. t < n \<and> pc_of s t \<in> {Entered, Locking, Sending}} + failures s)"
  using counter [OF assms] by (simp add: counted_def n_inside_def inside_def)

text \<open>Two threads on one composite, both past the increment before either tests the counter.\<close>

definition race :: threads where
  "race = goto 1 Sending (goto 0 Sending
     (goto 1 Entered ((goto 0 Entered (init_threads\<lparr>users_cnt := 1\<rparr>))\<lparr>users_cnt := 2\<rparr>)))"

lemma race_reach: "breach grp 2 race"
proof -
  let ?a = "goto 0 Entered (init_threads\<lparr>users_cnt := 1\<rparr>)"
  let ?b = "goto 1 Entered (?a\<lparr>users_cnt := 2\<rparr>)"
  have "bstep grp 2 init_threads ?a"
    using enter [of 0 2 init_threads grp] by (simp add: init_threads_def)
  then have "breach grp 2 ?a"
    by (rule step [OF init])
  moreover have "bstep grp 2 ?a ?b"
    using enter [of 1 2 ?a grp] by (simp add: init_threads_def)
  ultimately have "breach grp 2 ?b"
    by (rule step)
  moreover have "bstep grp 2 ?b (goto 0 Sending ?b)"
    using test_first [of 0 2 ?b grp] by (simp add: init_threads_def)
  ultimately have "breach grp 2 (goto 0 Sending ?b)"
    by (rule step)
  moreover have "bstep grp 2 (goto 0 Sending ?b) race"
    using test_first [of 1 2 "goto 0 Sending ?b" grp] by (simp add: init_threads_def race_def)
  ultimately show ?thesis
    by (rule step)
qed

theorem broadcast_counter_witness: "users_cnt race = of_nat (card {0::nat, 1})"
proof -
  have "{t. t < 2 \<and> pc_of race t \<in> {Entered, Locking, Sending}} = {0::nat, 1}"
    by (auto simp: race_def init_threads_def)
  then show ?thesis
    using broadcast_counter [OF race_reach] by (simp add: race_def init_threads_def)
qed

text \<open>
  C36. The counter does not protect the list: there are interleavings of two broadcasts of
  one user in which both send while nobody holds the user's mutex, and interleavings that go
  on to unlock a mutex that the unlocking thread does not hold.
\<close>

theorem broadcast_race:
  "breach (\<lambda>_. 0) 2 race \<and> pc_of race 0 = Sending \<and> pc_of race 1 = Sending \<and> owner race 0 = None
    \<and> (\<exists>s. breach (\<lambda>_. 0) 2 s \<and> bad_unlock s)"
proof (intro conjI)
  let ?c = "\<lambda>_::nat. 0::nat"
  show "breach ?c 2 race"
    by (rule race_reach)
  show "pc_of race 0 = Sending" "pc_of race 1 = Sending" "owner race 0 = None"
    by (simp_all add: race_def init_threads_def)
  let ?a = "goto 0 Left (race\<lparr>users_cnt := 1\<rparr>)"
  let ?b = "goto 1 Left (?a\<lparr>users_cnt := 0\<rparr>)"
  have "bstep ?c 2 race ?a"
    using leave [of 0 2 race ?c] by (simp add: race_def init_threads_def)
  then have "breach ?c 2 ?a"
    by (rule step [OF race_reach])
  moreover have "bstep ?c 2 ?a ?b"
    using leave [of 1 2 ?a ?c] by (simp add: race_def init_threads_def)
  ultimately have "breach ?c 2 ?b"
    by (rule step)
  moreover have "bstep ?c 2 ?b (goto 1 Returned (unlock_mutex ?c 1 ?b))"
    using test_last [of 1 2 ?b ?c] by (simp add: race_def init_threads_def)
  ultimately have "breach ?c 2 (goto 1 Returned (unlock_mutex ?c 1 ?b))"
    by (rule step)
  then show "\<exists>s. breach ?c 2 s \<and> bad_unlock s"
    by (rule_tac exI) (rule conjI, assumption, simp add: unlock_mutex_def race_def init_threads_def)
qed

text \<open>
  C37. A failed broadcast is for ever, up to the wrap-around of the counter: once a call has
  failed, whatever the threads do from then on, and however often they broadcast, a mutex that
  is locked stays locked by the same thread, as long as the failed calls and the threads
  together are fewer than 256. (\<open>wrapped_counter_unlocks\<close> shows that it may come free at 256.)
\<close>

theorem failed_broadcast_locks_forever:
  assumes "breach grp n s" and "0 < failures s" and "owner s c = Some x"
    and "(bstep grp n)\<^sup>*\<^sup>* s s'" and "failures s' + n < 256"
  shows "owner s' c = Some x"
  using assms(4,5)
proof (induction rule: rtranclp_induct)
  case (step y z)
  have "failures s \<le> failures y" "failures y \<le> failures z"
    using failures_mono [OF step(1)] failures_mono [OF r_into_rtranclp [of "bstep grp n", OF step(2)]] by simp_all
  then show ?case
    using owner_kept [OF breach_steps [OF step(1) assms(1)] _ _ step(2)] step(3,4) assms(2) by simp
qed (use assms(3) in simp)

text \<open>Thread 0 alone, after \<open>k\<close> calls of it that all failed; the first of them locked the mutex.\<close>

definition after_failures :: "nat \<Rightarrow> threads" where
  "after_failures k = \<lparr>pc_of = (\<lambda>_. Start), users_cnt = of_nat k, owner = [0 \<mapsto> 0], failures = k, bad_unlock = False\<rparr>"

lemma fails_once:
  assumes "t < n" and "pc_of s t = Start" and "users_cnt s + 1 = 1 \<longrightarrow> owner s (grp t) = None"
  shows "(bstep grp n)\<^sup>*\<^sup>* s (goto t Start (s\<lparr>users_cnt := users_cnt s + 1,
    owner := if users_cnt s + 1 = 1 then (owner s)(grp t \<mapsto> t) else owner s, failures := failures s + 1\<rparr>))"
proof -
  let ?m = "s\<lparr>users_cnt := users_cnt s + 1, owner := if users_cnt s + 1 = 1 then (owner s)(grp t \<mapsto> t) else owner s\<rparr>"
  have "(bstep grp n)\<^sup>*\<^sup>* s (goto t Aborted (goto t Sending ?m\<lparr>failures := failures (goto t Sending ?m) + 1\<rparr>))"
    by (rule rtranclp_trans [OF runs_to_loops [where grp = grp, OF assms] runs_to_end(1) [OF assms(1)]]) simp
  then show ?thesis
    by (rule rtranclp.rtrancl_into_rtrancl)
      (use again [OF assms(1), of "goto t Aborted (goto t Sending ?m\<lparr>failures := failures (goto t Sending ?m) + 1\<rparr>)" grp]
        in \<open>simp add: goto_def\<close>)
qed

lemma first_failure: "(bstep (\<lambda>_. 0) 2)\<^sup>*\<^sup>* init_threads (after_failures 1)"
proof -
  have "goto 0 Start (init_threads\<lparr>users_cnt := users_cnt init_threads + 1, owner :=
      if users_cnt init_threads + 1 = 1 then (owner init_threads)(0 \<mapsto> 0) else owner init_threads,
      failures := failures init_threads + 1\<rparr>) = after_failures 1"
    by (simp add: goto_def init_threads_def after_failures_def fun_eq_iff)
  then show ?thesis
    using fails_once [of 0 2 init_threads "\<lambda>_. 0"] by (simp add: init_threads_def)
qed

lemma next_failure:
  assumes "0 < k" and "k < 256"
  shows "(bstep (\<lambda>_. 0) 2)\<^sup>*\<^sup>* (after_failures k) (after_failures (Suc k))"
proof -
  have "(of_nat k :: byte) \<noteq> 0"
    using assms by (simp add: word_unat_eq_iff unat_of_nat)
  moreover have "goto 0 Start ((after_failures k)\<lparr>users_cnt := of_nat k + 1, owner := [0 \<mapsto> 0], failures := k + 1\<rparr>)
      = after_failures (Suc k)"
    by (simp add: goto_def after_failures_def fun_eq_iff add.commute)
  ultimately show ?thesis
    using fails_once [of 0 2 "after_failures k" "\<lambda>_. 0"] by (simp add: after_failures_def)
qed

lemma more_failures: "0 < j \<Longrightarrow> j + i \<le> 256 \<Longrightarrow> (bstep (\<lambda>_. 0) 2)\<^sup>*\<^sup>* (after_failures j) (after_failures (j + i))"
proof (induction i)
  case (Suc i)
  then show ?case
    using rtranclp_trans [OF Suc.IH next_failure [of "j + i"]] by simp
qed simp

lemma after_failures_reach: "0 < k \<Longrightarrow> k \<le> 256 \<Longrightarrow> breach (\<lambda>_. 0) 2 (after_failures k)"
  using rtranclp_trans [OF first_failure more_failures [of 1 "k - 1"]] by (intro breach_steps [OF _ init]) simp

theorem failed_broadcast_locks_forever_witness:
  "breach (\<lambda>_. 0) 2 (after_failures 200) \<and> failures (after_failures 200) = 200 \<and> owner (after_failures 200) 0 = Some 0"
proof -
  have "(bstep (\<lambda>_. 0) 2)\<^sup>*\<^sup>* (after_failures 1) (after_failures 200)"
    using more_failures [of 1 199] by simp
  moreover have "failures (after_failures k) = k" "owner (after_failures k) 0 = Some 0" for k
    by (simp_all add: after_failures_def)
  ultimately show ?thesis
    using failed_broadcast_locks_forever [OF after_failures_reach [of 1], of 0 0 "after_failures 200"] after_failures_reach [of 200]
    by simp
qed

text \<open>
  The bound is sharp: after 256 failed calls the counter is 0 again, and two calls that both
  enter before they test it leave without having locked the mutex; the second unlocks it.
\<close>

lemma wrapped_counter_unlocks:
  "\<exists>s. (bstep (\<lambda>_. 0) 2)\<^sup>*\<^sup>* (after_failures 256) s \<and> failures s = 256 \<and> owner s 0 = None \<and> bad_unlock s"
proof -
  let ?c = "\<lambda>_::nat. 0::nat"
  let ?a = "goto 1 Entered (goto 0 Entered ((after_failures 256)\<lparr>users_cnt := 1\<rparr>)\<lparr>users_cnt := 2\<rparr>)"
  let ?b = "goto 1 Sending (goto 0 Sending ?a)"
  let ?d = "goto 1 Left (goto 0 Left (?b\<lparr>users_cnt := 1\<rparr>)\<lparr>users_cnt := 0\<rparr>)"
  have zero: "(256 :: byte) = 0"
    by simp
  have wrapped: "after_failures 256 = \<lparr>pc_of = (\<lambda>_. Start), users_cnt = 0, owner = [0 \<mapsto> 0], failures = 256, bad_unlock = False\<rparr>"
    by (simp add: after_failures_def zero)
  have "bstep ?c 2 (after_failures 256) (goto 0 Entered ((after_failures 256)\<lparr>users_cnt := 1\<rparr>))"
    using enter [of 0 2 "after_failures 256" ?c] by (simp add: wrapped)
  moreover have "bstep ?c 2 (goto 0 Entered ((after_failures 256)\<lparr>users_cnt := 1\<rparr>)) ?a"
    using enter [of 1 2 "goto 0 Entered ((after_failures 256)\<lparr>users_cnt := 1\<rparr>)" ?c] by (simp add: wrapped)
  moreover have "bstep ?c 2 ?a (goto 0 Sending ?a)"
    using test_first [of 0 2 ?a ?c] by (simp add: wrapped)
  moreover have "bstep ?c 2 (goto 0 Sending ?a) ?b"
    using test_first [of 1 2 "goto 0 Sending ?a" ?c] by (simp add: wrapped)
  moreover have "bstep ?c 2 ?b (goto 0 Left (?b\<lparr>users_cnt := 1\<rparr>))"
    using leave [of 0 2 ?b ?c] by (simp add: wrapped)
  moreover have "bstep ?c 2 (goto 0 Left (?b\<lparr>users_cnt := 1\<rparr>)) ?d"
    using leave [of 1 2 "goto 0 Left (?b\<lparr>users_cnt := 1\<rparr>)" ?c] by (simp add: wrapped)
  moreover have "bstep ?c 2 ?d (goto 1 Returned (unlock_mutex ?c 1 ?d))"
    using test_last [of 1 2 ?d ?c] by (simp add: wrapped)
  ultimately have "(bstep ?c 2)\<^sup>*\<^sup>* (after_failures 256) (goto 1 Returned (unlock_mutex ?c 1 ?d))"
    by (meson converse_rtranclp_into_rtranclp rtranclp.rtrancl_refl)
  then show ?thesis
    by (rule_tac exI, rule_tac conjI, assumption) (simp add: unlock_mutex_def wrapped)
qed

end
