(* ===== verification/Inotify.thy ===== *)
theory Inotify
  imports Prelude Commands "HOL-Library.Sublist"
begin

text \<open>
  The watcher of the synchronised directory: \<^verbatim>\<open>client/inotify.hpp\<close> and
  \<^verbatim>\<open>inotify.cpp\<close>. The first part decodes the buffer of events the kernel fills, the
  second part is the loop, the pauses that other threads ask for, and the kernel's queue as
  a step relation.
\<close>

section \<open>Events\<close>

text \<open>
  The layout of \<^verbatim>\<open>struct inotify_event\<close>: the watch descriptor, the mask, the cookie and
  the length of the name, four bytes each, then the name, padded with zeros. The masks are
  those of the Linux interface.
\<close>

definition kEventSize :: nat where
  "kEventSize = 16"

definition kMaxEvents :: nat where
  "kMaxEvents = 10"

definition kBufferLength :: nat where
  "kBufferLength = kMaxEvents * (kEventSize + 4096)"

definition IN_CLOSE_WRITE :: "32 word" where "IN_CLOSE_WRITE = 0x8"

definition IN_MOVED_FROM :: "32 word" where "IN_MOVED_FROM = 0x40"

definition IN_MOVED_TO :: "32 word" where "IN_MOVED_TO = 0x80"

definition IN_DELETE :: "32 word" where "IN_DELETE = 0x200"

definition IN_ISDIR :: "32 word" where "IN_ISDIR = 0x40000000"

unbundle bit_operations_syntax

type_synonym action = "Command \<times> string"

definition bytes_at :: "byte list \<Rightarrow> nat \<Rightarrow> nat \<Rightarrow> byte list" where
  "bytes_at buf i n = take n (drop i buf)"

definition ev_mask :: "byte list \<Rightarrow> nat \<Rightarrow> 32 word" where
  "ev_mask buf i = of_nat (le_val (bytes_at buf (i + 4) 4))"

definition ev_len :: "byte list \<Rightarrow> nat \<Rightarrow> nat" where
  "ev_len buf i = le_val (bytes_at buf (i + 12) 4)"

text \<open>\<^verbatim>\<open>event.name\<close> as a C string.\<close>

definition ev_name :: "byte list \<Rightarrow> nat \<Rightarrow> string" where
  "ev_name buf i = map (\<lambda>b. char_of (unat b)) (takeWhile (\<lambda>b. b \<noteq> 0) (drop (i + kEventSize) buf))"

definition classify :: "32 word \<Rightarrow> string \<Rightarrow> action list" where
  "classify m name =
     (if m AND (IN_CLOSE_WRITE OR IN_MOVED_TO) \<noteq> 0
      then (if m AND IN_ISDIR = 0 then [(kUpload, name)] else [])
      else if m AND (IN_DELETE OR IN_MOVED_FROM) \<noteq> 0
      then (if m AND IN_ISDIR = 0 then [(kDelete, name)] else [])
      else [])"

text \<open>The inner loop of \<^verbatim>\<open>MainLoop\<close> over the buffer, from index \<open>i\<close> on.\<close>

function parse_events :: "byte list \<Rightarrow> nat \<Rightarrow> action list" where
  "parse_events buf i =
     (if i < length buf
      then (if ev_len buf i \<noteq> 0 then classify (ev_mask buf i) (ev_name buf i) else [])
           @ parse_events buf (i + kEventSize + ev_len buf i)
      else [])"
  by pat_completeness auto
termination
  by (relation "measure (\<lambda>(buf, i). length buf - i)") (auto simp: kEventSize_def)

declare parse_events.simps [simp del]

section \<open>What the kernel writes\<close>

record event =
  e_wd :: nat
  e_mask :: "32 word"
  e_cookie :: nat
  e_name :: string
  e_pad :: nat       \<comment> \<open>zeros after the name\<close>

definition encode_event :: "event \<Rightarrow> byte list" where
  "encode_event e = le_bytes 4 (e_wd e) @ le_bytes 4 (unat (e_mask e)) @ le_bytes 4 (e_cookie e)
     @ le_bytes 4 (length (e_name e) + e_pad e)
     @ map (\<lambda>c. of_nat (of_char c)) (e_name e) @ replicate (e_pad e) 0"

text \<open>A name has no NUL and is terminated by at least one; an event without name has no bytes after its header.\<close>

definition event_ok :: "event \<Rightarrow> bool" where
  "event_ok e = (CHR 0x00 \<notin> set (e_name e) \<and> (e_name e \<noteq> [] \<longrightarrow> 0 < e_pad e)
     \<and> length (e_name e) + e_pad e < 2 ^ 32)"

definition event_actions :: "event \<Rightarrow> action list" where
  "event_actions e = (if length (e_name e) + e_pad e = 0 then [] else classify (e_mask e) (e_name e))"

lemma length_encode: "length (encode_event e) = kEventSize + length (e_name e) + e_pad e"
  by (simp add: encode_event_def kEventSize_def)

lemma bytes_at_append: "length xs = i \<Longrightarrow> length ys = n \<Longrightarrow> bytes_at (xs @ ys @ zs) i n = ys"
  by (simp add: bytes_at_def)

lemma name_bytes: "map ((\<lambda>b. char_of (unat b)) \<circ> (\<lambda>c. of_nat (of_char c) :: byte)) s = s"
  by (induction s) (simp_all add: unat_of_nat)

lemma name_zero: "(of_nat (of_char c) :: byte) = 0 \<longleftrightarrow> c = CHR 0x00"
proof -
  have "(of_nat (of_char c) :: byte) = 0 \<longleftrightarrow> (of_char c :: nat) = 0"
    using nat_of_char_less_256 [of c] by (simp add: word_unat_eq_iff unat_of_nat)
  also have "\<dots> \<longleftrightarrow> c = CHR 0x00"
    using of_char_eq_iff [of c "CHR 0x00", where 'a = nat] by simp
  finally show ?thesis .
qed

lemma takeWhile_name:
  assumes "CHR 0x00 \<notin> set s" and "0 < k"
  shows "takeWhile (\<lambda>b. b \<noteq> 0) (map (\<lambda>c. of_nat (of_char c) :: byte) s @ replicate k 0 @ zs)
    = map (\<lambda>c. of_nat (of_char c)) s"
proof -
  obtain j where "k = Suc j"
    using assms(2) gr0_implies_Suc by blast
  then show ?thesis
    using assms(1) by (subst takeWhile_append2) (auto simp: name_zero)
qed

lemma event_fields:
  assumes "event_ok e"
  shows "ev_mask (xs @ encode_event e @ zs) (length xs) = e_mask e"
    and "ev_len (xs @ encode_event e @ zs) (length xs) = length (e_name e) + e_pad e"
    and "e_name e \<noteq> [] \<or> 0 < e_pad e \<Longrightarrow> ev_name (xs @ encode_event e @ zs) (length xs) = e_name e"
proof -
  let ?w = "le_bytes 4 (e_wd e)" and ?m = "le_bytes 4 (unat (e_mask e))" and ?c = "le_bytes 4 (e_cookie e)"
  let ?l = "le_bytes 4 (length (e_name e) + e_pad e)"
  let ?n = "map (\<lambda>c. of_nat (of_char c) :: byte) (e_name e)"
  have "bytes_at (xs @ encode_event e @ zs) (length xs + 4) 4 = ?m"
    using bytes_at_append [of "xs @ ?w" "length xs + 4" ?m 4] by (simp add: encode_event_def)
  moreover have "unat (e_mask e) < 256 ^ 4"
    using unsigned_less [of "e_mask e"] by simp
  ultimately show "ev_mask (xs @ encode_event e @ zs) (length xs) = e_mask e"
    by (simp add: ev_mask_def le_val_bytes)
  have "bytes_at (xs @ encode_event e @ zs) (length xs + 12) 4 = ?l"
    using bytes_at_append [of "xs @ ?w @ ?m @ ?c" "length xs + 12" ?l 4] by (simp add: encode_event_def)
  then show "ev_len (xs @ encode_event e @ zs) (length xs) = length (e_name e) + e_pad e"
    using assms by (simp add: ev_len_def le_val_bytes event_ok_def)
  assume "e_name e \<noteq> [] \<or> 0 < e_pad e"
  then have pad: "0 < e_pad e"
    using assms by (auto simp: event_ok_def)
  have at: "drop (length xs + kEventSize) (xs @ encode_event e @ zs) = ?n @ replicate (e_pad e) 0 @ zs"
    by (simp add: encode_event_def kEventSize_def)
  have "CHR 0x00 \<notin> set (e_name e)"
    using assms by (simp add: event_ok_def)
  then have "ev_name (xs @ encode_event e @ zs) (length xs) = map (\<lambda>b. char_of (unat b)) ?n"
    unfolding ev_name_def at by (subst takeWhile_name [OF _ pad]) simp_all
  then show "ev_name (xs @ encode_event e @ zs) (length xs) = e_name e"
    by (simp add: name_bytes)
qed

lemma parse_event:
  assumes "event_ok e"
  shows "parse_events (xs @ encode_event e @ zs) (length xs)
    = event_actions e @ parse_events ((xs @ encode_event e) @ zs) (length (xs @ encode_event e))"
proof -
  have "length xs < length (xs @ encode_event e @ zs)"
    by (simp add: length_encode kEventSize_def)
  then show ?thesis
    using event_fields [OF assms, of xs zs] length_encode [of e]
    by (subst parse_events.simps) (auto simp: event_actions_def add.assoc)
qed

lemma parse_encoded_from:
  "list_all event_ok es \<Longrightarrow>
    parse_events (xs @ concat (map encode_event es)) (length xs) = concat (map event_actions es)"
proof (induction es arbitrary: xs)
  case Nil
  then show ?case
    by (simp add: parse_events.simps)
next
  case (Cons e es)
  then show ?case
    using parse_event [of e xs "concat (map encode_event es)"] Cons.IH [of "xs @ encode_event e"]
    by simp
qed

section \<open>The loop and its pauses\<close>

text \<open>
  \<open>queue\<close> is what the kernel holds for the descriptor, \<open>vector\<close> the collection that
  \<^verbatim>\<open>SyncFromClient\<close> takes from, \<open>history\<close> every event there ever was. A pause drops the
  events that are read while it lasts.
\<close>

record watcher =
  queue :: "event list"
  batch :: "event list option"   \<comment> \<open>read, but \<^verbatim>\<open>pause_\<close> not tested yet\<close>
  pause :: bool
  vector :: "action list"
  taken :: "action list"         \<comment> \<open>handed to \<^verbatim>\<open>SyncFromClient\<close>\<close>
  history :: "event list"

text \<open>The constructor, then \<^verbatim>\<open>Start\<close>.\<close>

definition Inotify :: watcher where
  "Inotify = \<lparr>queue = [], batch = None, pause = True, vector = [], taken = [], history = []\<rparr>"

definition Watch_Start :: "watcher \<Rightarrow> watcher" where
  "Watch_Start w = w\<lparr>pause := False\<rparr>"

definition Pause :: "watcher \<Rightarrow> watcher" where
  "Pause w = w\<lparr>pause := True\<rparr>"

definition Resume :: "watcher \<Rightarrow> watcher" where
  "Resume w = w\<lparr>pause := False\<rparr>"

definition HasActions :: "watcher \<Rightarrow> bool" where
  "HasActions w = (vector w \<noteq> [])"

definition fs_event :: "event \<Rightarrow> watcher \<Rightarrow> watcher" where
  "fs_event e w = w\<lparr>queue := queue w @ [e], history := history w @ [e]\<rparr>"

definition read_batch :: "nat \<Rightarrow> watcher \<Rightarrow> watcher" where
  "read_batch n w = w\<lparr>batch := Some (take n (queue w)), queue := drop n (queue w)\<rparr>"

definition store_batch :: "event list \<Rightarrow> watcher \<Rightarrow> watcher" where
  "store_batch es w =
     (if pause w then w\<lparr>batch := None\<rparr>
      else w\<lparr>batch := None, vector := vector w @ parse_events (concat (map encode_event es)) 0\<rparr>)"

definition take_actions :: "watcher \<Rightarrow> watcher" where
  "take_actions w = w\<lparr>taken := taken w @ vector w, vector := []\<rparr>"

inductive wstep :: "watcher \<Rightarrow> watcher \<Rightarrow> bool" where
  ev: "event_ok e \<Longrightarrow> wstep w (fs_event e w)"
| pause: "wstep w (Pause w)"
| resume: "wstep w (Resume w)"
| fetch: "batch w = None \<Longrightarrow> wstep w (read_batch n w)"
| store: "batch w = Some es \<Longrightarrow> wstep w (store_batch es w)"
| sync: "wstep w (take_actions w)"

inductive wreach :: "watcher \<Rightarrow> bool" where
  init: "wreach (Watch_Start Inotify)"
| step: "wreach w \<Longrightarrow> wstep w w' \<Longrightarrow> wreach w'"

lemma wreach_steps: "wstep\<^sup>*\<^sup>* w w' \<Longrightarrow> wreach w \<Longrightarrow> wreach w'"
  by (induction rule: rtranclp_induct) (auto intro: step)

definition unread_events :: "watcher \<Rightarrow> event list" where
  "unread_events w = (case batch w of None \<Rightarrow> [] | Some es \<Rightarrow> es) @ queue w"

text \<open>Nothing is invented or reordered: what was stored comes from events already read, in order.\<close>

definition watch_inv :: "watcher \<Rightarrow> bool" where
  "watch_inv w = (list_all event_ok (history w)
     \<and> (\<exists>done. history w = done @ unread_events w
          \<and> subseq (taken w @ vector w) (concat (map event_actions done))))"

lemma watch_inv_kept:
  assumes "watch_inv w" and "unread_events w' = unread_events w @ es" and "history w' = history w @ es"
    and "list_all event_ok es" and "taken w' @ vector w' = taken w @ vector w"
  shows "watch_inv w'"
proof -
  obtain dn where "history w = dn @ unread_events w" "list_all event_ok (history w)"
    "subseq (taken w @ vector w) (concat (map event_actions dn))"
    using assms(1) by (auto simp: watch_inv_def)
  then show ?thesis
    unfolding watch_inv_def by (intro conjI exI [of _ dn]) (simp_all add: assms)
qed

lemma watch_inv_store:
  assumes "watch_inv w" and "unread_events w = es @ queue w"
  shows "watch_inv (store_batch es w)"
proof -
  obtain dn where dn: "history w = dn @ unread_events w" and ok: "list_all event_ok (history w)"
    and sub: "subseq (taken w @ vector w) (concat (map event_actions dn))"
    using assms(1) by (auto simp: watch_inv_def)
  let ?new = "concat (map event_actions es)"
  have hist: "history w = (dn @ es) @ queue w"
    using dn assms(2) by simp
  then have "parse_events (concat (map encode_event es)) 0 = ?new"
    using ok parse_encoded_from [of es "[]"] by simp
  moreover have "subseq (taken w @ vector w @ ?new) (concat (map event_actions (dn @ es)))"
    using list_emb_append_mono [OF sub, of ?new ?new] by simp
  moreover have "subseq (taken w @ vector w) (concat (map event_actions (dn @ es)))"
    using subseq_rev_drop_many [OF sub] by simp
  ultimately show ?thesis
    using ok hist assms(2) unfolding watch_inv_def
    by (intro conjI exI [of _ "dn @ es"]) (auto simp: store_batch_def unread_events_def)
qed

lemmas watch_steps = fs_event_def Pause_def Resume_def read_batch_def take_actions_def unread_events_def

lemma watch_inv_step:
  assumes "wstep w w'" and "watch_inv w"
  shows "watch_inv w'"
  using assms(1)
proof cases
  case (ev e)
  then show ?thesis
    by (intro watch_inv_kept [OF assms(2), of _ "[e]"]) (simp_all add: watch_steps)
next
  case (store es)
  then show ?thesis
    using watch_inv_store [OF assms(2), of es] by (simp add: unread_events_def)
qed (rule watch_inv_kept [OF assms(2), of _ "[]"]; simp add: watch_steps)+

lemma wreach_inv: "wreach w \<Longrightarrow> watch_inv w"
proof (induction rule: wreach.induct)
  case (step w w')
  show ?case
    by (rule watch_inv_step [OF step.hyps(2) step.IH])
qed (simp add: Watch_Start_def Inotify_def watch_inv_def unread_events_def)

section \<open>Properties\<close>

text \<open>
  The buffer is decoded as the kernel encodes it: for any sequence of events the loop
  finds each of them at its place and appends an upload for a file that was written or moved
  in, a deletion for a file that was deleted or moved out, and nothing for directories and
  other events.
\<close>

theorem parse_encoded:
  assumes "list_all event_ok es"
  shows "parse_events (concat (map encode_event es)) 0 = concat (map (\<lambda>e.
      if length (e_name e) + e_pad e = 0 then [] else
      if e_mask e AND (IN_CLOSE_WRITE OR IN_MOVED_TO) \<noteq> 0 then
        (if e_mask e AND IN_ISDIR = 0 then [(kUpload, e_name e)] else [])
      else if e_mask e AND (IN_DELETE OR IN_MOVED_FROM) \<noteq> 0 then
        (if e_mask e AND IN_ISDIR = 0 then [(kDelete, e_name e)] else [])
      else []) es)"
proof -
  have "event_actions = (\<lambda>e. if length (e_name e) + e_pad e = 0 then [] else
      if e_mask e AND (IN_CLOSE_WRITE OR IN_MOVED_TO) \<noteq> 0 then
        (if e_mask e AND IN_ISDIR = 0 then [(kUpload, e_name e)] else [])
      else if e_mask e AND (IN_DELETE OR IN_MOVED_FROM) \<noteq> 0 then
        (if e_mask e AND IN_ISDIR = 0 then [(kDelete, e_name e)] else [])
      else [])"
    by (simp add: fun_eq_iff event_actions_def classify_def)
  then show ?thesis
    using parse_encoded_from [OF assms, of "[]"] by simp
qed

definition written :: "string \<Rightarrow> event" where
  "written f = \<lparr>e_wd = 1, e_mask = IN_CLOSE_WRITE, e_cookie = 0, e_name = f, e_pad = 16 - length f\<rparr>"

theorem parse_encoded_witness:
  "parse_events (concat (map encode_event [written ''a'', (written ''b'')\<lparr>e_mask := IN_DELETE\<rparr>])) 0
    = [(kUpload, ''a''), (kDelete, ''b'')]"
  using parse_encoded [of "[written ''a'', (written ''b'')\<lparr>e_mask := IN_DELETE\<rparr>]"]
  by (simp add: written_def event_ok_def IN_CLOSE_WRITE_def IN_MOVED_TO_def IN_DELETE_def
      IN_MOVED_FROM_def IN_ISDIR_def)

text \<open>
  C28. The watcher reports only what happened: in every reachable state, what it has stored or
  handed on is a subsequence of the actions of the events there were, in their order.
\<close>

theorem watcher_reports_events:
  assumes "wreach w"
  shows "subseq (taken w @ vector w) (concat (map event_actions (history w)))"
proof -
  obtain dn where "history w = dn @ unread_events w"
    "subseq (taken w @ vector w) (concat (map event_actions dn))"
    using wreach_inv [OF assms] by (auto simp: watch_inv_def)
  then show ?thesis
    by (simp add: subseq_rev_drop_many)
qed

definition start_w :: watcher where
  "start_w = Watch_Start Inotify"

definition read_all :: "watcher \<Rightarrow> watcher" where
  "read_all w = store_batch (queue w) (read_batch (length (queue w)) w)"

lemma read_all_steps: "batch w = None \<Longrightarrow> wreach w \<Longrightarrow> wreach (read_all w)"
  unfolding read_all_def
  by (rule step [OF step, OF _ fetch store]) (simp_all add: read_batch_def)

lemma written_ok: "length f < 16 \<Longrightarrow> CHR 0x00 \<notin> set f \<Longrightarrow> event_ok (written f)"
  by (simp add: written_def event_ok_def)

lemma start_reach: "wreach start_w"
  unfolding start_w_def by (rule init)

lemma read_all_vector:
  assumes "\<not> pause w" and "list_all event_ok (queue w)"
  shows "vector (read_all w) = vector w @ concat (map event_actions (queue w))"
  using assms parse_encoded_from [of "queue w" "[]"]
  by (simp add: read_all_def store_batch_def read_batch_def)

theorem watcher_reports_events_witness:
  "subseq (vector (read_all (fs_event (written ''a'') start_w))) (concat (map event_actions [written ''a'']))"
proof -
  have "wreach (fs_event (written ''a'') start_w)"
    by (rule step [OF start_reach ev]) (simp add: written_ok)
  then have "wreach (read_all (fs_event (written ''a'') start_w))"
    by (rule read_all_steps [rotated]) (simp add: start_w_def fs_event_def Watch_Start_def Inotify_def)
  from watcher_reports_events [OF this] show ?thesis
    by (simp add: read_all_def store_batch_def read_batch_def fs_event_def start_w_def Watch_Start_def Inotify_def)
qed

text \<open>
  Pausing the watcher around the client's own change does neither keep that change out
  nor keep other changes in: there is a run in which the change, made between a pause and a
  resumption, is reported as an upload because it is read after the resumption, and a run in
  which a file of the user's is written before the pause, read during it, and never reported.
\<close>

theorem pause_echoes_and_loses:
  "(\<exists>w. wreach w \<and> w = read_all (Resume (fs_event (written ''own'') (Pause start_w)))
      \<and> vector w = [(kUpload, ''own'')])
   \<and> (\<exists>w. wreach w \<and> w = Resume (read_all (Pause (fs_event (written ''user'') start_w)))
      \<and> history w = [written ''user''] \<and> unread_events w = [] \<and> vector w = [] \<and> taken w = [])"
proof (intro conjI exI)
  let ?a = "Resume (fs_event (written ''own'') (Pause start_w))"
  have "wreach (Pause start_w)"
    by (rule step [OF start_reach pause])
  then have "wreach (fs_event (written ''own'') (Pause start_w))"
    by (rule step [OF _ ev]) (simp add: written_ok)
  then have "wreach ?a"
    by (rule step [OF _ resume])
  then show "wreach (read_all ?a)"
    by (rule read_all_steps [rotated])
      (simp add: start_w_def fs_event_def Watch_Start_def Inotify_def Pause_def Resume_def)
  have q: "queue ?a = [written ''own'']" "vector ?a = []" "\<not> watcher.pause ?a"
    by (simp_all add: start_w_def fs_event_def Watch_Start_def Inotify_def Pause_def Resume_def)
  have "event_actions (written ''own'') = [(kUpload, ''own'')]"
    by (simp add: event_actions_def classify_def written_def IN_CLOSE_WRITE_def IN_MOVED_TO_def IN_ISDIR_def)
  then show "vector (read_all ?a) = [(kUpload, ''own'')]"
    using read_all_vector [of ?a] q by (simp add: written_ok)
next
  let ?b = "Pause (fs_event (written ''user'') start_w)"
  have "wreach (fs_event (written ''user'') start_w)"
    by (rule step [OF start_reach ev]) (simp add: written_ok)
  then have "wreach ?b"
    by (rule step [OF _ pause])
  then have "wreach (read_all ?b)"
    by (rule read_all_steps [rotated])
      (simp add: start_w_def fs_event_def Watch_Start_def Inotify_def Pause_def)
  then show "wreach (Resume (read_all ?b))"
    by (rule step [OF _ resume])
  show "history (Resume (read_all ?b)) = [written ''user'']" "unread_events (Resume (read_all ?b)) = []"
    "vector (Resume (read_all ?b)) = []" "taken (Resume (read_all ?b)) = []"
    by (simp_all add: read_all_def store_batch_def read_batch_def start_w_def fs_event_def Watch_Start_def
        Inotify_def Pause_def Resume_def unread_events_def)
qed simp_all

section \<open>Descriptors\<close>

text \<open>
  The two numbers the object keeps: \<^verbatim>\<open>fd_\<close> is a file descriptor, \<^verbatim>\<open>wd_\<close> the
  number of a watch within it, counted from 1 by the kernel. The constructor and
  \<^verbatim>\<open>Start\<close> from the results of their system calls (\<open>Inl\<close> is the exception), and the
  destructor, with the open descriptors of the process.
\<close>

record watch_ids =
  fd :: int
  wd :: int

datatype inotify_exn = InotifyCreate | InotifyWatch

definition Inotify_open :: "int \<Rightarrow> int list \<Rightarrow> (inotify_exn + watch_ids) \<times> int list" where
  "Inotify_open r opened =
     (if r = -1 then (Inl InotifyCreate, opened) else (Inr \<lparr>fd = r, wd = -1\<rparr>, r # opened))"

definition Inotify_add_watch :: "int \<Rightarrow> watch_ids \<Rightarrow> inotify_exn + watch_ids" where
  "Inotify_add_watch r i = (if r = -1 then Inl InotifyWatch else Inr (i\<lparr>wd := r\<rparr>))"

definition Inotify_close :: "watch_ids \<Rightarrow> int list \<Rightarrow> int list" where
  "Inotify_close i opened = removeAll (fd i) (removeAll (wd i) opened)"

text \<open>
  The destructor of the watcher closes a descriptor that is not its own: it passes the
  number of the watch to \<^verbatim>\<open>close\<close>, so of the descriptors that were open before the
  watcher was created the one with this number is lost, the standard output for the first
  watch of a process.
\<close>

theorem watcher_closes_foreign_descriptor:
  assumes "Inotify_open r opened = (Inr i, opened1)" and "r \<notin> set opened"
    and "Inotify_add_watch w i = Inr i1"
  shows "set (Inotify_close i1 opened1) = set opened - {w}"
  using assms by (auto simp: Inotify_open_def Inotify_add_watch_def Inotify_close_def split: if_splits)

theorem watcher_closes_foreign_descriptor_witness:
  "set (Inotify_close \<lparr>fd = 3, wd = 1\<rparr> [3, 0, 1, 2]) = {0, 1, 2} - {1}"
  using watcher_closes_foreign_descriptor [of 3 "[0, 1, 2]" "\<lparr>fd = 3, wd = -1\<rparr>" "[3, 0, 1, 2]" 1 "\<lparr>fd = 3, wd = 1\<rparr>"]
  by (simp add: Inotify_open_def Inotify_add_watch_def)

end
