(* ===== verification/Client.thy ===== *)
theory Client
  imports Prelude Commands FileSystem Exchange Layout Replica ClientHandler Inotify
begin

text \<open>
  The client: \<^verbatim>\<open>client/client.hpp\<close> and \<^verbatim>\<open>client.cpp\<close>. Its state is three
  exchanges, one per connection, the list of servers, and the watcher of the synchronised
  directory; the file system is passed along. \<open>None\<close> is a call that never returns or a
  process that ends, \<open>Inl\<close> an exception that leaves the call.
\<close>

section \<open>State\<close>

record client =
  c_user :: string
  payload_fe :: fexch
  client_fe :: fexch
  server_fe :: fexch
  c_servers :: string
  watch :: watcher

definition c_SyncDirPath :: "client \<Rightarrow> string" where
  "c_SyncDirPath c = SyncDirWithPrefix (c_user c)"

section \<open>Commands of the user\<close>

definition SendUsername :: "codec \<Rightarrow> client \<Rightarrow> (bool \<times> client)" where
  "SendUsername C c =
     (let (ok, s) = save (enc_str C (c_user c)) (strm (payload_fe c));
          s1 = (if ok then stream_flush s else s)
      in (ok, c\<lparr>payload_fe := (payload_fe c)\<lparr>strm := s1\<rparr>\<rparr>))"

text \<open>
  \<^verbatim>\<open>Upload\<close>: the file is sent, then copied into the directory with the watcher paused;
  an exception of the copy skips the resumption.
\<close>

definition Client_Upload :: "codec \<Rightarrow> string \<Rightarrow> client \<Rightarrow> fsys \<Rightarrow> (bool \<times> client \<times> fsys) option" where
  "Client_Upload C path c fs =
     (let dest = path_append (c_SyncDirPath c) (filename path) in
      case SendCommand C kUpload (payload_fe c) of
        None \<Rightarrow> None
      | Some x1 \<Rightarrow>
          (case SendPath C (SetPath dest x1) of
             (False, x2) \<Rightarrow> Some (False, c\<lparr>payload_fe := x2\<rparr>, fs)
           | (True, x2) \<Rightarrow>
               (case Send C fs (SetPath path x2) of
                  (False, x3) \<Rightarrow> Some (False, c\<lparr>payload_fe := x3\<rparr>, fs)
                | (True, x3) \<Rightarrow>
                    (let c1 = c\<lparr>payload_fe := x3, watch := Pause (watch c)\<rparr> in
                     case copy_file fs path dest of
                       Inl _ \<Rightarrow> Some (False, c1, fs)
                     | Inr fs' \<Rightarrow> Some (True, c1\<lparr>watch := Resume (watch c1)\<rparr>, fs')))))"

definition Client_Delete :: "codec \<Rightarrow> string \<Rightarrow> client \<Rightarrow> fsys \<Rightarrow> (bool \<times> client \<times> fsys) option" where
  "Client_Delete C path c fs = (case SendCommand C kDelete (payload_fe c) of
     None \<Rightarrow> None
   | Some x1 \<Rightarrow>
       (case SendPath C (SetPath (path_append (c_SyncDirPath c) (filename path)) x1) of
          (False, x2) \<Rightarrow> Some (False, c\<lparr>payload_fe := x2\<rparr>, fs)
        | (True, x2) \<Rightarrow>
            (let c1 = c\<lparr>payload_fe := x2, watch := Pause (watch c)\<rparr> in
             case fs_remove fs (xpath x2) of
               Inl _ \<Rightarrow> Some (False, c1, fs)
             | Inr (_, fs') \<Rightarrow> Some (True, c1\<lparr>watch := Resume (watch c1)\<rparr>, fs'))))"

definition Client_Download :: "codec \<Rightarrow> string \<Rightarrow> client \<Rightarrow> fsys \<Rightarrow> (bool \<times> client \<times> fsys) option" where
  "Client_Download C file_name c fs = (case SendCommand C kDownload (payload_fe c) of
     None \<Rightarrow> None
   | Some x1 \<Rightarrow>
       (case SendPath C (SetPath (path_append (c_SyncDirPath c) file_name) x1) of
          (False, x2) \<Rightarrow> Some (False, c\<lparr>payload_fe := x2\<rparr>, fs)
        | (True, x2) \<Rightarrow>
            (case ReceiveCommand C (Flush x2) of
               (Inl _, x3) \<Rightarrow> Some (False, c\<lparr>payload_fe := x3\<rparr>, fs)
             | (Inr w, x3) \<Rightarrow>
                 (if w = Cmd kError then Some (False, c\<lparr>payload_fe := x3\<rparr>, fs)
                  else case Receive C fs (SetPath file_name x3) of
                      None \<Rightarrow> None
                    | Some (ok, x4, fs') \<Rightarrow> Some (ok, c\<lparr>payload_fe := x4\<rparr>, fs')))))"

text \<open>\<^verbatim>\<open>GetSyncDir\<close>: the loop until \<^verbatim>\<open>kExit\<close>, and what precedes it.\<close>

partial_function (option) receive_entries :: "codec \<Rightarrow> fexch \<Rightarrow> fsys \<Rightarrow> (bool \<times> fexch \<times> fsys) option" where
  "receive_entries C x fs =
     (let r = ReceiveCommand C x
      in if fst r = Inr (Cmd kSuccess)
         then (let p = ReceivePath C (snd r)
               in if \<not> fst p then Some (False, snd p, fs)
                  else case Receive C fs (snd p) of
                      None \<Rightarrow> None
                    | Some t \<Rightarrow> (if \<not> fst t then Some (False, fst (snd t), snd (snd t))
                                 else receive_entries C (fst (snd t)) (snd (snd t))))
         else Some (fst r = Inr (Cmd kExit), snd r, fs))"

declare receive_entries.simps [code]

definition Client_GetSyncDir :: "codec \<Rightarrow> client \<Rightarrow> fsys \<Rightarrow> ((int + bool) \<times> client \<times> fsys) option" where
  "Client_GetSyncDir C c fs =
     (case (if exists_path fs (c_SyncDirPath c) then Inr (False, fs) else create_directory fs (c_SyncDirPath c)) of
        Inl e \<Rightarrow> Some (Inl e, c, fs)
      | Inr (_, fs1) \<Rightarrow>
          (case RemoveAllFromDirectory fs1 (c_SyncDirPath c) of
             Inl e \<Rightarrow> Some (Inl e, c, fs1)
           | Inr fs2 \<Rightarrow>
               (case receive_entries C (payload_fe c) fs2 of
                  None \<Rightarrow> None
                | Some (ok, x, fs3) \<Rightarrow> Some (Inr ok, c\<lparr>payload_fe := x\<rparr>, fs3))))"

definition Client_Exit :: "codec \<Rightarrow> client \<Rightarrow> client option" where
  "Client_Exit C c = (case SendCommand C kExit (client_fe c) of
     None \<Rightarrow> None
   | Some x \<Rightarrow>
       (case SendCommand C kExit (payload_fe c) of
          None \<Rightarrow> None
        | Some y \<Rightarrow> Some (c\<lparr>client_fe := Flush x, payload_fe := y\<rparr>)))"

definition Client_Flush :: "client \<Rightarrow> client" where
  "Client_Flush c = c\<lparr>payload_fe := Flush (payload_fe c)\<rparr>"

text \<open>The text that a listing prints.\<close>

definition ListClient :: "tables \<Rightarrow> client \<Rightarrow> fsys \<Rightarrow> int + string" where
  "ListClient T c fs = (case ListDirectory T fs (c_SyncDirPath c) of
     Inl e \<Rightarrow> Inl e
   | Inr rows \<Rightarrow> Inr (render T rows))"

definition Client_ListServer :: "codec \<Rightarrow> client \<Rightarrow> (string option \<times> client) option" where
  "Client_ListServer C c = (case SendCommand C kListServer (payload_fe c) of
     None \<Rightarrow> None
   | Some x \<Rightarrow>
       (case load (rd_str C) (strm x) of
          (Loaded t, s) \<Rightarrow> Some (Some t, c\<lparr>payload_fe := x\<lparr>strm := s\<rparr>\<rparr>)
        | (_, s) \<Rightarrow> Some (None, c\<lparr>payload_fe := x\<lparr>strm := s\<rparr>\<rparr>)))"

section \<open>From the watcher to the server\<close>

text \<open>One action of the collection; failures of \<^verbatim>\<open>SendPath\<close> and \<^verbatim>\<open>Send\<close> are ignored.\<close>

definition send_action :: "codec \<Rightarrow> fsys \<Rightarrow> string \<Rightarrow> action \<Rightarrow> fexch \<Rightarrow> fexch option" where
  "send_action C fs d a x = (case a of (cmd, p) \<Rightarrow>
     if cmd = kUpload then
       (case SendCommand C kUpload x of
          None \<Rightarrow> None
        | Some x1 \<Rightarrow> Some (Flush (snd (Send C fs (SetPath (path_append d p)
                        (snd (SendPath C (SetPath (path_append d p) x1))))))))
     else if cmd = kDelete then
       (case SendCommand C kDelete x of
          None \<Rightarrow> None
        | Some x1 \<Rightarrow> Some (Flush (snd (SendPath C (SetPath (path_append d p) x1)))))
     else Some (Flush x))"

fun send_actions :: "codec \<Rightarrow> fsys \<Rightarrow> string \<Rightarrow> action list \<Rightarrow> fexch \<Rightarrow> fexch option" where
  "send_actions C fs d [] x = Some x"
| "send_actions C fs d (a # as) x = (case send_action C fs d a x of
     None \<Rightarrow> None
   | Some x1 \<Rightarrow> send_actions C fs d as x1)"

text \<open>One turn of \<^verbatim>\<open>SyncFromClient\<close> that finds actions, and its first step.\<close>

definition Client_sync_turn :: "codec \<Rightarrow> fsys \<Rightarrow> client \<Rightarrow> client option" where
  "Client_sync_turn C fs c = (case send_actions C fs (c_SyncDirPath c) (vector (watch c)) (client_fe c) of
     None \<Rightarrow> None
   | Some x \<Rightarrow> Some (c\<lparr>client_fe := x, watch := take_actions (watch c)\<rparr>))"

definition receive_servers :: "codec \<Rightarrow> client \<Rightarrow> client option" where
  "receive_servers C c = (case load (rd_str C) (strm (client_fe c)) of
     (Loaded str, s) \<Rightarrow> Some (c\<lparr>c_servers := str, client_fe := (client_fe c)\<lparr>strm := s\<rparr>\<rparr>)
   | _ \<Rightarrow> None)"

section \<open>From the server\<close>

text \<open>The commands of \<^verbatim>\<open>SyncFromServer\<close>; an exception ends its thread and the process.\<close>

definition Client_command :: "codec \<Rightarrow> wire \<Rightarrow> client \<Rightarrow> fsys \<Rightarrow> (client \<times> fsys) option" where
  "Client_command C w c fs = (case w of
     Cmd kUpload \<Rightarrow>
       (let x1 = snd (ReceivePath C (server_fe c)); c1 = c\<lparr>watch := Pause (watch c)\<rparr> in
        case Receive C fs x1 of
          None \<Rightarrow> None
        | Some (_, x2, fs') \<Rightarrow> Some (c1\<lparr>server_fe := x2, watch := Resume (watch c1)\<rparr>, fs'))
   | Cmd kDelete \<Rightarrow>
       (let x1 = snd (ReceivePath C (server_fe c)) in
        if exists_path fs (xpath x1)
        then case fs_remove fs (xpath x1) of
            Inl _ \<Rightarrow> None
          | Inr (_, fs') \<Rightarrow> Some (c\<lparr>server_fe := x1, watch := Resume (Pause (watch c))\<rparr>, fs')
        else Some (c\<lparr>server_fe := x1\<rparr>, fs))
   | _ \<Rightarrow> Some (c, fs))"

text \<open>
  Three new sockets, connected one after the other: \<open>net k\<close> is the network's answer to the
  \<open>k\<close>-th of the three \<^verbatim>\<open>connect\<close> calls. A socket that is not connected answers a read
  with \<^verbatim>\<open>ENOTCONN\<close> and a write with \<^verbatim>\<open>EPIPE\<close>; only the first of each is in the list,
  because the loops replace a socket that is not connected before they use it.
\<close>

definition unconnected :: endpoint where
  "unconnected = \<lparr>rx = [RdErr 107], wr = [WrErr 32], tx = []\<rparr>"

definition connect_all :: "(nat \<Rightarrow> endpoint option) \<Rightarrow> bool \<times> endpoint \<times> endpoint \<times> endpoint" where
  "connect_all net = (case net 0 of
     None \<Rightarrow> (False, unconnected, unconnected, unconnected)
   | Some p \<Rightarrow> (case net 1 of
        None \<Rightarrow> (False, p, unconnected, unconnected)
      | Some q \<Rightarrow> (case net 2 of
           None \<Rightarrow> (False, p, q, unconnected)
         | Some r \<Rightarrow> (True, p, q, r))))"

definition SetSockets :: "endpoint \<times> endpoint \<times> endpoint \<Rightarrow> client \<Rightarrow> client" where
  "SetSockets es c = (case es of (p, q, r) \<Rightarrow>
     c\<lparr>payload_fe := SetStream (SetSocket p (strm (payload_fe c))) (payload_fe c),
       client_fe := SetStream (SetSocket q (strm (client_fe c))) (client_fe c),
       server_fe := SetStream (SetSocket r (strm (server_fe c))) (server_fe c)\<rparr>)"

text \<open>
  \<^verbatim>\<open>ReconnectToServer\<close>: the result of \<^verbatim>\<open>GetSyncDir\<close> is ignored; an exception of
  \<^verbatim>\<open>SendUsername\<close> or of the file system ends the thread and the process.
\<close>

definition ReconnectToServer :: "codec \<Rightarrow> (string \<Rightarrow> nat \<Rightarrow> endpoint option) \<Rightarrow> string
    \<Rightarrow> client \<Rightarrow> fsys \<Rightarrow> (bool \<times> client \<times> fsys) option" where
  "ReconnectToServer C net ip_addr c fs =
     (let (ok, es) = connect_all (net ip_addr); c0 = SetSockets es c
      in if \<not> ok then Some (False, c0, fs)
         else case SendUsername C c0 of
             (False, _) \<Rightarrow> None
           | (True, c1) \<Rightarrow>
               (case Client_GetSyncDir C c1 fs of
                  None \<Rightarrow> None
                | Some (Inl _, _, _) \<Rightarrow> None
                | Some (Inr _, c2, fs') \<Rightarrow> Some (True, c2, fs')))"

text \<open>
  The loop that looks for a new primary: the address, then the rest of the list. \<open>net i\<close> is
  the network at the \<open>i\<close>-th attempt.
\<close>

partial_function (option) reconnect_loop :: "codec \<Rightarrow> (nat \<Rightarrow> string \<Rightarrow> nat \<Rightarrow> endpoint option)
    \<Rightarrow> nat \<Rightarrow> string \<Rightarrow> istring \<Rightarrow> client \<Rightarrow> fsys \<Rightarrow> (client \<times> fsys) option" where
  "reconnect_loop C net i ip_addr is c fs =
     (case ReconnectToServer C (net i) ip_addr c fs of
        None \<Rightarrow> None
      | Some t \<Rightarrow>
          (if fst t then Some (fst (snd t), snd (snd t))
           else let g = getline is ip_addr (CHR '' '')
                in reconnect_loop C net (i + 1) (fst g) (snd g) (fst (snd t)) (snd (snd t))))"

declare reconnect_loop.simps [code]

definition find_primary :: "codec \<Rightarrow> (nat \<Rightarrow> string \<Rightarrow> nat \<Rightarrow> endpoint option)
    \<Rightarrow> client \<Rightarrow> fsys \<Rightarrow> (client \<times> fsys) option" where
  "find_primary C net c fs =
     (let g = getline (istringstream (c_servers c)) [] (CHR '' '')
      in reconnect_loop C net 0 (fst g) (snd g) c fs)"

text \<open>\<open>stop i\<close> is the stop token, \<open>net i\<close> the network, at the \<open>i\<close>-th turn.\<close>

partial_function (option) SyncFromServer_loop :: "codec \<Rightarrow> (nat \<Rightarrow> bool)
    \<Rightarrow> (nat \<Rightarrow> nat \<Rightarrow> string \<Rightarrow> nat \<Rightarrow> endpoint option) \<Rightarrow> nat \<Rightarrow> client \<Rightarrow> fsys
    \<Rightarrow> (client \<times> fsys) option" where
  "SyncFromServer_loop C stop net i c fs =
     (if stop i then Some (c, fs)
      else let r = ReceiveCommand C (server_fe c); c1 = c\<lparr>server_fe := snd r\<rparr>
           in case fst r of
                Inl e \<Rightarrow>
                  (if e \<noteq> ECONNABORTED then SyncFromServer_loop C stop net (i + 1) c1 fs
                   else case find_primary C (net i) c1 fs of
                       None \<Rightarrow> None
                     | Some t \<Rightarrow> SyncFromServer_loop C stop net (i + 1) (fst t) (snd t))
              | Inr w \<Rightarrow>
                  (case Client_command C w c1 fs of
                     None \<Rightarrow> None
                   | Some t \<Rightarrow> SyncFromServer_loop C stop net (i + 1) (fst t) (snd t)))"

declare SyncFromServer_loop.simps [code]

section \<open>Starting\<close>

text \<open>The constructor: \<open>Inl\<close> is its exception, \<^verbatim>\<open>Connecting\<close> the code 0.\<close>

definition ClientInit :: "string \<Rightarrow> endpoint \<times> endpoint \<times> endpoint \<Rightarrow> client" where
  "ClientInit u es = (case es of (p, q, r) \<Rightarrow>
     \<lparr>c_user = u, payload_fe = Base p, client_fe = Base q, server_fe = Base r, c_servers = [],
      watch = Inotify\<rparr>)"

definition Client :: "codec \<Rightarrow> string \<Rightarrow> (nat \<Rightarrow> endpoint option) \<Rightarrow> fsys
    \<Rightarrow> ((int + client) \<times> fsys) option" where
  "Client C u net fs =
     (let (ok, es) = connect_all net
      in if \<not> ok then Some (Inl 0, fs)
         else case SendUsername C (ClientInit u es) of
             (False, _) \<Rightarrow> Some (Inl 0, fs)
           | (True, c) \<Rightarrow>
               (case Client_GetSyncDir C c fs of
                  None \<Rightarrow> None
                | Some (Inl e, _, fs') \<Rightarrow> Some (Inl e, fs')
                | Some (Inr _, c', fs') \<Rightarrow> Some (Inr c', fs')))"

section \<open>The names in a user's directory\<close>

definition names_ok :: "fsys \<Rightarrow> bool" where
  "names_ok fs = list_all (\<lambda>(r, _). r \<noteq> [] \<longrightarrow> simple_name (last r)) (ents fs)"

lemma user_names:
  assumes "layout fs" and "has_dir fs u" and "user_name u" and "names_ok fs"
  obtains names where "directory_names fs (SyncDirWithPrefix u) = Inr names"
    and "set names = {f. contents fs u f \<noteq> None}" and "list_all simple_name names"
proof -
  let ?q = "dir_of fs u"
  define names where "names = map (last \<circ> fst) (filter (\<lambda>(r, _). r \<noteq> [] \<and> butlast r = ?q) (ents fs))"
  have dir: "directory_names fs (SyncDirWithPrefix u) = Inr names"
    using directory_names_dir [OF resolve_user_dir [OF assms(1,3)]] assms(2)
    by (simp add: has_dir_def names_def)
  have mem: "f \<in> set names \<longleftrightarrow> (\<exists>n. (?q @ [f], n) \<in> set (ents fs))" for f
  proof
    assume "f \<in> set names"
    then obtain r n where "(r, n) \<in> set (ents fs)" "r \<noteq> []" "butlast r = ?q" "f = last r"
      by (auto simp: names_def)
    then show "\<exists>n. (?q @ [f], n) \<in> set (ents fs)"
      using append_butlast_last_id [of r] by metis
  next
    assume "\<exists>n. (?q @ [f], n) \<in> set (ents fs)"
    then show "f \<in> set names"
      by (auto simp: names_def image_iff intro!: bexI)
  qed
  have simple: "simple_name f" if "f \<in> set names" for f
    using that assms(4) unfolding mem by (auto simp: names_ok_def list_all_iff)
  have "f \<in> set names \<longleftrightarrow> contents fs u f \<noteq> None" for f
  proof
    assume f: "f \<in> set names"
    then have "node_at fs (?q @ [f]) \<noteq> None"
      by (auto simp: mem node_at_def map_of_eq_None_iff rev_image_eqI)
    then show "contents fs u f \<noteq> None"
      using layoutD(4) [OF assms(1,3) simple [OF f]] by (auto simp: contents_def split: node.splits)
  next
    assume "contents fs u f \<noteq> None"
    then show "f \<in> set names"
      by (auto simp: mem contents_def node_at_def split: option.splits dest: map_of_SomeD)
  qed
  then show thesis
    using that [OF dir] simple by (auto simp: list_all_iff)
qed

text \<open>Emptying a user's directory.\<close>

text \<open>A tree without what is below one of its paths is a tree.\<close>

lemma below_butlast:
  assumes "take (length q) (butlast r) = q" and "butlast r \<noteq> q"
  shows "take (length q) r = q \<and> r \<noteq> q"
proof -
  obtain z where "butlast r = q @ z"
    using assms(1) by (metis append_take_drop_id)
  then show ?thesis
    using assms(2) by (cases r rule: rev_cases) auto
qed

lemma cleared_tree:
  assumes "fs_tree fs" and "q \<noteq> []"
    and at: "\<And>r. node_at fs' r = (if take (length q) r = q \<and> r \<noteq> q then None else node_at fs r)"
  shows "fs_tree fs'"
  unfolding fs_tree_def
proof (intro conjI allI impI)
  show "node_at fs' [] = Some Directory"
    using fs_tree_root [OF assms(1)] assms(2) by (simp add: at)
  fix r n
  assume n: "node_at fs' r = Some n" "r \<noteq> []"
  then have here: "node_at fs r = Some n" and out: "\<not> (take (length q) r = q \<and> r \<noteq> q)"
    by (auto simp: at split: if_splits)
  have "\<not> (take (length q) (butlast r) = q \<and> butlast r \<noteq> q)"
    using below_butlast out by blast
  then show "node_at fs' (butlast r) = Some Directory"
    unfolding at using fs_tree_parent [OF assms(1) here] n(2) by (simp only: if_False)
qed

lemma empty_user_dir:
  assumes "layout fs" and "has_dir fs u" and "user_name u" and "names_ok fs"
  obtains fs' where "RemoveAllFromDirectory fs (SyncDirWithPrefix u) = Inr fs'"
    and "layout fs'" and "has_dir fs' u" and "contents fs' = (contents fs)(u := Map.empty)"
proof -
  let ?d = "SyncDirWithPrefix u" and ?q = "dir_of fs u"
  let ?below = "\<lambda>r. take (length (cwd fs) + 1) r = ?q \<and> r \<noteq> ?q"
  have "\<exists>fs'. RemoveAllFromDirectory fs ?d = Inr fs' \<and> cwd fs' = cwd fs
      \<and> (\<forall>r. node_at fs' r = (if ?below r then None else node_at fs r))"
    unfolding dir_of_def
    by (rule remove_all_entries)
      (use assms layoutD(1,2) [OF assms(1)] in \<open>auto simp: simple_sync_dir user_name_def names_ok_def
          has_dir_def dir_of_def\<close>)
  then obtain fs' where fs': "RemoveAllFromDirectory fs ?d = Inr fs'" "cwd fs' = cwd fs"
    and at: "\<And>r. node_at fs' r = (if ?below r then None else node_at fs r)"
    by blast
  have dirs: "dir_of fs' = dir_of fs"
    using fs'(2) by (rule dir_of_cwd)
  have "fs_tree fs'"
    by (rule cleared_tree [OF layoutD(1) [OF assms(1)], of ?q]) (simp_all add: at dir_of_def)
  moreover have "node_at fs' (cwd fs') = Some Directory" "has_dir fs' u"
    using layoutD(2) [OF assms(1)] assms(2) by (auto simp: at fs'(2) dirs has_dir_def)
  ultimately have lay: "layout fs'"
    using layoutD(3,4) [OF assms(1)] by (intro layoutI) (auto simp: at dirs split: if_splits)
  have "contents fs' = (contents fs)(u := Map.empty)"
    by (auto simp: fun_eq_iff contents_def at dirs) (auto simp: dir_of_def)
  then show thesis
    using that fs'(1) lay \<open>has_dir fs' u\<close> by blast
qed

section \<open>The synchronised directory on the wire\<close>

definition entry_msg :: "codec \<Rightarrow> fsys \<Rightarrow> string \<Rightarrow> string \<Rightarrow> byte list" where
  "entry_msg C fs u f = enc_cmd C (cmd_code kSuccess) @ enc_str C (user_path u f)
     @ file_msg C (the (contents fs u f))"

definition entries_msg :: "codec \<Rightarrow> fsys \<Rightarrow> string \<Rightarrow> string list \<Rightarrow> byte list" where
  "entries_msg C fs u names = concat (map (entry_msg C fs u) names) @ enc_cmd C (cmd_code kExit)"

lemma filename_of_simple: "simple_name f \<Longrightarrow> path_append (SyncDirWithPrefix u) (filename f) = user_path u f"
  by (simp add: user_path_def filename_simple)

lemma send_entry_ready:
  assumes "layout fs" and "has_dir fs u" and "user_name u" and "ready x" and "simple_name f"
    and "contents fs u f \<noteq> None" and "length (entry_msg C fs u f) \<le> room (strm x)"
  obtains z where "\<And>names. send_entries C fs (SyncDirWithPrefix u) (f # names) x
      = send_entries C fs (SyncDirWithPrefix u) names z"
    and "wrote (entry_msg C fs u f) (strm x) (strm z)" and "ready z"
proof -
  let ?p = "user_path u f" and ?bs = "the (contents fs u f)"
  have len: "length (enc_cmd C (cmd_code kSuccess)) \<le> room (strm x)"
    using assms(7) by (simp add: entry_msg_def)
  obtain s1 where s1: "SendCommand C kSuccess x = Some (x\<lparr>strm := s1\<rparr>)"
    "wrote (enc_cmd C (cmd_code kSuccess)) (strm x) s1"
    by (rule SendCommand_ready [OF assms(4) len]) (rule that; assumption)
  define y where "y = SetPath ?p (x\<lparr>strm := s1\<rparr>)"
  have y: "ready y" "length (enc_str C (xpath y)) \<le> room (strm y)" "xpath y = ?p" "strm y = s1"
    using wrote_ready [OF s1(2)] assms(7) by (simp_all add: y_def ready_def entry_msg_def)
  obtain s2 where s2: "SendPath C y = (True, y\<lparr>strm := s2\<rparr>)" "wrote (enc_str C ?p) s1 s2"
    by (rule SendPath_ready [OF y(1,2)]) (use that y(3,4) in simp)
  define z where "z = y\<lparr>strm := s2\<rparr>"
  have z: "ready z" "status fs (xpath z) = Some (File ?bs)" "length (file_msg C ?bs) \<le> room (strm z)"
    using wrote_ready [OF s1(2)] wrote_ready [OF s2(2)] assms(6,7) status_user_path [OF assms(1-3,5)]
    by (auto simp: z_def y(3) ready_def entry_msg_def)
  obtain s3 where s3: "Send C fs z = (True, z\<lparr>strm := s3\<rparr>)" "wrote (file_msg C ?bs) s2 s3"
    by (rule Send_ready [OF z]) (use that in \<open>simp add: z_def\<close>)
  have w: "wrote (entry_msg C fs u f) (strm x) s3"
    unfolding entry_msg_def using wrote_trans [OF s1(2) wrote_trans [OF s2(2) s3(2)]] by simp
  show thesis
    by (rule that [of "z\<lparr>strm := s3\<rparr>"])
      (use s1(1) s2(1) s3(1) w wrote_ready [OF w] in
        \<open>simp_all add: filename_of_simple [OF assms(5)] ready_def flip: y_def z_def\<close>)
qed

lemma send_entries_ready:
  assumes "layout fs" and "has_dir fs u" and "user_name u"
    and "ready x" and "list_all simple_name names" and "\<forall>f\<in>set names. contents fs u f \<noteq> None"
    and "length (entries_msg C fs u names) \<le> room (strm x)"
  shows "\<exists>x'. send_entries C fs (SyncDirWithPrefix u) names x = Some (True, x')
    \<and> wrote (entries_msg C fs u names) (strm x) (strm x')"
  using assms(4-)
proof (induction names arbitrary: x)
  case Nil
  then have "length (enc_cmd C (cmd_code kExit)) \<le> room (strm x)"
    by (simp add: entries_msg_def)
  then obtain s' where "SendCommand C kExit x = Some (x\<lparr>strm := s'\<rparr>)"
    "wrote (enc_cmd C (cmd_code kExit)) (strm x) s'"
    by (rule SendCommand_ready [OF Nil(1)]) (rule that; assumption)
  then show ?case
    by (simp add: entries_msg_def)
next
  case (Cons f names)
  have f: "simple_name f" "contents fs u f \<noteq> None" "length (entry_msg C fs u f) \<le> room (strm x)"
    using Cons.prems by (simp_all add: entries_msg_def)
  obtain z where z: "send_entries C fs (SyncDirWithPrefix u) (f # names) x = send_entries C fs (SyncDirWithPrefix u) names z"
    "wrote (entry_msg C fs u f) (strm x) (strm z)" "ready z"
    by (rule send_entry_ready [OF assms(1-3) Cons.prems(1) f]) blast
  have "length (entries_msg C fs u names) \<le> room (strm z)"
    using wrote_ready [OF z(2)] Cons.prems(4) by (auto simp: entries_msg_def)
  then obtain x' where "send_entries C fs (SyncDirWithPrefix u) names z = Some (True, x')"
    "wrote (entries_msg C fs u names) (strm z) (strm x')"
    using Cons.IH [OF z(3)] Cons.prems(2,3) by auto
  then show ?case
    using z(1) wrote_trans [OF z(2)] by (fastforce simp: entries_msg_def)
qed

lemma receive_entry_ok:
  assumes "codec_ok C" and "user_name u" and "layout fs" and "has_dir fs u" and "sound (strm x)"
    and "simple_name f" and "str_ok (user_path u f)" and "size_ok (the (contents sv u f))"
    and "incoming (strm x) = entry_msg C sv u f @ r"
  obtains y fs1 where "receive_entries C x fs = receive_entries C y fs1" and "took r (strm x) (strm y)"
    and "layout fs1" and "has_dir fs1 u"
    and "contents fs1 = (contents fs)(u := (contents fs u)(f \<mapsto> the (contents sv u f)))"
proof -
  let ?p = "user_path u f" and ?bs = "the (contents sv u f)"
  have "incoming (strm x) = enc_cmd C (cmd_code kSuccess) @ (enc_str C ?p @ file_msg C ?bs @ r)"
    using assms(9) by (simp add: entry_msg_def)
  then obtain s1 where s1: "ReceiveCommand C x = (Inr (Cmd kSuccess), x\<lparr>strm := s1\<rparr>)"
    "took (enc_str C ?p @ file_msg C ?bs @ r) (strm x) s1"
    by (rule ReceiveCommand_ok [OF assms(1,5), of "cmd_code kSuccess", unfolded wire_of_cmd])
      (rule that; assumption)
  have in1: "sound (strm (x\<lparr>strm := s1\<rparr>))" "incoming (strm (x\<lparr>strm := s1\<rparr>)) = enc_str C ?p @ file_msg C ?bs @ r"
    using took_sound [OF s1(2)] by simp_all
  obtain s2 where s2: "ReceivePath C (x\<lparr>strm := s1\<rparr>) = (True, x\<lparr>strm := s1\<rparr>\<lparr>xpath := ?p, strm := s2\<rparr>)"
    "took (file_msg C ?bs @ r) (strm (x\<lparr>strm := s1\<rparr>)) s2"
    by (rule ReceivePath_ok [OF assms(1) in1 assms(7)]) (rule that; assumption)
  let ?x2 = "x\<lparr>strm := s1\<rparr>\<lparr>xpath := ?p, strm := s2\<rparr>"
  have in2: "xpath ?x2 = ?p" "sound (strm ?x2)" "incoming (strm ?x2) = file_msg C ?bs @ r"
    using took_sound [OF s2(2)] by simp_all
  obtain s3 fs3 where s3: "Receive C fs ?x2 = Some (True, ?x2\<lparr>strm := s3\<rparr>, fs3)" "took r (strm ?x2) s3"
    "layout fs3" "\<And>v. has_dir fs3 v \<longleftrightarrow> has_dir fs v"
    "contents fs3 = (contents fs)(u := (contents fs u)(f \<mapsto> ?bs))"
    by (rule Receive_user_file [OF assms(1,3,4,2,6) in2(1) assms(8) in2(2,3)]) (rule that; assumption)
  have "took (file_msg C ?bs @ r) s1 s2" "took r s2 s3"
    using s2(2) s3(2) by simp_all
  then have "took r (strm x) s3"
    using took_trans [OF took_trans [OF s1(2)]] by blast
  then show thesis
    using that [of "?x2\<lparr>strm := s3\<rparr>" fs3] s1(1) s2(1) s3 assms(4) by (simp add: receive_entries.simps [of C x])
qed

lemma receive_entries_ok:
  assumes "codec_ok C" and "user_name u" and "layout fs" and "has_dir fs u" and "sound (strm x)"
    and "list_all simple_name names"
    and "\<forall>f\<in>set names. str_ok (user_path u f) \<and> size_ok (the (contents sv u f))"
    and "incoming (strm x) = entries_msg C sv u names @ rest"
  shows "\<exists>x' fs'. receive_entries C x fs = Some (True, x', fs') \<and> took rest (strm x) (strm x')
    \<and> contents fs' = fold apply_op (map (\<lambda>f. Put u f (the (contents sv u f))) names) (contents fs)"
  using assms(3-)
proof (induction names arbitrary: x fs)
  case Nil
  then have inc: "incoming (strm x) = enc_cmd C (cmd_code kExit) @ rest"
    by (simp add: entries_msg_def)
  obtain s' where "ReceiveCommand C x = (Inr (Cmd kExit), x\<lparr>strm := s'\<rparr>)" "took rest (strm x) s'"
    by (rule ReceiveCommand_ok [OF assms(1) Nil(3) inc, unfolded wire_of_cmd]) (rule that; assumption)
  then show ?case
    by (simp add: receive_entries.simps [of C x])
next
  case (Cons f names)
  let ?r = "entries_msg C sv u names @ rest"
  have f: "simple_name f" "str_ok (user_path u f)" "size_ok (the (contents sv u f))"
    and inc: "incoming (strm x) = entry_msg C sv u f @ ?r"
    using Cons.prems by (simp_all add: entries_msg_def)
  obtain y fs1 where y: "receive_entries C x fs = receive_entries C y fs1" "took ?r (strm x) (strm y)"
    "layout fs1" "has_dir fs1 u" "contents fs1 = (contents fs)(u := (contents fs u)(f \<mapsto> the (contents sv u f)))"
    by (rule receive_entry_ok [OF assms(1,2) Cons.prems(1-3) f inc])
  have "sound (strm y)" "list_all simple_name names" "incoming (strm y) = ?r"
    "\<forall>f\<in>set names. str_ok (user_path u f) \<and> size_ok (the (contents sv u f))"
    using Cons.prems(4,5) took_sound [OF y(2)] by simp_all
  then obtain x' fs' where r: "receive_entries C y fs1 = Some (True, x', fs')" "took rest (strm y) (strm x')"
    "contents fs' = fold apply_op (map (\<lambda>f. Put u f (the (contents sv u f))) names) (contents fs1)"
    using Cons.IH [OF y(3,4)] by blast
  then show ?case
    using y(1,5) took_trans [OF y(2) r(2)] by simp
qed

lemma fold_puts:
  "fold apply_op (map (\<lambda>f. Put u f (g f)) names) m
    = m(u := (\<lambda>f. if f \<in> set names then Some (g f) else m u f))"
  by (induction names arbitrary: m) (auto simp: fun_eq_iff)

section \<open>Copying the server's directory\<close>

definition names_of :: "fsys \<Rightarrow> string \<Rightarrow> string list" where
  "names_of fs u = (case directory_names fs (SyncDirWithPrefix u) of Inl _ \<Rightarrow> [] | Inr names \<Rightarrow> names)"

definition sync_dir_msg :: "codec \<Rightarrow> fsys \<Rightarrow> string \<Rightarrow> byte list" where
  "sync_dir_msg C fs u = entries_msg C fs u (names_of fs u)"

definition files_ok :: "fsys \<Rightarrow> string \<Rightarrow> bool" where
  "files_ok fs u = list_all (\<lambda>f. str_ok (user_path u f) \<and> size_ok (the (contents fs u f))) (names_of fs u)"

lemma names_of_user:
  assumes "layout fs" and "has_dir fs u" and "user_name u" and "names_ok fs"
  shows "directory_names fs (SyncDirWithPrefix u) = Inr (names_of fs u)"
    and "set (names_of fs u) = {f. contents fs u f \<noteq> None}" and "list_all simple_name (names_of fs u)"
  by (rule user_names [OF assms]; simp add: names_of_def)+

lemma Handler_GetSyncDir_sends:
  assumes "layout sv" and "has_dir sv u" and "user_name u" and "names_ok sv" and "ready x"
    and "length (sync_dir_msg C sv u) \<le> room (strm x)"
  obtains x' where "Handler_GetSyncDir C sv (SyncDirWithPrefix u) x = Some (Inr (True, x'))"
    and "wrote (sync_dir_msg C sv u) (strm x) (strm x')"
proof -
  note names = names_of_user [OF assms(1-4)]
  have "\<forall>f\<in>set (names_of sv u). contents sv u f \<noteq> None"
    using names(2) by simp
  then show thesis
    using send_entries_ready [OF assms(1-3,5) names(3)] assms(6) names(1) that
    by (auto simp: sync_dir_msg_def Handler_GetSyncDir_def)
qed

lemma names_ok_sub:
  assumes "names_ok fs" and "set (ents fs') \<subseteq> insert (q, n) (set (ents fs))" and "simple_name (last q)"
  shows "names_ok fs'"
  using assms by (fastforce simp: names_ok_def list_all_iff)

lemma names_ok_create:
  assumes "names_ok fs" and "layout fs" and "user_name u"
    and "create_directory fs (SyncDirWithPrefix u) = Inr (b, fs')"
  shows "names_ok fs'"
proof -
  have "set (AList.update q n xs) \<subseteq> insert (q, n) (set xs)" for q :: fpath and n :: node and xs
    by (induction xs) auto
  then have "set (ents (set_node q n fs)) \<subseteq> insert (q, n) (set (ents fs))" for q n
    by (simp add: set_node_def)
  moreover have "simple_name (last (dir_of fs u))"
    using assms(3) by (simp add: dir_of_def simple_sync_dir user_name_def)
  ultimately show ?thesis
    using assms(1,4) resolve_user_dir [OF assms(2,3)]
    by (auto simp: create_directory_def split: option.splits node.splits intro: names_ok_sub)
qed

text \<open>The part of \<^verbatim>\<open>GetSyncDir\<close> before the transfer: an empty directory of the user.\<close>

lemma GetSyncDir_prepares:
  assumes "layout cl" and "user_name u" and "names_ok cl" and "c_user c = u"
  obtains fs where "layout fs" and "has_dir fs u" and "contents fs = (contents cl)(u := Map.empty)"
    and "Client_GetSyncDir C c cl = (case receive_entries C (payload_fe c) fs of
        None \<Rightarrow> None | Some (ok, x, fs3) \<Rightarrow> Some (Inr ok, c\<lparr>payload_fe := x\<rparr>, fs3))"
proof -
  let ?d = "SyncDirWithPrefix u"
  have "\<exists>b fs1. (if exists_path cl ?d then Inr (False, cl) else create_directory cl ?d) = Inr (b, fs1)
      \<and> same_files cl fs1 \<and> has_dir fs1 u \<and> names_ok fs1"
  proof (cases "has_dir cl u")
    case True
    then have "exists_path cl ?d"
      using status_node [OF resolve_user_dir [OF assms(1,2)]] by (simp add: exists_path_def has_dir_def)
    then show ?thesis
      using same_files_refl [OF assms(1)] True assms(3) by auto
  next
    case False
    then have none: "node_at cl (dir_of cl u) = None"
      using layoutD(3) [OF assms(1,2)] by (metis has_dir_def node.exhaust option.exhaust)
    then have "\<not> exists_path cl ?d"
      using status_node [OF resolve_user_dir [OF assms(1,2)]] by (simp add: exists_path_def)
    then show ?thesis
      by (rule_tac create_user_dir [OF assms(1,2)]) (auto intro: names_ok_create [OF assms(3,1,2)])
  qed
  then obtain b fs1 where fs1: "same_files cl fs1" "has_dir fs1 u" "names_ok fs1"
    "(if exists_path cl ?d then Inr (False, cl) else create_directory cl ?d) = Inr (b, fs1)"
    by blast
  have lay: "layout fs1" "contents fs1 = contents cl"
    using fs1(1) by (simp_all add: same_files_def)
  obtain fs2 where fs2: "RemoveAllFromDirectory fs1 ?d = Inr fs2" "layout fs2" "has_dir fs2 u"
    "contents fs2 = (contents fs1)(u := Map.empty)"
    by (rule empty_user_dir [OF lay(1) fs1(2) assms(2) fs1(3)]) (rule that; assumption)
  have "c_SyncDirPath c = ?d"
    using assms(4) by (simp add: c_SyncDirPath_def)
  then have "Client_GetSyncDir C c cl = (case receive_entries C (payload_fe c) fs2 of
        None \<Rightarrow> None | Some (ok, x, fs3) \<Rightarrow> Some (Inr ok, c\<lparr>payload_fe := x\<rparr>, fs3))"
    by (simp only: Client_GetSyncDir_def fs1(4) fs2(1) sum.case prod.case)
  then show thesis
    using that [OF fs2(2,3)] fs2(4) lay(2) by simp
qed

lemma GetSyncDir_receives:
  assumes "codec_ok C" and "user_name u" and "files_ok sv u" and "list_all simple_name (names_of sv u)"
    and "set (names_of sv u) = {f. contents sv u f \<noteq> None}"
    and "layout cl" and "names_ok cl" and "c_user c = u" and "sound (strm (payload_fe c))"
    and "incoming (strm (payload_fe c)) = sync_dir_msg C sv u @ rest"
  obtains x cl' where "Client_GetSyncDir C c cl = Some (Inr True, c\<lparr>payload_fe := x\<rparr>, cl')"
    and "took rest (strm (payload_fe c)) (strm x)" and "contents cl' = (contents cl)(u := contents sv u)"
proof -
  obtain fs where fs: "layout fs" "has_dir fs u" "contents fs = (contents cl)(u := Map.empty)"
    "Client_GetSyncDir C c cl = (case receive_entries C (payload_fe c) fs of
        None \<Rightarrow> None | Some (ok, x, fs3) \<Rightarrow> Some (Inr ok, c\<lparr>payload_fe := x\<rparr>, fs3))"
    by (rule GetSyncDir_prepares [OF assms(6,2,7,8), of C]) (rule that; assumption)
  have "\<forall>f\<in>set (names_of sv u). str_ok (user_path u f) \<and> size_ok (the (contents sv u f))"
    using assms(3) by (simp add: files_ok_def list_all_iff)
  then obtain x cl' where r: "receive_entries C (payload_fe c) fs = Some (True, x, cl')"
    "took rest (strm (payload_fe c)) (strm x)"
    "contents cl' = fold apply_op (map (\<lambda>f. Put u f (the (contents sv u f))) (names_of sv u)) (contents fs)"
    using receive_entries_ok [OF assms(1,2) fs(1,2) assms(9,4), of sv rest] assms(10)
    by (auto simp: sync_dir_msg_def)
  have "contents cl' = (contents cl)(u := contents sv u)"
    unfolding r(3) fs(3) fold_puts by (auto simp: fun_eq_iff assms(5))
  then show thesis
    using that r(1,2) fs(4) by simp
qed

section \<open>Properties\<close>

text \<open>
  C15. Initial synchronisation is a copy: what the server's handler writes for a user, read by
  the client of that user, leaves the client's directory with exactly the server's files of the
  user and the other directories as they were, whatever the client had before, and leaves
  in the stream what follows.
\<close>

theorem get_sync_dir_roundtrip:
  assumes "codec_ok C" and "user_name u"
    and "layout sv" and "has_dir sv u" and "names_ok sv" and "files_ok sv u"
    and "ready x" and "length (sync_dir_msg C sv u) \<le> room (strm x)"
    and "layout cl" and "names_ok cl" and "c_user c = u" and "sound (strm (payload_fe c))"
    and "incoming (strm (payload_fe c)) = sync_dir_msg C sv u @ rest"
  shows "\<exists>x' c' cl'. Handler_GetSyncDir C sv (SyncDirWithPrefix u) x = Some (Inr (True, x'))
    \<and> outgoing (strm x') = outgoing (strm x) @ sync_dir_msg C sv u
    \<and> Client_GetSyncDir C c cl = Some (Inr True, c', cl') \<and> incoming (strm (payload_fe c')) = rest
    \<and> contents cl' = (contents cl)(u := contents sv u)"
proof -
  note names = names_of_user [OF assms(3,4,2,5)]
  obtain x' where "Handler_GetSyncDir C sv (SyncDirWithPrefix u) x = Some (Inr (True, x'))"
    "wrote (sync_dir_msg C sv u) (strm x) (strm x')"
    by (rule Handler_GetSyncDir_sends [OF assms(3,4,2,5,7,8)]) (rule that; assumption)
  moreover obtain y cl' where "Client_GetSyncDir C c cl = Some (Inr True, c\<lparr>payload_fe := y\<rparr>, cl')"
    "took rest (strm (payload_fe c)) (strm y)" "contents cl' = (contents cl)(u := contents sv u)"
    by (rule GetSyncDir_receives [OF assms(1,2,6) names(3,2) assms(9-13)]) (rule that; assumption)
  ultimately show ?thesis
    by (auto simp: wrote_def took_def)
qed

definition sample_client :: "byte list \<Rightarrow> byte list \<Rightarrow> client" where
  "sample_client payload from_server = \<lparr>c_user = ''u'', payload_fe = \<lparr>xpath = [], strm = fresh payload\<rparr>,
     client_fe = \<lparr>xpath = [], strm = fresh []\<rparr>, server_fe = \<lparr>xpath = [], strm = fresh from_server\<rparr>,
     c_servers = [], watch = Inotify\<rparr>"

definition sample_client_fs :: fsys where
  "sample_client_fs = set_node [''srv'', ''sync_dir_u'', ''g''] (File [9]) (del_node [''srv'', ''sync_dir_u'', ''f''] sample_fs)"

lemma sample_client_fs_nodes:
  "node_at sample_client_fs q = (if q = [] \<or> q = [''srv''] \<or> q = [''srv'', ''sync_dir_u''] then Some Directory
     else if q = [''srv'', ''sync_dir_u'', ''g''] then Some (File [9]) else None)"
  by (simp add: sample_client_fs_def sample_fs_nodes)

lemma sample_client_cwd: "cwd sample_client_fs = [''srv'']"
  by (simp add: sample_client_fs_def sample_fs_cwd)

lemma sample_client_layout: "layout sample_client_fs"
proof (rule layoutI)
  show "fs_tree sample_client_fs"
    unfolding fs_tree_def by (auto simp: sample_client_fs_nodes split: if_splits)
qed (simp_all add: sample_client_fs_nodes sample_client_cwd dir_of_def SyncDirWithPrefix_def)

lemma sample_names:
  "names_ok sample_fs" "names_ok sample_client_fs" "names_of sample_fs ''u'' = [''f'']" "files_ok sample_fs ''u''"
proof -
  show names: "names_of sample_fs ''u'' = [''f'']"
    by (simp add: names_of_def directory_names_def sample_fs_def resolve_def step_name_def
        SyncDirWithPrefix_def kSyncDirPrefix_def)
  show "names_ok sample_fs"
    by (simp add: names_ok_def sample_fs_def simple_name_def)
  show "names_ok sample_client_fs"
    by (simp add: names_ok_def sample_client_fs_def sample_fs_def set_node_def del_node_def simple_name_def)
  show "files_ok sample_fs ''u''"
    by (simp add: files_ok_def names sample_contents str_ok_def size_ok_def)
qed

theorem get_sync_dir_roundtrip_witness:
  "\<exists>x' c' cl'. Handler_GetSyncDir pb_codec sample_fs ''sync_dir_u'' \<lparr>xpath = [], strm = fresh []\<rparr> = Some (Inr (True, x'))
    \<and> Client_GetSyncDir pb_codec (sample_client (sync_dir_msg pb_codec sample_fs ''u'') []) sample_client_fs
        = Some (Inr True, c', cl')
    \<and> contents cl' ''u'' ''f'' = Some [1, 2, 3] \<and> contents cl' ''u'' ''g'' = None"
proof -
  have "length (sync_dir_msg pb_codec sample_fs ''u'') \<le> kBufferSize"
    by (simp add: sync_dir_msg_def entries_msg_def entry_msg_def file_msg_def sample_names sample_contents
        pb_codec_def kBufferSize_val)
  then show ?thesis
    using get_sync_dir_roundtrip [OF pb_codec_ok, of "''u''" sample_fs "\<lparr>xpath = [], strm = fresh []\<rparr>"
        sample_client_fs "sample_client (sync_dir_msg pb_codec sample_fs ''u'') []" "[]"]
      sample_layout sample_client_layout sample_has_dir sample_names
    by (auto simp: user_name_def sample_client_def sample_contents SyncDirWithPrefix_def kSyncDirPrefix_def)
qed

end
