(* ===== verification/Transfers.thy ===== *)
theory Transfers
  imports Prelude Commands SocketStream FileSystem Exchange Layout Replica ClientHandler Inotify Client
begin

text \<open>
  Single transfers between a client and its handler: the two ends of \<^verbatim>\<open>Download\<close>, and
  what \<^verbatim>\<open>Client::Upload\<close> does to the stream, to the directory and to the watcher.
\<close>

section \<open>Streams with nothing left to read\<close>

lemma drained_idle: "incoming s = [] \<Longrightarrow> idle s"
  by (auto simp: incoming_def unread_def block_def idle_def)

lemma took_ready: "took [] s s' \<Longrightarrow> ready (x\<lparr>xpath := p, strm := s'\<rparr>)"
  by (simp add: took_def ready_def drained_idle)

lemma wrote_room: "wrote bs s t \<Longrightarrow> length bs + n \<le> room s \<Longrightarrow> n \<le> room t"
  by (simp add: wrote_def)

section \<open>Download\<close>

definition download_reply :: "codec \<Rightarrow> fsys \<Rightarrow> string \<Rightarrow> string \<Rightarrow> byte list" where
  "download_reply C sv u f = (case contents sv u f of
     None \<Rightarrow> enc_cmd C (cmd_code kError)
   | Some bs \<Rightarrow> enc_cmd C (cmd_code kSuccess) @ file_msg C bs)"

lemma Handler_Download_replies:
  assumes "codec_ok C" and "layout sv" and "has_dir sv u" and "user_name u" and "simple_name f"
    and "str_ok (user_path u f)" and "sound (strm (fe h))"
    and "incoming (strm (fe h)) = enc_str C (user_path u f)"
    and "length (download_reply C sv u f) \<le> room (strm (fe h))"
  obtains h' where "Handler_Download C sv h = Some (contents sv u f \<noteq> None, h')"
    and "outgoing (strm (fe h')) = outgoing (strm (fe h)) @ download_reply C sv u f"
proof -
  let ?p = "user_path u f"
  obtain s1 where s1: "ReceivePath C (fe h) = (True, (fe h)\<lparr>xpath := ?p, strm := s1\<rparr>)"
    "took [] (strm (fe h)) s1"
    by (rule ReceivePath_ok [where rest = "[]", OF assms(1,7) _ assms(6)]) (use assms(8) that in auto)
  let ?x = "(fe h)\<lparr>xpath := ?p, strm := s1\<rparr>"
  have x: "ready ?x" "room (strm (fe h)) \<le> room (strm ?x)" "outgoing (strm ?x) = outgoing (strm (fe h))"
    using took_ready [OF s1(2)] s1(2) by (simp_all add: took_def)
  note st = status_user_path [OF assms(2-5)]
  show thesis
  proof (cases "contents sv u f")
    case None
    then have "length (enc_cmd C (cmd_code kError)) \<le> room (strm ?x)"
      using assms(9) x(2) by (simp add: download_reply_def)
    then obtain s2 where "SendCommand C kError ?x = Some (?x\<lparr>strm := s2\<rparr>)"
      "wrote (enc_cmd C (cmd_code kError)) (strm ?x) s2"
      by (rule SendCommand_ready [OF x(1)]) (rule that; assumption)
    then show thesis
      using that [of "h\<lparr>fe := ?x\<lparr>strm := s2\<rparr>\<rparr>"] s1(1) None x(3)
      by (simp add: Handler_Download_def exists_path_def st download_reply_def wrote_def)
  next
    case (Some bs)
    let ?k = "enc_cmd C (cmd_code kSuccess)"
    have len: "length ?k + length (file_msg C bs) \<le> room (strm ?x)"
      using assms(9) x(2) Some by (simp add: download_reply_def)
    then have "length ?k \<le> room (strm ?x)"
      by simp
    then obtain s2 where s2: "SendCommand C kSuccess ?x = Some (?x\<lparr>strm := s2\<rparr>)"
      "wrote ?k (strm ?x) s2"
      by (rule SendCommand_ready [OF x(1)]) (rule that; assumption)
    have y: "ready (?x\<lparr>strm := s2\<rparr>)" "status sv (xpath (?x\<lparr>strm := s2\<rparr>)) = Some (File bs)"
      "length (file_msg C bs) \<le> room (strm (?x\<lparr>strm := s2\<rparr>))"
      using wrote_ready [OF s2(2)] wrote_room [OF s2(2) len] st Some by (simp_all add: ready_def)
    obtain s3 where "Send C sv (?x\<lparr>strm := s2\<rparr>) = (True, ?x\<lparr>strm := s2\<rparr>\<lparr>strm := s3\<rparr>)"
      "wrote (file_msg C bs) (strm (?x\<lparr>strm := s2\<rparr>)) s3"
      by (rule Send_ready [OF y]) (rule that; assumption)
    then show thesis
      using that [of "h\<lparr>fe := ?x\<lparr>strm := s3\<rparr>\<rparr>"] s1(1) s2 Some x(3)
      by (simp add: Handler_Download_def exists_path_def st download_reply_def wrote_def)
  qed
qed

text \<open>What \<^verbatim>\<open>Client::Download\<close> does once its request is out.\<close>

definition download_answer :: "codec \<Rightarrow> string \<Rightarrow> client \<Rightarrow> fsys \<Rightarrow> fexch \<Rightarrow> (bool \<times> client \<times> fsys) option" where
  "download_answer C f c cl y = (case ReceiveCommand C y of
       (Inl _, x3) \<Rightarrow> Some (False, c\<lparr>payload_fe := x3\<rparr>, cl)
     | (Inr w, x3) \<Rightarrow>
         (if w = Cmd kError then Some (False, c\<lparr>payload_fe := x3\<rparr>, cl)
          else case Receive C cl (SetPath f x3) of
              None \<Rightarrow> None
            | Some (ok, x4, cl') \<Rightarrow> Some (ok, c\<lparr>payload_fe := x4\<rparr>, cl')))"

lemma Client_Download_request:
  assumes "ready (payload_fe c)" and "c_user c = u" and "simple_name f" and "user_name u"
    and "length (path_msg C kDownload (user_path u f)) \<le> room (strm (payload_fe c))"
  obtains y where "Client_Download C f c cl = download_answer C f c cl y"
    and "ready y" and "incoming (strm y) = incoming (strm (payload_fe c))"
    and "tx (ep (strm y)) = outgoing (strm (payload_fe c)) @ path_msg C kDownload (user_path u f)"
    and "outgoing (strm y) = tx (ep (strm y))"
proof -
  obtain s1 s2 where s: "SendCommand C kDownload (payload_fe c) = Some ((payload_fe c)\<lparr>strm := s1\<rparr>)"
    "SendPath C (SetPath (user_path u f) ((payload_fe c)\<lparr>strm := s1\<rparr>))
       = (True, (payload_fe c)\<lparr>xpath := user_path u f, strm := s2\<rparr>)"
    "wrote (path_msg C kDownload (user_path u f)) (strm (payload_fe c)) s2"
    by (rule path_msg_ready [OF assms(1,5)]) (rule that; assumption)
  let ?y = "Flush ((payload_fe c)\<lparr>xpath := user_path u f, strm := s2\<rparr>)"
  have rd: "ready ((payload_fe c)\<lparr>xpath := user_path u f, strm := s2\<rparr>)"
    using s(3) by (rule wrote_ready_fexch)
  have "path_append (c_SyncDirPath c) f = user_path u f"
    using assms(2) by (simp add: c_SyncDirPath_def user_path_def)
  then have "Client_Download C f c cl = download_answer C f c cl ?y"
    by (simp add: Client_Download_def download_answer_def s(1,2))
  then show thesis
    using that [of ?y] Flush_ready [OF rd] s(3) by (simp add: wrote_def)
qed

lemma download_answered:
  assumes "codec_ok C" and "sound (strm y)" and "incoming (strm y) = download_reply C sv u f @ rest"
    and "\<And>bs. contents sv u f = Some bs \<Longrightarrow> size_ok bs" and "writable cl f q"
  shows "\<exists>c' cl'. download_answer C f c cl y = Some (contents sv u f \<noteq> None, c', cl')
    \<and> outgoing (strm (payload_fe c')) = outgoing (strm y) \<and> incoming (strm (payload_fe c')) = rest
    \<and> node_at cl' = (case contents sv u f of None \<Rightarrow> node_at cl | Some bs \<Rightarrow> (node_at cl)(q \<mapsto> File bs))"
proof (cases "contents sv u f")
  case None
  then have "incoming (strm y) = enc_cmd C (cmd_code kError) @ rest"
    using assms(3) by (simp add: download_reply_def)
  then obtain s where "ReceiveCommand C y = (Inr (Cmd kError), y\<lparr>strm := s\<rparr>)" "took rest (strm y) s"
    by (rule ReceiveCommand_ok [OF assms(1,2), of "cmd_code kError", unfolded wire_of_cmd])
      (rule that; assumption)
  then show ?thesis
    using None by (simp add: download_answer_def took_def)
next
  case (Some bs)
  then have "incoming (strm y) = enc_cmd C (cmd_code kSuccess) @ (file_msg C bs @ rest)"
    using assms(3) by (simp add: download_reply_def)
  then obtain s where s: "ReceiveCommand C y = (Inr (Cmd kSuccess), y\<lparr>strm := s\<rparr>)"
    "took (file_msg C bs @ rest) (strm y) s"
    by (rule ReceiveCommand_ok [OF assms(1,2), of "cmd_code kSuccess", unfolded wire_of_cmd])
      (rule that; assumption)
  let ?z = "SetPath f (y\<lparr>strm := s\<rparr>)"
  have z: "writable cl (xpath ?z) q" "size_ok bs" "sound (strm ?z)" "incoming (strm ?z) = file_msg C bs @ rest"
    using assms(4,5) Some took_sound [OF s(2)] by simp_all
  obtain s' cl' where "Receive C cl ?z = Some (True, ?z\<lparr>strm := s'\<rparr>, cl')" "took rest (strm ?z) s'"
    "node_at cl' = (node_at cl)(q \<mapsto> File bs)"
    by (rule Receive_ok [OF assms(1) z]) (rule that; assumption)
  then show ?thesis
    using s Some by (simp add: download_answer_def took_def)
qed

text \<open>
  C23. A download that finds the file on the server stores the server's contents under the name
  given, in the working directory of the client, and changes no other file; one that does not
  is answered by \<^verbatim>\<open>kError\<close>, reported as a failure, and changes nothing.
\<close>

theorem download_roundtrip:
  assumes "codec_ok C" and "user_name u" and "simple_name f" and "str_ok (user_path u f)"
    and "layout sv" and "has_dir sv u" and "\<And>bs. contents sv u f = Some bs \<Longrightarrow> size_ok bs"
    and "sound (strm (fe h))" and "incoming (strm (fe h)) = enc_str C (user_path u f)"
    and "length (download_reply C sv u f) \<le> room (strm (fe h))"
    and "ready (payload_fe c)" and "c_user c = u" and "writable cl f q"
    and "length (path_msg C kDownload (user_path u f)) \<le> room (strm (payload_fe c))"
    and "incoming (strm (payload_fe c)) = download_reply C sv u f @ rest"
  shows "\<exists>h' c' cl'. Handler_Download C sv h = Some (contents sv u f \<noteq> None, h')
    \<and> outgoing (strm (fe h')) = outgoing (strm (fe h)) @ download_reply C sv u f
    \<and> Client_Download C f c cl = Some (contents sv u f \<noteq> None, c', cl')
    \<and> outgoing (strm (payload_fe c')) = outgoing (strm (payload_fe c)) @ path_msg C kDownload (user_path u f)
    \<and> incoming (strm (payload_fe c')) = rest
    \<and> node_at cl' = (case contents sv u f of None \<Rightarrow> node_at cl | Some bs \<Rightarrow> (node_at cl)(q \<mapsto> File bs))"
proof -
  obtain h' where h': "Handler_Download C sv h = Some (contents sv u f \<noteq> None, h')"
    "outgoing (strm (fe h')) = outgoing (strm (fe h)) @ download_reply C sv u f"
    by (rule Handler_Download_replies [OF assms(1,5,6,2,3,4,8-10)]) (rule that; assumption)
  obtain y where y: "Client_Download C f c cl = download_answer C f c cl y"
    "sound (strm y)" "incoming (strm y) = download_reply C sv u f @ rest"
    "outgoing (strm y) = outgoing (strm (payload_fe c)) @ path_msg C kDownload (user_path u f)"
    by (rule Client_Download_request [OF assms(11,12,3,2,14), of cl]) (use that assms(15) in \<open>auto simp: ready_def\<close>)
  show ?thesis
    using download_answered [OF assms(1) y(2,3) assms(7,13), of c] h' y(1,4) by auto
qed

definition sample_download :: "fexch" where
  "sample_download = \<lparr>xpath = [], strm = fresh (enc_str pb_codec ''sync_dir_u/f'')\<rparr>"

lemma sample_cwd_writable: "writable sample_client_fs ''f'' [''srv'', ''f'']"
proof -
  have "fs_tree sample_client_fs"
    using sample_client_layout by (rule layoutD(1))
  moreover have "resolve sample_client_fs ''f'' = Inr [''srv'', ''f'']"
    by (simp add: sample_client_fs_def sample_fs_def resolve_def set_node_def del_node_def step_name_def)
  ultimately show ?thesis
    by (simp add: writable_def sample_client_fs_nodes)
qed

theorem download_roundtrip_witness:
  "\<exists>h' c' cl'. Handler_Download pb_codec sample_fs ((sample_handler [])\<lparr>fe := sample_download\<rparr>) = Some (True, h')
    \<and> Client_Download pb_codec ''f'' (sample_client (download_reply pb_codec sample_fs ''u'' ''f'') []) sample_client_fs
        = Some (True, c', cl')
    \<and> node_at cl' [''srv'', ''f''] = Some (File [1, 2, 3])"
proof -
  have bs: "size_ok bs" if "contents sample_fs ''u'' ''f'' = Some bs" for bs
    using that by (auto simp: sample_contents size_ok_def)
  show ?thesis
    using download_roundtrip [OF pb_codec_ok, of "''u''" "''f''" sample_fs
        "(sample_handler [])\<lparr>fe := sample_download\<rparr>" "sample_client (download_reply pb_codec sample_fs ''u'' ''f'') []"
        sample_client_fs "[''srv'', ''f'']" "[]", OF _ _ _ sample_layout sample_has_dir bs]
      sample_cwd_writable
    by (auto simp: user_name_def simple_name_def str_ok_def sample_download_def sample_client_def sample_contents
        download_reply_def file_msg_def path_msg_def pb_codec_def kBufferSize_val)
qed

section \<open>Upload\<close>

text \<open>Sending the command, the destination and the contents: \<^verbatim>\<open>Upload\<close> up to the copy.\<close>

lemma Client_Upload_sends:
  assumes "ready (payload_fe c)" and "c_user c = u" and "user_name u" and "simple_name f" and "filename p = f"
    and "status cl p = Some (File bs)"
    and "length (op_msg C (Put u f bs)) \<le> room (strm (payload_fe c))"
  obtains x where "Client_Upload C p c cl =
      (let c1 = c\<lparr>payload_fe := x, watch := Pause (watch c)\<rparr> in
       case copy_file cl p (user_path u f) of
         Inl _ \<Rightarrow> Some (False, c1, cl)
       | Inr fs' \<Rightarrow> Some (True, c1\<lparr>watch := Resume (watch c1)\<rparr>, fs'))"
    and "wrote (op_msg C (Put u f bs)) (strm (payload_fe c)) (strm x)"
proof -
  let ?x = "payload_fe c" and ?d = "user_path u f"
  have len: "length (path_msg C kUpload ?d) \<le> room (strm ?x)"
    using assms(7) by (simp add: upload_msg_def)
  obtain s1 s2 where s: "SendCommand C kUpload ?x = Some (?x\<lparr>strm := s1\<rparr>)"
    "SendPath C (SetPath ?d (?x\<lparr>strm := s1\<rparr>)) = (True, ?x\<lparr>xpath := ?d, strm := s2\<rparr>)"
    "wrote (path_msg C kUpload ?d) (strm ?x) s2"
    by (rule path_msg_ready [OF assms(1) len]) (rule that; assumption)
  let ?y = "SetPath p (?x\<lparr>xpath := ?d, strm := s2\<rparr>)"
  have y: "ready ?y" "status cl (xpath ?y) = Some (File bs)" "length (file_msg C bs) \<le> room (strm ?y)"
    using wrote_ready [OF s(3)] assms(6,7) by (simp_all add: ready_def upload_msg_def)
  obtain s3 where s3: "Send C cl ?y = (True, ?y\<lparr>strm := s3\<rparr>)" "wrote (file_msg C bs) (strm ?y) s3"
    by (rule Send_ready [OF y]) (rule that; assumption)
  have dest: "path_append (c_SyncDirPath c) (filename p) = ?d"
    by (simp add: c_SyncDirPath_def user_path_def assms(2,5))
  show thesis
  proof (rule that)
    show "Client_Upload C p c cl =
      (let c1 = c\<lparr>payload_fe := ?y\<lparr>strm := s3\<rparr>, watch := Pause (watch c)\<rparr> in
       case copy_file cl p ?d of
         Inl _ \<Rightarrow> Some (False, c1, cl)
       | Inr fs' \<Rightarrow> Some (True, c1\<lparr>watch := Resume (watch c1)\<rparr>, fs'))"
      by (simp add: Client_Upload_def dest s(1,2) s3(1) Let_def)
    show "wrote (op_msg C (Put u f bs)) (strm ?x) (strm (?y\<lparr>strm := s3\<rparr>))"
      using wrote_trans [OF s(3)] s3(2) by (simp add: upload_msg_def)
  qed
qed

lemma copied:
  assumes "resolve cl p = Inr q" and "node_at cl q = Some (File bs)" and "resolve cl d = Inr r"
    and "node_at cl r \<noteq> Some Directory" and "q \<noteq> r"
  shows "copy_file cl p d = Inr (set_node r (File bs) cl)"
  using assms by (auto simp: copy_file_def simp flip: node_at_def split: option.splits node.splits)

text \<open>
  A successful upload keeps the two sides equal: what is sent is the message that makes the
  server store the contents of the given file under its name, the same contents are stored
  in the client's directory, and the watcher is running afterwards.
\<close>

lemma Client_Upload_stores_and_sends:
  assumes "ready (payload_fe c)" and "c_user c = u" and "user_name u" and "simple_name f" and "filename p = f"
    and "layout cl" and "has_dir cl u" and "resolve cl p = Inr q" and "node_at cl q = Some (File bs)"
    and "q \<noteq> dir_of cl u @ [f]" and "length (op_msg C (Put u f bs)) \<le> room (strm (payload_fe c))"
  shows "\<exists>c' cl'. Client_Upload C p c cl = Some (True, c', cl')
    \<and> outgoing (strm (payload_fe c')) = outgoing (strm (payload_fe c)) @ op_msg C (Put u f bs)
    \<and> layout cl' \<and> contents cl' = apply_op (Put u f bs) (contents cl) \<and> \<not> pause (watch c')
    \<and> ready (payload_fe c')"
proof -
  let ?r = "dir_of cl u @ [f]"
  note rd = resolve_user_path [OF assms(6,7,3,4)]
  have st: "status cl p = Some (File bs)"
    using status_node [OF assms(8)] assms(9) by simp
  obtain x where x: "Client_Upload C p c cl =
      (let c1 = c\<lparr>payload_fe := x, watch := Pause (watch c)\<rparr> in
       case copy_file cl p (user_path u f) of
         Inl _ \<Rightarrow> Some (False, c1, cl)
       | Inr fs' \<Rightarrow> Some (True, c1\<lparr>watch := Resume (watch c1)\<rparr>, fs'))"
    "wrote (op_msg C (Put u f bs)) (strm (payload_fe c)) (strm x)"
    by (rule Client_Upload_sends [OF assms(1-5) st assms(11)]) (rule that; assumption)
  have cp: "copy_file cl p (user_path u f) = Inr (set_node ?r (File bs) cl)"
    using copied [OF assms(8,9) rd] layoutD(4) [OF assms(6,3,4)] assms(10) by blast
  have "node_at (set_node ?r (File bs) cl) = (node_at cl)(?r \<mapsto> File bs)" "cwd (set_node ?r (File bs) cl) = cwd cl"
    by (simp_all add: set_node_def flip: node_at_set)
  note put = put_user_file [OF assms(6,7,3,4) this]
  show ?thesis
    using x cp put(1,3) by (simp add: wrote_def ready_def Resume_def)
qed

definition sample_upload_fs :: fsys where
  "sample_upload_fs = set_node [''srv'', ''f''] (File [4, 5]) sample_client_fs"

lemma sample_upload_fs_ok:
  "layout sample_upload_fs" "has_dir sample_upload_fs ''u''" "resolve sample_upload_fs ''f'' = Inr [''srv'', ''f'']"
  "node_at sample_upload_fs [''srv'', ''f''] = Some (File [4, 5])" "cwd sample_upload_fs = [''srv'']"
proof -
  show cwd: "cwd sample_upload_fs = [''srv'']"
    by (simp add: sample_upload_fs_def sample_client_cwd)
  show "node_at sample_upload_fs [''srv'', ''f''] = Some (File [4, 5])"
    by (simp add: sample_upload_fs_def)
  show "resolve sample_upload_fs ''f'' = Inr [''srv'', ''f'']"
    by (simp add: sample_upload_fs_def sample_client_fs_def sample_fs_def resolve_def set_node_def del_node_def step_name_def)
  show "has_dir sample_upload_fs ''u''"
    by (simp add: sample_upload_fs_def has_dir_def dir_of_def sample_client_fs_nodes sample_client_cwd
        SyncDirWithPrefix_def kSyncDirPrefix_def)
  have "fs_tree sample_upload_fs"
    unfolding fs_tree_def
    by (auto simp: sample_upload_fs_def sample_client_fs_nodes split: if_splits)
  then show "layout sample_upload_fs"
    by (rule layoutI) (auto simp: sample_upload_fs_def sample_client_fs_nodes sample_client_cwd dir_of_def
        SyncDirWithPrefix_def kSyncDirPrefix_def)
qed

text \<open>
  Uploading a file from inside the synchronised directory sends it and then reports a
  failure, since source and destination of the copy are the same file; the exception skips
  \<^verbatim>\<open>Resume\<close>, so the watcher stays paused and drops every batch of events it reads.
\<close>

theorem failed_copy_leaves_paused:
  assumes "ready (payload_fe c)" and "c_user c = u" and "user_name u" and "simple_name f"
    and "layout cl" and "contents cl u f = Some bs"
    and "length (op_msg C (Put u f bs)) \<le> room (strm (payload_fe c))"
  shows "\<exists>c'. Client_Upload C (user_path u f) c cl = Some (False, c', cl)
    \<and> outgoing (strm (payload_fe c')) = outgoing (strm (payload_fe c)) @ op_msg C (Put u f bs)
    \<and> (\<forall>es. vector (store_batch es (watch c')) = vector (watch c))"
proof -
  have dir: "has_dir cl u"
    by (rule contents_dir [OF assms(5), of u f]) (simp add: assms(6))
  have fn: "filename (user_path u f) = f"
    using assms(3,4) by (simp add: user_path_eq filename_in_dir simple_name_def)
  have st: "status cl (user_path u f) = Some (File bs)"
    using status_user_path [OF assms(5) dir assms(3,4)] assms(6) by simp
  obtain x where x: "Client_Upload C (user_path u f) c cl =
      (let c1 = c\<lparr>payload_fe := x, watch := Pause (watch c)\<rparr> in
       case copy_file cl (user_path u f) (user_path u f) of
         Inl _ \<Rightarrow> Some (False, c1, cl)
       | Inr fs' \<Rightarrow> Some (True, c1\<lparr>watch := Resume (watch c1)\<rparr>, fs'))"
    "wrote (op_msg C (Put u f bs)) (strm (payload_fe c)) (strm x)"
    by (rule Client_Upload_sends [OF assms(1-4) fn st assms(7)]) (rule that; assumption)
  have "copy_file cl (user_path u f) (user_path u f) = Inl EEXIST"
    using st by (simp add: copy_file_def status_def split: sum.splits)
  then show ?thesis
    using x by (simp add: wrote_def store_batch_def Pause_def)
qed

theorem failed_copy_leaves_paused_witness:
  "\<exists>c'. Client_Upload pb_codec ''sync_dir_u/f'' (sample_client [] []) sample_fs = Some (False, c', sample_fs)
    \<and> vector (store_batch [written ''g''] (watch c')) = []"
  using failed_copy_leaves_paused [of "sample_client [] []" "''u''" "''f''" sample_fs "[1, 2, 3]" pb_codec]
    sample_layout
  by (auto simp: sample_client_def sample_contents user_name_def simple_name_def upload_msg_def
      path_msg_def file_msg_def pb_codec_def kBufferSize_val Inotify_def)

end
