(* ===== verification/ClientSync.thy ===== *)
theory ClientSync
  imports Prelude Commands SocketStream FileSystem Exchange Layout Replica Composite ClientHandler Inotify Client Transfers
begin

text \<open>
  The two continuous directions of synchronisation between a client and its handler: the
  client's \<^verbatim>\<open>SyncFromServer\<close> against what a broadcast sends, and the handler's
  \<^verbatim>\<open>SyncFromClient\<close> against what the client's \<^verbatim>\<open>SyncFromClient\<close> sends for the
  actions of the watcher. Both readers are instances of one interface, a loop that performs
  one operation per turn.
\<close>

section \<open>A loop that performs operations\<close>

lemma op_msg_split:
  obtains k r where "op_msg C a = enc_cmd C (cmd_code k) @ r"
    and "(\<exists>u f bs. a = Put u f bs \<and> k = kUpload \<and> r = enc_str C (user_path u f) @ file_msg C bs)
      \<or> (\<exists>u f. a = Del u f \<and> k = kDelete \<and> r = enc_str C (user_path u f))"
  by (cases a) (auto simp: upload_msg_def path_msg_def)

locale replay =
  fixes C :: codec and stop :: "nat \<Rightarrow> bool" and run :: "nat \<Rightarrow> 'x \<Rightarrow> 'r option"
    and stream :: "'x \<Rightarrow> sstream" and inv :: "'x \<Rightarrow> bool" and admits :: "'x \<Rightarrow> op \<Rightarrow> bool"
    and effect :: "op list \<Rightarrow> 'x \<Rightarrow> 'x \<Rightarrow> bool"
  assumes turn: "codec_ok C \<Longrightarrow> inv x \<Longrightarrow> admits x a \<Longrightarrow> \<not> stop i \<Longrightarrow> sound (stream x)
      \<Longrightarrow> incoming (stream x) = op_msg C a @ rest
      \<Longrightarrow> \<exists>x'. run i x = run (i + 1) x' \<and> took rest (stream x) (stream x') \<and> effect [a] x x'"
    and effect_refl: "inv x \<Longrightarrow> effect [] x x"
    and effect_trans: "effect as x y \<Longrightarrow> effect bs y z \<Longrightarrow> effect (as @ bs) x z"
    and effect_inv: "effect as x y \<Longrightarrow> inv x \<Longrightarrow> inv y"
    and effect_admits: "effect as x y \<Longrightarrow> admits x a \<Longrightarrow> admits y a"
begin

lemma replays:
  assumes "codec_ok C" and "inv x" and "list_all (admits x) ops" and "sound (stream x)"
    and "incoming (stream x) = op_msgs C ops @ rest" and "\<forall>j<length ops. \<not> stop (i + j)"
  shows "\<exists>x'. run i x = run (i + length ops) x' \<and> incoming (stream x') = rest \<and> sound (stream x')
    \<and> effect ops x x'"
  using assms(2-)
proof (induction ops arbitrary: x i)
  case Nil
  then show ?case
    using effect_refl by auto
next
  case (Cons a ops)
  have "\<not> stop i"
    using Cons.prems(5) by (metis add.right_neutral length_Cons zero_less_Suc)
  moreover have "incoming (stream x) = op_msg C a @ (op_msgs C ops @ rest)"
    using Cons.prems(4) by simp
  ultimately obtain y where y: "run i x = run (i + 1) y" "took (op_msgs C ops @ rest) (stream x) (stream y)"
    "effect [a] x y"
    using turn [OF assms(1) Cons.prems(1), of a i "op_msgs C ops @ rest"] Cons.prems(2,3) by auto
  have "\<forall>j<length ops. \<not> stop (i + 1 + j)"
    using Cons.prems(5) by (metis Suc_less_eq add.assoc add.commute length_Cons plus_1_eq_Suc)
  moreover have "list_all (admits y) ops"
    using Cons.prems(2) effect_admits [OF y(3)] by (simp add: list_all_iff)
  ultimately obtain z where "run (i + 1) y = run (i + 1 + length ops) z" "incoming (stream z) = rest"
    "sound (stream z)" "effect ops y z"
    using Cons.IH [OF effect_inv [OF y(3) Cons.prems(1)], of "i + 1"] took_sound [OF y(2)] by auto
  then show ?case
    using y(1) effect_trans [OF y(3)] by (auto simp: add.assoc)
qed

end

section \<open>The client follows its server\<close>

definition client_inv :: "client \<times> fsys \<Rightarrow> bool" where
  "client_inv x = (layout (snd x) \<and> has_dir (snd x) (c_user (fst x)))"

definition client_admits :: "client \<times> fsys \<Rightarrow> op \<Rightarrow> bool" where
  "client_admits x a = (op_ok a \<and> op_user a = c_user (fst x))"

definition client_effect :: "op list \<Rightarrow> client \<times> fsys \<Rightarrow> client \<times> fsys \<Rightarrow> bool" where
  "client_effect ops x y = (follows (snd x) (snd y) ops \<and> c_user (fst y) = c_user (fst x)
     \<and> payload_fe (fst y) = payload_fe (fst x) \<and> client_fe (fst y) = client_fe (fst x)
     \<and> queue (watch (fst y)) = queue (watch (fst x)) \<and> vector (watch (fst y)) = vector (watch (fst x)))"

lemma Client_put:
  assumes "codec_ok C" and "client_inv (c, fs)" and "client_admits (c, fs) (Put u f bs)"
    and "sound (strm (server_fe c))"
    and "incoming (strm (server_fe c)) = enc_str C (user_path u f) @ file_msg C bs @ rest"
  obtains c' fs' where "Client_command C (Cmd kUpload) c fs = Some (c', fs')"
    and "took rest (strm (server_fe c)) (strm (server_fe c'))"
    and "client_effect [Put u f bs] (c, fs) (c', fs')"
proof -
  let ?x = "server_fe c" and ?p = "user_path u f"
  have ok: "user_name u" "simple_name f" "str_ok ?p" "size_ok bs" "layout fs" "has_dir fs u"
    using assms(2,3) by (auto simp: client_admits_def client_inv_def)
  obtain s1 where s1: "ReceivePath C ?x = (True, ?x\<lparr>xpath := ?p, strm := s1\<rparr>)"
    "took (file_msg C bs @ rest) (strm ?x) s1"
    by (rule ReceivePath_ok [OF assms(1,4,5) ok(3)]) (rule that; assumption)
  let ?x1 = "?x\<lparr>xpath := ?p, strm := s1\<rparr>"
  have in1: "xpath ?x1 = ?p" "sound (strm ?x1)" "incoming (strm ?x1) = file_msg C bs @ rest"
    using took_sound [OF s1(2)] by simp_all
  obtain s2 fs2 where r: "Receive C fs ?x1 = Some (True, ?x1\<lparr>strm := s2\<rparr>, fs2)"
    "took rest (strm ?x1) s2" "layout fs2" "cwd fs2 = cwd fs" "\<And>v. has_dir fs2 v \<longleftrightarrow> has_dir fs v"
    "contents fs2 = (contents fs)(u := (contents fs u)(f \<mapsto> bs))"
    by (rule Receive_user_file [OF assms(1) ok(5,6,1,2) in1(1) ok(4) in1(2,3)]) (rule that; assumption)
  show thesis
    by (rule that [of "c\<lparr>server_fe := ?x1\<lparr>strm := s2\<rparr>, watch := Resume (Pause (watch c))\<rparr>" fs2])
      (use s1 r took_trans [OF s1(2)] in \<open>simp_all add: Client_command_def client_effect_def follows_def
          Pause_def Resume_def\<close>)
qed

lemma Client_del:
  assumes "codec_ok C" and "client_inv (c, fs)" and "client_admits (c, fs) (Del u f)"
    and "sound (strm (server_fe c))"
    and "incoming (strm (server_fe c)) = enc_str C (user_path u f) @ rest"
  obtains c' fs' where "Client_command C (Cmd kDelete) c fs = Some (c', fs')"
    and "took rest (strm (server_fe c)) (strm (server_fe c'))"
    and "client_effect [Del u f] (c, fs) (c', fs')"
proof -
  let ?x = "server_fe c" and ?p = "user_path u f"
  have ok: "user_name u" "simple_name f" "str_ok ?p" "layout fs" "has_dir fs u"
    using assms(2,3) by (auto simp: client_admits_def client_inv_def)
  obtain s1 where s1: "ReceivePath C ?x = (True, ?x\<lparr>xpath := ?p, strm := s1\<rparr>)"
    "took rest (strm ?x) s1"
    by (rule ReceivePath_ok [OF assms(1,4,5) ok(3)]) (rule that; assumption)
  let ?x1 = "?x\<lparr>xpath := ?p, strm := s1\<rparr>"
  note st = status_user_path [OF ok(4,5,1,2)]
  show thesis
  proof (cases "contents fs u f")
    case None
    then show thesis
      using that [of "c\<lparr>server_fe := ?x1\<rparr>" fs] s1 ok(4) apply_del_missing [of "contents fs" u f, OF None]
      by (simp add: Client_command_def exists_path_def st client_effect_def follows_def)
  next
    case (Some bs)
    obtain fs2 where fs2: "fs_remove fs ?p = Inr (True, fs2)" "layout fs2"
      "cwd fs2 = cwd fs" "\<And>v. has_dir fs2 v \<longleftrightarrow> has_dir fs v"
      "contents fs2 = (contents fs)(u := (contents fs u)(f := None))"
      by (rule remove_user_file [OF ok(4,5,1,2) Some]) (rule that; assumption)
    then show thesis
      using that [of "c\<lparr>server_fe := ?x1, watch := Resume (Pause (watch c))\<rparr>" fs2] s1 Some
      by (simp add: Client_command_def exists_path_def st client_effect_def follows_def Pause_def Resume_def)
  qed
qed

lemma client_effect_server_fe:
  "client_effect ops (c\<lparr>server_fe := x\<rparr>, fs) y \<longleftrightarrow> client_effect ops (c, fs) y"
  by (simp add: client_effect_def)

text \<open>One turn of the loop.\<close>

lemma SyncFromServer_turn:
  assumes "codec_ok C" and "client_inv (c, fs)" and "client_admits (c, fs) a" and "\<not> stop i"
    and "sound (strm (server_fe c))" and "incoming (strm (server_fe c)) = op_msg C a @ rest"
  shows "\<exists>y. SyncFromServer_loop C stop net i c fs = SyncFromServer_loop C stop net (i + 1) (fst y) (snd y)
    \<and> took rest (strm (server_fe c)) (strm (server_fe (fst y))) \<and> client_effect [a] (c, fs) y"
proof -
  obtain k r where k: "op_msg C a = enc_cmd C (cmd_code k) @ r"
    and a: "(\<exists>u f bs. a = Put u f bs \<and> k = kUpload \<and> r = enc_str C (user_path u f) @ file_msg C bs)
      \<or> (\<exists>u f. a = Del u f \<and> k = kDelete \<and> r = enc_str C (user_path u f))"
    by (rule op_msg_split [of C a]) (rule that; assumption)
  have "incoming (strm (server_fe c)) = enc_cmd C (cmd_code k) @ (r @ rest)"
    using assms(6) k by simp
  then obtain s1 where s1: "ReceiveCommand C (server_fe c) = (Inr (Cmd k), (server_fe c)\<lparr>strm := s1\<rparr>)"
    "took (r @ rest) (strm (server_fe c)) s1"
    by (rule ReceiveCommand_ok [OF assms(1,5), of "cmd_code k", unfolded wire_of_cmd]) (rule that; assumption)
  let ?c = "c\<lparr>server_fe := (server_fe c)\<lparr>strm := s1\<rparr>\<rparr>"
  have pre: "client_inv (?c, fs)" "client_admits (?c, fs) a" "sound (strm (server_fe ?c))"
    "incoming (strm (server_fe ?c)) = r @ rest"
    using assms(2,3) took_sound [OF s1(2)] by (simp_all add: client_inv_def client_admits_def)
  have "\<exists>c' fs'. Client_command C (Cmd k) ?c fs = Some (c', fs')
      \<and> took rest (strm (server_fe ?c)) (strm (server_fe c')) \<and> client_effect [a] (?c, fs) (c', fs')"
    using a
  proof (elim disjE exE conjE)
    fix u f bs
    assume e: "a = Put u f bs" "k = kUpload" "r = enc_str C (user_path u f) @ file_msg C bs"
    show ?thesis
      by (rule Client_put [OF assms(1) pre(1), of u f bs rest]) (use pre e in auto)
  next
    fix u f
    assume e: "a = Del u f" "k = kDelete" "r = enc_str C (user_path u f)"
    show ?thesis
      by (rule Client_del [OF assms(1) pre(1), of u f rest]) (use pre e in auto)
  qed
  then obtain c' fs' where r: "Client_command C (Cmd k) ?c fs = Some (c', fs')"
    "took rest s1 (strm (server_fe c'))" "client_effect [a] (c, fs) (c', fs')"
    by (auto simp: client_effect_server_fe)
  show ?thesis
    using s1(1) r(1,3) took_trans [OF s1(2) r(2)] assms(4)
    by (intro exI [of _ "(c', fs')"]) (simp add: SyncFromServer_loop.simps [of C stop net i])
qed

interpretation client_replay: replay C stop "\<lambda>i x. SyncFromServer_loop C stop net i (fst x) (snd x)"
  "\<lambda>x. strm (server_fe (fst x))" client_inv client_admits client_effect for C stop net
proof unfold_locales
  fix x y :: "client \<times> fsys" and a as bs i rest and z
  show "codec_ok C \<Longrightarrow> client_inv x \<Longrightarrow> client_admits x a \<Longrightarrow> \<not> stop i \<Longrightarrow> sound (strm (server_fe (fst x)))
      \<Longrightarrow> incoming (strm (server_fe (fst x))) = op_msg C a @ rest
      \<Longrightarrow> \<exists>y. SyncFromServer_loop C stop net i (fst x) (snd x)
            = SyncFromServer_loop C stop net (i + 1) (fst y) (snd y)
          \<and> took rest (strm (server_fe (fst x))) (strm (server_fe (fst y))) \<and> client_effect [a] x y"
    using SyncFromServer_turn [of C "fst x" "snd x" a stop i rest net] by simp
  show "client_inv x \<Longrightarrow> client_effect [] x x"
    by (simp add: client_inv_def client_effect_def follows_refl)
  show "client_effect as x y \<Longrightarrow> client_effect bs y z \<Longrightarrow> client_effect (as @ bs) x z"
    using follows_trans by (auto simp: client_effect_def)
  show "client_effect as x y \<Longrightarrow> client_inv x \<Longrightarrow> client_inv y"
    by (auto simp: client_effect_def client_inv_def follows_def)
  show "client_effect as x y \<Longrightarrow> client_admits x a \<Longrightarrow> client_admits y a"
    by (simp add: client_effect_def client_admits_def)
qed

section \<open>The handler follows its client\<close>

definition sync_inv :: "handler \<times> srv \<Rightarrow> bool" where
  "sync_inv x = (srv_ready (h_user (fst x)) (snd x) \<and> has_dir (sfs (snd x)) (h_user (fst x)))"

definition sync_admits :: "codec \<Rightarrow> handler \<times> srv \<Rightarrow> op \<Rightarrow> bool" where
  "sync_admits C x a = session_op C (h_user (fst x)) a"

definition sync_effect :: "codec \<Rightarrow> op list \<Rightarrow> handler \<times> srv \<Rightarrow> handler \<times> srv \<Rightarrow> bool" where
  "sync_effect C ops x y = (h_user (fst y) = h_user (fst x) \<and> h_id (fst y) = h_id (fst x) \<and> fe (fst y) = fe (fst x)
     \<and> follows (sfs (snd x)) (sfs (snd y)) ops
     \<and> delivered C (h_user (fst x)) (h_id (fst x)) ops (snd x) (snd y))"

lemma remove_missing:
  assumes "layout fs" and "has_dir fs u" and "user_name u" and "simple_name f" and "contents fs u f = None"
  shows "fs_remove fs (user_path u f) = Inr (False, fs)"
proof -
  have "node_at fs (dir_of fs u @ [f]) = None"
    using assms(5) layoutD(4) [OF assms(1,3,4)] by (auto simp: contents_def split: option.splits node.splits)
  then show ?thesis
    using resolve_user_path [OF assms(1-4)] by (simp add: fs_remove_def flip: node_at_def)
qed

lemma remove_any:
  assumes "layout fs" and "has_dir fs u" and "user_name u" and "simple_name f"
  obtains b fs' where "fs_remove fs (user_path u f) = Inr (b, fs')" and "follows fs fs' [Del u f]"
    and "contents fs' u f = None"
proof (cases "contents fs u f")
  case None
  then show thesis
    using that [OF remove_missing [OF assms None]] apply_del_missing [of "contents fs" u f, OF None] assms(1)
    by (simp add: follows_def)
next
  case (Some bs)
  obtain fs' where "fs_remove fs (user_path u f) = Inr (True, fs')" "layout fs'" "cwd fs' = cwd fs"
    "\<And>v. has_dir fs' v \<longleftrightarrow> has_dir fs v" "contents fs' = (contents fs)(u := (contents fs u)(f := None))"
    by (rule remove_user_file [OF assms Some]) (rule that; assumption)
  then show thesis
    using that [of True fs'] by (simp add: follows_def)
qed

lemma Sync_put:
  assumes "codec_ok C" and "sync_inv (h, s)" and "sync_admits C (h, s) (Put u f bs)"
    and "sound (strm (csfe h))" and "incoming (strm (csfe h)) = enc_str C (user_path u f) @ file_msg C bs @ rest"
  obtains h' s' where "Sync_command C (Cmd kUpload) h s = Some (h', s')"
    and "took rest (strm (csfe h)) (strm (csfe h'))" and "sync_effect C [Put u f bs] (h, s) (h', s')"
proof -
  let ?x = "csfe h" and ?p = "user_path u f"
  have ok: "user_name u" "simple_name f" "str_ok ?p" "size_ok bs" "h_user h = u"
    "length (op_msg C (Put u f bs)) \<le> kBufferSize" "op_ok (Put u f bs)"
    using assms(3) by (auto simp: sync_admits_def session_op_def)
  have srv: "srv_ready u s" "layout (sfs s)" "has_dir (sfs s) u"
    using assms(2) ok(5) by (auto simp: sync_inv_def srv_ready_def)
  obtain s1 where s1: "ReceivePath C ?x = (True, ?x\<lparr>xpath := ?p, strm := s1\<rparr>)"
    "took (file_msg C bs @ rest) (strm ?x) s1"
    by (rule ReceivePath_ok [OF assms(1,4,5) ok(3)]) (rule that; assumption)
  let ?x1 = "?x\<lparr>xpath := ?p, strm := s1\<rparr>"
  have in1: "xpath ?x1 = ?p" "sound (strm ?x1)" "incoming (strm ?x1) = file_msg C bs @ rest"
    using took_sound [OF s1(2)] by simp_all
  obtain s2 fs2 where r: "Receive C (sfs s) ?x1 = Some (True, ?x1\<lparr>strm := s2\<rparr>, fs2)"
    "took rest (strm ?x1) s2" "layout fs2" "cwd fs2 = cwd (sfs s)" "\<And>v. has_dir fs2 v \<longleftrightarrow> has_dir (sfs s) v"
    "contents fs2 = (contents (sfs s))(u := (contents (sfs s) u)(f \<mapsto> bs))"
    by (rule Receive_user_file [OF assms(1) srv(2,3) ok(1,2) in1(1) ok(4) in1(2,3)]) (rule that; assumption)
  have st: "srv_ready (op_user (Put u f bs)) (s\<lparr>sfs := fs2\<rparr>)" "stored (sfs (s\<lparr>sfs := fs2\<rparr>)) (Put u f bs)"
    using srv_ready_sfs [OF srv(1) r(3)] r(6) by simp_all
  obtain s' where b: "broadcast_op C (h_id h) (Put u f bs) (s\<lparr>sfs := fs2\<rparr>) = Some (True, s')"
    "sfs s' = sfs (s\<lparr>sfs := fs2\<rparr>)"
    "delivered C (op_user (Put u f bs)) (h_id h) [Put u f bs] (s\<lparr>sfs := fs2\<rparr>) s'"
    by (rule broadcast_delivered [where origin = "h_id h", OF st(1) ok(7) st(2) ok(6)]) (rule that; assumption)
  show thesis
    by (rule that [of "h\<lparr>csfe := ?x1\<lparr>strm := s2\<rparr>\<rparr>" s'])
      (use s1 r b ok(5) took_trans [OF s1(2)] in \<open>simp_all add: Sync_command_def sync_effect_def follows_def
          delivered_sfs\<close>)
qed

lemma Sync_del:
  assumes "codec_ok C" and "sync_inv (h, s)" and "sync_admits C (h, s) (Del u f)"
    and "sound (strm (csfe h))" and "incoming (strm (csfe h)) = enc_str C (user_path u f) @ rest"
  obtains h' s' where "Sync_command C (Cmd kDelete) h s = Some (h', s')"
    and "took rest (strm (csfe h)) (strm (csfe h'))" and "sync_effect C [Del u f] (h, s) (h', s')"
proof -
  let ?x = "csfe h" and ?p = "user_path u f"
  have ok: "user_name u" "simple_name f" "str_ok ?p" "h_user h = u"
    "length (op_msg C (Del u f)) \<le> kBufferSize" "op_ok (Del u f)"
    using assms(3) by (auto simp: sync_admits_def session_op_def)
  have srv: "srv_ready u s" "layout (sfs s)" "has_dir (sfs s) u"
    using assms(2) ok(4) by (auto simp: sync_inv_def srv_ready_def)
  obtain s1 where s1: "ReceivePath C ?x = (True, ?x\<lparr>xpath := ?p, strm := s1\<rparr>)"
    "took rest (strm ?x) s1"
    by (rule ReceivePath_ok [OF assms(1,4,5) ok(3)]) (rule that; assumption)
  obtain b fs2 where fs2: "fs_remove (sfs s) ?p = Inr (b, fs2)" "follows (sfs s) fs2 [Del u f]" "contents fs2 u f = None"
    by (rule remove_any [OF srv(2,3) ok(1,2)]) (rule that; assumption)
  have st: "srv_ready (op_user (Del u f)) (s\<lparr>sfs := fs2\<rparr>)" "stored (sfs (s\<lparr>sfs := fs2\<rparr>)) (Del u f)"
    using srv_ready_sfs [OF srv(1) followsD(1) [OF fs2(2)]] fs2(3) by simp_all
  obtain s' where b: "broadcast_op C (h_id h) (Del u f) (s\<lparr>sfs := fs2\<rparr>) = Some (True, s')"
    "sfs s' = sfs (s\<lparr>sfs := fs2\<rparr>)"
    "delivered C (op_user (Del u f)) (h_id h) [Del u f] (s\<lparr>sfs := fs2\<rparr>) s'"
    by (rule broadcast_delivered [where origin = "h_id h", OF st(1) ok(6) st(2) ok(5)]) (rule that; assumption)
  show thesis
    by (rule that [of "h\<lparr>csfe := ?x\<lparr>xpath := ?p, strm := s1\<rparr>\<rparr>" s'])
      (use s1 fs2 b ok(4) in \<open>simp_all add: Sync_command_def sync_effect_def delivered_sfs\<close>)
qed

lemma sync_effect_csfe: "sync_effect C ops (h\<lparr>csfe := x\<rparr>, s) y \<longleftrightarrow> sync_effect C ops (h, s) y"
  by (simp add: sync_effect_def)

lemma Sync_once_op:
  assumes "codec_ok C" and "sync_inv (h, s)" and "sync_admits C (h, s) a"
    and "sound (strm (csfe h))" and "incoming (strm (csfe h)) = op_msg C a @ rest"
  shows "\<exists>y. Sync_once C h s = Some y
    \<and> took rest (strm (csfe h)) (strm (csfe (fst y))) \<and> sync_effect C [a] (h, s) y"
proof -
  obtain k r where k: "op_msg C a = enc_cmd C (cmd_code k) @ r"
    and a: "(\<exists>u f bs. a = Put u f bs \<and> k = kUpload \<and> r = enc_str C (user_path u f) @ file_msg C bs)
      \<or> (\<exists>u f. a = Del u f \<and> k = kDelete \<and> r = enc_str C (user_path u f))"
    by (rule op_msg_split [of C a]) (rule that; assumption)
  have "incoming (strm (csfe h)) = enc_cmd C (cmd_code k) @ (r @ rest)"
    using assms(5) k by simp
  then obtain s1 where s1: "ReceiveCommand C (csfe h) = (Inr (Cmd k), (csfe h)\<lparr>strm := s1\<rparr>)"
    "took (r @ rest) (strm (csfe h)) s1"
    by (rule ReceiveCommand_ok [OF assms(1,4), of "cmd_code k", unfolded wire_of_cmd]) (rule that; assumption)
  let ?h = "h\<lparr>csfe := (csfe h)\<lparr>strm := s1\<rparr>\<rparr>"
  have pre: "sync_inv (?h, s)" "sync_admits C (?h, s) a" "sound (strm (csfe ?h))"
    "incoming (strm (csfe ?h)) = r @ rest"
    using assms(2,3) took_sound [OF s1(2)] by (simp_all add: sync_inv_def sync_admits_def)
  have "\<exists>h' s'. Sync_command C (Cmd k) ?h s = Some (h', s')
      \<and> took rest (strm (csfe ?h)) (strm (csfe h')) \<and> sync_effect C [a] (?h, s) (h', s')"
    using a
  proof (elim disjE exE conjE)
    fix u f bs
    assume e: "a = Put u f bs" "k = kUpload" "r = enc_str C (user_path u f) @ file_msg C bs"
    show ?thesis
      by (rule Sync_put [OF assms(1) pre(1), of u f bs rest]) (use pre e in auto)
  next
    fix u f
    assume e: "a = Del u f" "k = kDelete" "r = enc_str C (user_path u f)"
    show ?thesis
      by (rule Sync_del [OF assms(1) pre(1), of u f rest]) (use pre e in auto)
  qed
  then obtain h' s' where r: "Sync_command C (Cmd k) ?h s = Some (h', s')"
    "took rest s1 (strm (csfe h'))" "sync_effect C [a] (h, s) (h', s')"
    by (auto simp: sync_effect_csfe)
  show ?thesis
    using s1(1) r(1,3) took_trans [OF s1(2) r(2)] by (intro exI [of _ "(h', s')"]) (simp add: Sync_once_def)
qed

lemma Sync_turn:
  assumes "codec_ok C" and "sync_inv (h, s)" and "sync_admits C (h, s) a" and "\<not> stop i"
    and "sound (strm (csfe h))" and "incoming (strm (csfe h)) = op_msg C a @ rest"
  shows "\<exists>y. Sync_loop C stop i h s = Sync_loop C stop (i + 1) (fst y) (snd y)
    \<and> took rest (strm (csfe h)) (strm (csfe (fst y))) \<and> sync_effect C [a] (h, s) y"
proof -
  obtain y where "Sync_once C h s = Some y" "took rest (strm (csfe h)) (strm (csfe (fst y)))" "sync_effect C [a] (h, s) y"
    using Sync_once_op [OF assms(1-3,5,6)] by blast
  then show ?thesis
    using assms(4) by (intro exI [of _ y]) (simp add: Sync_loop.simps [of C stop i])
qed

interpretation handler_replay: replay C stop "\<lambda>i x. Sync_loop C stop i (fst x) (snd x)"
  "\<lambda>x. strm (csfe (fst x))" sync_inv "sync_admits C" "sync_effect C" for C stop
proof unfold_locales
  fix x y :: "handler \<times> srv" and a as bs i rest and z
  show "codec_ok C \<Longrightarrow> sync_inv x \<Longrightarrow> sync_admits C x a \<Longrightarrow> \<not> stop i \<Longrightarrow> sound (strm (csfe (fst x)))
      \<Longrightarrow> incoming (strm (csfe (fst x))) = op_msg C a @ rest
      \<Longrightarrow> \<exists>y. Sync_loop C stop i (fst x) (snd x) = Sync_loop C stop (i + 1) (fst y) (snd y)
          \<and> took rest (strm (csfe (fst x))) (strm (csfe (fst y))) \<and> sync_effect C [a] x y"
    using Sync_turn [of C "fst x" "snd x" a stop i rest] by simp
  show "sync_inv x \<Longrightarrow> sync_effect C [] x x"
    by (simp add: sync_inv_def sync_effect_def follows_refl delivered_refl srv_ready_def)
  show "sync_effect C as x y \<Longrightarrow> sync_effect C bs y z \<Longrightarrow> sync_effect C (as @ bs) x z"
    using follows_trans delivered_trans by (auto simp: sync_effect_def)
  show "sync_effect C as x y \<Longrightarrow> sync_inv x \<Longrightarrow> sync_inv y"
    using delivered_ready by (auto simp: sync_effect_def sync_inv_def follows_def)
  show "sync_effect C as x y \<Longrightarrow> sync_admits C x a \<Longrightarrow> sync_admits C y a"
    by (simp add: sync_effect_def sync_admits_def)
qed

section \<open>What the client sends for the actions of its watcher\<close>

fun action_op :: "fsys \<Rightarrow> string \<Rightarrow> action \<Rightarrow> op" where
  "action_op fs u (k, f) = (if k = kUpload then Put u f (the (contents fs u f)) else Del u f)"

fun action_ok :: "codec \<Rightarrow> fsys \<Rightarrow> string \<Rightarrow> action \<Rightarrow> bool" where
  "action_ok C fs u (k, f) = ((k = kUpload \<and> contents fs u f \<noteq> None \<or> k = kDelete)
     \<and> session_op C u (action_op fs u (k, f)))"

definition flushed :: "fexch \<Rightarrow> bool" where
  "flushed x = (ready x \<and> pending (strm x) = [])"

lemma flushed_Flush: "ready x \<Longrightarrow> flushed (Flush x)"
  unfolding flushed_def using Flush_ready(1) flushed_pending by blast

lemma SetPath_same [simp]: "SetPath p (x\<lparr>xpath := p, strm := s\<rparr>) = x\<lparr>xpath := p, strm := s\<rparr>"
  by (simp add: SetPath_def)

lemma flushed_room: "flushed x \<Longrightarrow> room (strm x) = kBufferSize"
  by (auto simp: flushed_def room_def pending_def)

lemma send_file_ready:
  assumes "layout fs" and "session_op C u (Put u f bs)" and "contents fs u f = Some bs" and "ready x"
    and "xpath x = user_path u f" and "length (file_msg C bs) \<le> room (strm x)"
  obtains s where "Send C fs x = (True, x\<lparr>strm := s\<rparr>)" and "wrote (file_msg C bs) (strm x) s"
proof -
  have "has_dir fs u" "user_name u" "simple_name f"
    using contents_dir [OF assms(1), of u f] assms(2,3) by (simp_all add: session_op_def)
  then have "status fs (xpath x) = Some (File bs)"
    using status_user_path [OF assms(1)] assms(3,5) by simp
  then show thesis
    by (rule Send_ready [OF assms(4) _ assms(6)]) (rule that)
qed

lemma send_action_ok:
  assumes "layout fs" and "flushed x" and "action_ok C fs u a"
  obtains x' where "send_action C fs (SyncDirWithPrefix u) a x = Some x'" and "flushed x'"
    and "tx (ep (strm x')) = tx (ep (strm x)) @ op_msg C (action_op fs u a)"
    and "incoming (strm x') = incoming (strm x)"
proof -
  obtain k f where a: "a = (k, f)"
    by (cases a)
  let ?p = "user_path u f"
  have path: "path_append (SyncDirWithPrefix u) f = ?p"
    by (simp add: user_path_def)
  have ok: "session_op C u (action_op fs u a)" "k = kUpload \<and> contents fs u f \<noteq> None \<or> k = kDelete"
    using assms(3) a by auto
  then have len: "length (path_msg C k ?p) \<le> room (strm x)"
    using a flushed_room [OF assms(2)] by (auto simp: session_op_def upload_msg_def split: if_splits)
  have x: "ready x" "outgoing (strm x) = tx (ep (strm x))"
    using assms(2) by (simp_all add: flushed_def outgoing_def)
  obtain s1 s2 where s: "SendCommand C k x = Some (x\<lparr>strm := s1\<rparr>)"
    "SendPath C (SetPath ?p (x\<lparr>strm := s1\<rparr>)) = (True, x\<lparr>xpath := ?p, strm := s2\<rparr>)"
    "wrote (path_msg C k ?p) (strm x) s2"
    by (rule path_msg_ready [OF x(1) len]) (rule that; assumption)
  let ?y = "x\<lparr>xpath := ?p, strm := s2\<rparr>"
  note y = wrote_ready_fexch [where x = x and p = ?p, OF s(3)]
  note flush = Flush_ready flushed_Flush
  show thesis
  proof (cases "k = kUpload")
    case True
    then obtain bs where bs: "contents fs u f = Some bs"
      using ok(2) by auto
    then have op: "session_op C u (Put u f bs)"
      using ok(1) a True by simp
    have len3: "length (file_msg C bs) \<le> room (strm ?y)"
      using op True wrote_ready [OF s(3)] flushed_room [OF assms(2)] by (auto simp: session_op_def upload_msg_def)
    obtain s3 where s3: "Send C fs ?y = (True, ?y\<lparr>strm := s3\<rparr>)" "wrote (file_msg C bs) s2 s3"
      by (rule send_file_ready [OF assms(1) op bs y _ len3]) (use that in simp_all)
    let ?z = "x\<lparr>xpath := ?p, strm := s3\<rparr>"
    have w: "wrote (op_msg C (Put u f bs)) (strm x) s3"
      using wrote_trans [OF s(3) s3(2)] True by (simp add: upload_msg_def)
    note z = wrote_ready_fexch [where x = x and p = ?p, OF w]
    show thesis
      by (rule that [of "Flush ?z"])
        (use s s3(1) w bs a True x(2) flush [OF z] in \<open>simp_all add: send_action_def path wrote_def\<close>)
  next
    case False
    then show thesis
      by (intro that [of "Flush ?y"])
        (use ok(2) s a x(2) flush [OF y] in \<open>auto simp: send_action_def path wrote_def\<close>)
  qed
qed

lemma send_actions_ok:
  assumes "layout fs" and "flushed x" and "list_all (action_ok C fs u) as"
  shows "\<exists>x'. send_actions C fs (SyncDirWithPrefix u) as x = Some x' \<and> flushed x'
    \<and> tx (ep (strm x')) = tx (ep (strm x)) @ op_msgs C (map (action_op fs u) as)"
  using assms(2,3)
proof (induction as arbitrary: x)
  case (Cons a as)
  then have a: "action_ok C fs u a"
    by simp
  obtain y where "send_action C fs (SyncDirWithPrefix u) a x = Some y" "flushed y"
    "tx (ep (strm y)) = tx (ep (strm x)) @ op_msg C (action_op fs u a)"
    by (rule send_action_ok [OF assms(1) Cons.prems(1) a]) (rule that; assumption)
  then show ?case
    using Cons.IH [of y] Cons.prems(2) by auto
qed simp

text \<open>
  A file that is gone when its upload is sent: the command and the path go out, the size and
  the contents do not.
\<close>

lemma send_action_vanished:
  assumes "flushed x" and "\<forall>bs. status fs (user_path u f) \<noteq> Some (File bs)"
    and "length (path_msg C kUpload (user_path u f)) \<le> kBufferSize"
  obtains x' where "send_action C fs (SyncDirWithPrefix u) (kUpload, f) x = Some x'"
    and "tx (ep (strm x')) = tx (ep (strm x)) @ path_msg C kUpload (user_path u f)"
proof -
  let ?p = "user_path u f"
  have path: "path_append (SyncDirWithPrefix u) f = ?p"
    by (simp add: user_path_def)
  have x: "ready x" "outgoing (strm x) = tx (ep (strm x))" "length (path_msg C kUpload ?p) \<le> room (strm x)"
    using assms(1,3) flushed_room [OF assms(1)] by (simp_all add: flushed_def outgoing_def)
  obtain s1 s2 where s: "SendCommand C kUpload x = Some (x\<lparr>strm := s1\<rparr>)"
    "SendPath C (SetPath ?p (x\<lparr>strm := s1\<rparr>)) = (True, x\<lparr>xpath := ?p, strm := s2\<rparr>)"
    "wrote (path_msg C kUpload ?p) (strm x) s2"
    by (rule path_msg_ready [OF x(1,3)]) (rule that; assumption)
  let ?y = "x\<lparr>xpath := ?p, strm := s2\<rparr>"
  note y = wrote_ready_fexch [where x = x and p = ?p, OF s(3)]
  have "Send C fs ?y = (False, ?y)"
    using assms(2) by (auto simp: Send_def split: option.splits node.splits)
  then show thesis
    using that [of "Flush ?y"] s x(2) Flush_ready [OF y] by (simp add: send_action_def path wrote_def)
qed

section \<open>Operations of one user\<close>

lemma apply_same_user:
  "op_user a = u \<Longrightarrow> m u = m' u \<Longrightarrow> apply_op a m u = apply_op a m' u"
  by (cases a) auto

lemma fold_same_user:
  "list_all (\<lambda>a. op_user a = u) ops \<Longrightarrow> m u = m' u \<Longrightarrow> fold apply_op ops m u = fold apply_op ops m' u"
proof (induction ops arbitrary: m m')
  case (Cons a ops)
  have "apply_op a m u = apply_op a m' u"
    by (rule apply_same_user) (use Cons.prems in simp_all)
  then show ?case
    using Cons.IH [of "apply_op a m" "apply_op a m'"] Cons.prems(1) by simp
qed simp

section \<open>Properties\<close>

text \<open>
  A client follows its server: whatever sequence of uploads and deletions of its user a
  broadcast has sent it, after as many turns \<^verbatim>\<open>SyncFromServer\<close> has left the client's files
  as performing the operations in that order gives, and has recorded no action of its own.
\<close>

theorem SyncFromServer_replays:
  assumes "codec_ok C" and "layout fs" and "has_dir fs (c_user c)"
    and "list_all (\<lambda>a. op_ok a \<and> op_user a = c_user c) ops" and "sound (strm (server_fe c))"
    and "incoming (strm (server_fe c)) = op_msgs C ops @ rest"
    and "\<forall>j<length ops. \<not> stop j" and "stop (length ops)"
  shows "\<exists>c' fs'. SyncFromServer_loop C stop net 0 c fs = Some (c', fs')
    \<and> contents fs' = fold apply_op ops (contents fs) \<and> incoming (strm (server_fe c')) = rest
    \<and> vector (watch c') = vector (watch c)"
proof -
  have "client_inv (c, fs)" "list_all (client_admits (c, fs)) ops"
    using assms(2-4) by (simp_all add: client_inv_def client_admits_def list_all_iff)
  then obtain y where "SyncFromServer_loop C stop net 0 c fs = SyncFromServer_loop C stop net (length ops) (fst y) (snd y)"
    "incoming (strm (server_fe (fst y))) = rest" "client_effect ops (c, fs) y"
    using client_replay.replays [OF assms(1), of "(c, fs)" ops rest stop 0 net] assms(5-7) by auto
  then show ?thesis
    using assms(8)
    by (cases y) (auto simp: SyncFromServer_loop.simps [of C stop net "length ops"] client_effect_def follows_def)
qed

theorem SyncFromServer_replays_witness:
  "\<exists>c' fs'. SyncFromServer_loop pb_codec (\<lambda>j. 2 \<le> j) (\<lambda>_ _ _ _. None) 0
      (sample_client [] (op_msgs pb_codec sample_ops)) sample_fs = Some (c', fs')
    \<and> contents fs' ''u'' ''g'' = Some [7] \<and> contents fs' ''u'' ''f'' = None"
  using SyncFromServer_replays [OF pb_codec_ok sample_layout, of "sample_client [] (op_msgs pb_codec sample_ops)"
      sample_ops "[]" "\<lambda>j. 2 \<le> j" "\<lambda>_ _ _ _. None"] sample_has_dir sample_ops_ok
  by (auto simp: sample_client_def sample_ops_def)

text \<open>
  C3. Devices converge: while a session of one device runs, another device of the same user,
  connected as the handler's device \<open>j\<close> by a connection that loses nothing, gets messages
  after which its directory of the user equals the server's, if it did before.
\<close>

theorem devices_converge:
  assumes "codec_ok C" and "srv_ready (h_user h) s" and "has_dir (sfs s) (h_user h)"
    and "list_all (session_op C (h_user h)) ops" and "sound (strm (fe h))"
    and "incoming (strm (fe h)) = op_msgs C ops @ enc_cmd C (cmd_code kExit) @ rest"
    and "clients s (h_user h) = Some k" and "j < length (devices k)" and "dev_id (devices k ! j) \<noteq> h_id h"
    and "layout cfs" and "has_dir cfs (h_user h)" and "contents cfs (h_user h) = contents (sfs s) (h_user h)"
    and "c_user c = h_user h" and "sound (strm (server_fe c))"
    and "incoming (strm (server_fe c)) = op_msgs C (effective ops (contents (sfs s)))"
    and "\<And>i. stop i \<longleftrightarrow> length (effective ops (contents (sfs s))) \<le> i"
  shows "\<exists>h' s' k' c' cfs'. Handler_MainLoop C T h s = Some (Inr (), h', s') \<and> clients s' (h_user h) = Some k'
    \<and> tx (ep (strm (sync_out (devices k' ! j)))) = tx (ep (strm (sync_out (devices k ! j)))) @ incoming (strm (server_fe c))
    \<and> SyncFromServer_loop C stop net 0 c cfs = Some (c', cfs')
    \<and> contents cfs' (h_user h) = contents (sfs s') (h_user h)"
proof -
  let ?u = "h_user h" and ?sent = "effective ops (contents (sfs s))"
  obtain h' s' where run: "Handler_loop C T kAttemptAmount h s = Some (Inr (), h', s')"
    and fol: "follows (sfs s) (sfs s') ops" and del: "delivered C ?u (h_id h) ?sent s s'"
    using Handler_loop_session [OF assms(1-6), of T kAttemptAmount] by blast
  obtain k' where k': "clients s' ?u = Some k'" "list_all2 (dev_sent (h_id h) (op_msgs C ?sent)) (devices k) (devices k')"
    using del assms(7) by (auto simp: delivered_def)
  then have "dev_sent (h_id h) (op_msgs C ?sent) (devices k ! j) (devices k' ! j)"
    using assms(8) by (simp add: list_all2_conv_all_nth)
  then have tx: "tx (ep (strm (sync_out (devices k' ! j)))) = tx (ep (strm (sync_out (devices k ! j)))) @ op_msgs C ?sent"
    using assms(9) by (simp add: dev_sent_def)
  have "list_all (\<lambda>a. op_ok a \<and> op_user a = ?u) ops"
    using assms(4) by (auto simp: list_all_iff session_op_def)
  then have ok: "list_all (\<lambda>a. op_ok a \<and> op_user a = ?u) ?sent"
    by (rule effective_ok)
  have c: "client_inv (c, cfs)" "list_all (client_admits (c, cfs)) ?sent"
    using assms(10,11,13) ok by (simp_all add: client_inv_def client_admits_def list_all_iff)
  obtain y where y: "SyncFromServer_loop C stop net 0 c cfs = SyncFromServer_loop C stop net (length ?sent) (fst y) (snd y)"
    "client_effect ?sent (c, cfs) y"
    using client_replay.replays [OF assms(1) c, of "[]" stop 0 net] assms(14-16) by auto
  have "contents (snd y) ?u = fold apply_op ?sent (contents cfs) ?u"
    using y(2) by (simp add: client_effect_def follows_def)
  also have "\<dots> = fold apply_op ?sent (contents (sfs s)) ?u"
    using ok by (intro fold_same_user assms(12)) (simp add: list_all_iff)
  also have "\<dots> = contents (sfs s') ?u"
    using fol by (simp add: effective_same follows_def)
  finally show ?thesis
    using run k'(1) tx y(1) assms(15,16)
    by (cases y) (simp add: Handler_MainLoop_def SyncFromServer_loop.simps [of C stop net "length ?sent"])
qed

lemma sample_effective: "effective sample_ops (contents (sfs sample_srv)) = sample_ops"
  by (simp add: sample_ops_def sample_srv_def sample_contents)

theorem devices_converge_witness:
  "\<exists>h' s' c' cfs'. Handler_MainLoop pb_codec sample_tables (sample_handler (session_msg sample_ops)) sample_srv
      = Some (Inr (), h', s')
    \<and> SyncFromServer_loop pb_codec (\<lambda>i. 2 \<le> i) (\<lambda>_ _ _ _. None) 0
        (sample_client [] (op_msgs pb_codec sample_ops)) sample_fs = Some (c', cfs')
    \<and> contents cfs' ''u'' = contents (sfs s') ''u''"
proof -
  let ?h = "sample_handler (session_msg sample_ops)" and ?c = "sample_client [] (op_msgs pb_codec sample_ops)"
  let ?k = "\<lparr>username = ''u'', devices = [sample_device 4, sample_device 7], locked = False\<rparr>"
  have k: "clients sample_srv (h_user ?h) = Some ?k" "1 < length (devices ?k)" "dev_id (devices ?k ! 1) \<noteq> h_id ?h"
    by (simp_all add: sample_srv_def sample_handler_def sample_device_def)
  have c: "has_dir sample_fs (h_user ?h)" "contents sample_fs (h_user ?h) = contents (sfs sample_srv) (h_user ?h)"
    "c_user ?c = h_user ?h" "sound (strm (server_fe ?c))"
    "incoming (strm (server_fe ?c)) = op_msgs pb_codec (effective sample_ops (contents (sfs sample_srv)))"
    unfolding sample_effective
    using sample_has_dir by (simp_all add: sample_handler_def sample_client_def sample_srv_def)
  have stop: "2 \<le> i \<longleftrightarrow> length (effective sample_ops (contents (sfs sample_srv))) \<le> i" for i
    unfolding sample_effective by (auto simp: sample_ops_def)
  show ?thesis
    using devices_converge [OF pb_codec_ok sample_session k sample_layout c stop, of sample_tables "\<lambda>_ _ _ _. None"]
    by (auto simp: sample_handler_def)
qed

text \<open>
  C16. Local changes reach the server: one turn of the client's \<^verbatim>\<open>SyncFromClient\<close> sends, for
  the actions of the watcher, the messages of the corresponding operations and empties the
  collection; the handler that reads them performs them on the server's files in that order
  and passes every one of them on to the backups and to the user's other devices.
\<close>

theorem local_changes_reach_server:
  assumes "codec_ok C" and "layout cl" and "flushed (client_fe c)" and "c_user c = h_user h"
    and "list_all (action_ok C cl (h_user h)) (vector (watch c))"
    and "srv_ready (h_user h) s" and "has_dir (sfs s) (h_user h)" and "sound (strm (csfe h))"
    and "incoming (strm (csfe h)) = op_msgs C (map (action_op cl (h_user h)) (vector (watch c)))"
    and "\<And>i. stop i \<longleftrightarrow> length (vector (watch c)) \<le> i"
  shows "\<exists>c' h' s'. Client_sync_turn C cl c = Some c' \<and> vector (watch c') = []
    \<and> tx (ep (strm (client_fe c'))) = tx (ep (strm (client_fe c))) @ incoming (strm (csfe h))
    \<and> Sync_loop C stop 0 h s = Some (h', s')
    \<and> contents (sfs s') = fold apply_op (map (action_op cl (h_user h)) (vector (watch c))) (contents (sfs s))
    \<and> delivered C (h_user h) (h_id h) (map (action_op cl (h_user h)) (vector (watch c))) s s'"
proof -
  let ?u = "h_user h" and ?as = "vector (watch c)"
  let ?ops = "map (action_op cl (h_user h)) (vector (watch c))"
  obtain x where x: "send_actions C cl (SyncDirWithPrefix ?u) ?as (client_fe c) = Some x"
    "tx (ep (strm x)) = tx (ep (strm (client_fe c))) @ op_msgs C ?ops"
    using send_actions_ok [OF assms(2,3,5)] by blast
  have "session_op C ?u (action_op cl ?u a)" if "action_ok C cl ?u a" for a
    using that by (cases a) simp
  then have pre: "sync_inv (h, s)" "list_all (sync_admits C (h, s)) ?ops"
    using assms(5-7) by (auto simp: sync_inv_def sync_admits_def list_all_iff)
  obtain y where "Sync_loop C stop 0 h s = Sync_loop C stop (length ?ops) (fst y) (snd y)"
    "sync_effect C ?ops (h, s) y"
    using handler_replay.replays [OF assms(1) pre, of "[]" stop 0] assms(8-10) by auto
  moreover have "stop (length ?ops)"
    using assms(10) by simp
  ultimately have "Sync_loop C stop 0 h s = Some y" "follows (sfs s) (sfs (snd y)) ?ops"
    "delivered C ?u (h_id h) ?ops s (snd y)"
    by (simp_all add: Sync_loop.simps [of C stop "length ?as"] sync_effect_def)
  then show ?thesis
    using x assms(4,9)
    by (intro exI [of _ "c\<lparr>client_fe := x, watch := take_actions (watch c)\<rparr>"] exI [of _ "fst y"] exI [of _ "snd y"])
      (simp add: Client_sync_turn_def c_SyncDirPath_def take_actions_def follows_def)
qed

definition sample_actions :: "action list" where
  "sample_actions = [(kUpload, ''g''), (kDelete, ''f'')]"

theorem local_changes_reach_server_witness:
  "\<exists>c' h' s'. Client_sync_turn pb_codec sample_client_fs
        ((sample_client [] [])\<lparr>watch := Inotify\<lparr>vector := sample_actions\<rparr>\<rparr>) = Some c'
    \<and> Sync_loop pb_codec (\<lambda>i. 2 \<le> i) 0 ((sample_handler [])\<lparr>csfe := \<lparr>xpath = [],
        strm = fresh (op_msgs pb_codec [Put ''u'' ''g'' [9], Del ''u'' ''f''])\<rparr>\<rparr>) sample_srv = Some (h', s')
    \<and> contents (sfs s') ''u'' ''g'' = Some [9] \<and> contents (sfs s') ''u'' ''f'' = None"
proof -
  let ?c = "(sample_client [] [])\<lparr>watch := Inotify\<lparr>vector := sample_actions\<rparr>\<rparr>"
  let ?ops = "[Put ''u'' ''g'' [9], Del ''u'' ''f'']"
  let ?h = "(sample_handler [])\<lparr>csfe := \<lparr>xpath = [], strm = fresh (op_msgs pb_codec ?ops)\<rparr>\<rparr>"
  have g: "contents sample_client_fs ''u'' ''g'' = Some [9]"
    by (simp add: contents_def dir_of_def sample_client_fs_nodes sample_client_cwd SyncDirWithPrefix_def
        kSyncDirPrefix_def)
  have v: "vector (watch ?c) = sample_actions"
    by simp
  have ops: "map (action_op sample_client_fs (h_user ?h)) (vector (watch ?c)) = ?ops"
    unfolding v by (simp add: sample_actions_def sample_handler_def g)
  have c: "flushed (client_fe ?c)" "c_user ?c = h_user ?h"
    by (simp_all add: sample_client_def sample_handler_def flushed_def)
  have as: "list_all (action_ok pb_codec sample_client_fs (h_user ?h)) (vector (watch ?c))"
    unfolding v by (simp add: sample_actions_def sample_handler_def g session_op_def user_name_def simple_name_def
        str_ok_def size_ok_def upload_msg_def path_msg_def file_msg_def pb_codec_def kBufferSize_val)
  have s: "srv_ready (h_user ?h) sample_srv" "has_dir (sfs sample_srv) (h_user ?h)" "sound (strm (csfe ?h))"
    "incoming (strm (csfe ?h)) = op_msgs pb_codec (map (action_op sample_client_fs (h_user ?h)) (vector (watch ?c)))"
    unfolding ops using sample_srv_ready sample_has_dir by (simp_all add: sample_handler_def sample_srv_def)
  have stop: "2 \<le> i \<longleftrightarrow> length (vector (watch ?c)) \<le> i" for i
    unfolding v by (auto simp: sample_actions_def)
  show ?thesis
    using local_changes_reach_server [OF pb_codec_ok sample_client_layout c as s stop] unfolding ops by auto
qed

end
