(* ===== verification/Sessions.thy ===== *)
theory Sessions
  imports Prelude Commands SocketStream FileSystem Exchange Layout Replica Composite ClientHandler Client ClientSync
begin

text \<open>
  Several devices of one user at work at the same time: the turns of their handlers'
  \<^verbatim>\<open>MainLoop\<close> in any order, on one server state, and what the other devices make of the
  broadcasts. A turn of \<^verbatim>\<open>server/ClientHandler.cpp\<close> is \<open>Handler_turn\<close>; here a schedule
  says which handler takes the next one.
\<close>

section \<open>Schedules\<close>

fun run_turns :: "codec \<Rightarrow> tables \<Rightarrow> nat list \<Rightarrow> handler list \<Rightarrow> srv \<Rightarrow> (handler list \<times> srv) option" where
  "run_turns C T [] hs s = Some (hs, s)"
| "run_turns C T (k # ks) hs s = (case Handler_turn C T kAttemptAmount (hs ! k) s of
     Some (Inr (_, h', s')) \<Rightarrow> run_turns C T ks (hs[k := h']) s'
   | _ \<Rightarrow> None)"

text \<open>
  \<open>sched_ok\<close>: every scheduled handler still has an operation to perform; \<open>served\<close>: the
  operations in the order in which they are performed, with the id of the device each came from.
\<close>

fun sched_ok :: "nat list \<Rightarrow> op list list \<Rightarrow> bool" where
  "sched_ok [] qs = True"
| "sched_ok (k # ks) qs = (k < length qs \<and> qs ! k \<noteq> [] \<and> sched_ok ks (qs[k := tl (qs ! k)]))"

fun served :: "nat list \<Rightarrow> int list \<Rightarrow> op list list \<Rightarrow> (int \<times> op) list" where
  "served [] ids qs = []"
| "served (k # ks) ids qs = (ids ! k, hd (qs ! k)) # served ks ids (qs[k := tl (qs ! k)])"

text \<open>The operations that change something, with their origins.\<close>

fun effective_by :: "(int \<times> op) list \<Rightarrow> (string \<Rightarrow> string \<Rightarrow> byte list option) \<Rightarrow> (int \<times> op) list" where
  "effective_by [] m = []"
| "effective_by ((i, a) # l) m = map (Pair i) (effective [a] m) @ effective_by l (apply_op a m)"

text \<open>What a device, or a backup, is sent of a list of operations with their origins.\<close>

definition foreign :: "int \<Rightarrow> (int \<times> op) list \<Rightarrow> op list" where
  "foreign i l = map snd (filter (\<lambda>t. fst t \<noteq> i) l)"

definition own :: "int \<Rightarrow> (int \<times> op) list \<Rightarrow> op list" where
  "own i l = map snd (filter (\<lambda>t. fst t = i) l)"

definition spread :: "codec \<Rightarrow> string \<Rightarrow> (int \<times> op) list \<Rightarrow> srv \<Rightarrow> srv \<Rightarrow> bool" where
  "spread C u l s s' = (srv_ready u s'
     \<and> list_all2 (bak_sent (op_msgs C (map snd l))) (backups s) (backups s')
     \<and> (\<exists>c c'. clients s u = Some c \<and> clients s' u = Some c'
          \<and> list_all2 (\<lambda>d d'. dev_id d' = dev_id d \<and> device_ready d'
               \<and> tx (ep (strm (sync_out d'))) = tx (ep (strm (sync_out d))) @ op_msgs C (foreign (dev_id d) l))
              (devices c) (devices c')))"

lemma foreign_simps [simp]:
  "foreign i [] = []" "foreign i (as @ bs) = foreign i as @ foreign i bs"
  "foreign i (t # l) = (if fst t = i then foreign i l else snd t # foreign i l)"
  by (simp_all add: foreign_def)

lemma foreign_origin: "foreign i (map (Pair j) ops) = (if i = j then [] else ops)"
  by (cases "i = j"; induction ops) simp_all

lemma map_snd_Pair [simp]: "map snd (map (Pair i) xs) = xs"
  by (induction xs) simp_all

lemma effective_by_ops: "map snd (effective_by l m) = effective (map snd l) m"
proof (induction l m rule: effective_by.induct)
  case (2 i a l m)
  have "map snd (effective_by ((i, a) # l) m) = effective [a] m @ effective (map snd l) (apply_op a m)"
    unfolding effective_by.simps map_append map_snd_Pair 2 ..
  also have "\<dots> = effective (map snd ((i, a) # l)) m"
    unfolding list.map snd_conv by (rule effective_Cons [symmetric])
  finally show ?case .
qed simp

lemma spread_refl:
  assumes "srv_ready u s"
  shows "spread C u [] s s"
proof -
  obtain c where "clients s u = Some c" "list_all device_ready (devices c)"
    using assms by (auto simp: srv_ready_def unlocked_def)
  moreover have "list_all handler_ready (backups s)"
    using assms by (simp add: srv_ready_def)
  ultimately show ?thesis
    using assms by (auto simp: spread_def list_all_iff bak_sent_def intro!: list.rel_refl_strong)
qed

lemma spread_delivered:
  assumes "delivered C u i ops s s'" and "srv_ready u s"
  shows "spread C u (map (Pair i) ops) s s'"
proof -
  obtain c c' where c: "clients s u = Some c" "clients s' u = Some c'"
    "list_all2 (dev_sent i (op_msgs C ops)) (devices c) (devices c')"
    using assms(1) by (auto simp: delivered_def)
  have ready: "list_all device_ready (devices c)"
    using assms(2) c(1) by (simp add: srv_ready_def)
  have "list_all2 (\<lambda>d d'. dev_id d' = dev_id d \<and> device_ready d'
      \<and> tx (ep (strm (sync_out d'))) = tx (ep (strm (sync_out d))) @ op_msgs C (foreign (dev_id d) (map (Pair i) ops)))
      (devices c) (devices c')"
    using c(3) by (rule list.rel_mono_strong) (use ready in \<open>auto simp: dev_sent_def foreign_origin list_all_iff split: if_splits\<close>)
  then show ?thesis
    using assms(1) c(1,2) by (auto simp: spread_def delivered_def comp_def)
qed

lemma spread_trans:
  assumes "spread C u as s t" and "spread C u bs t r"
  shows "spread C u (as @ bs) s r"
proof -
  obtain c c1 where c: "clients s u = Some c" "clients t u = Some c1"
    "list_all2 (\<lambda>d d'. dev_id d' = dev_id d \<and> device_ready d'
      \<and> tx (ep (strm (sync_out d'))) = tx (ep (strm (sync_out d))) @ op_msgs C (foreign (dev_id d) as)) (devices c) (devices c1)"
    using assms(1) by (auto simp: spread_def)
  obtain c2 where c2: "clients r u = Some c2"
    "list_all2 (\<lambda>d d'. dev_id d' = dev_id d \<and> device_ready d'
      \<and> tx (ep (strm (sync_out d'))) = tx (ep (strm (sync_out d))) @ op_msgs C (foreign (dev_id d) bs)) (devices c1) (devices c2)"
    using assms(2) c(2) by (auto simp: spread_def)
  have "list_all2 (\<lambda>d d'. dev_id d' = dev_id d \<and> device_ready d'
      \<and> tx (ep (strm (sync_out d'))) = tx (ep (strm (sync_out d))) @ op_msgs C (foreign (dev_id d) (as @ bs))) (devices c) (devices c2)"
    by (rule list_all2_trans [OF _ c(3) c2(2)]) simp
  moreover have "list_all2 (bak_sent (op_msgs C (map snd (as @ bs)))) (backups s) (backups r)"
    by (rule list_all2_trans [of "bak_sent (op_msgs C (map snd as))" "bak_sent (op_msgs C (map snd bs))" _ _ "backups t"])
      (use assms in \<open>auto simp: spread_def bak_sent_def\<close>)
  ultimately show ?thesis
    using assms(2) c(1) c2(1) by (simp add: spread_def)
qed

section \<open>Any schedule of turns\<close>

text \<open>\<open>waits q h\<close>: the handler's client has sent the operations \<open>q\<close>, none of which was read yet.\<close>

definition waits :: "codec \<Rightarrow> string \<Rightarrow> op list \<Rightarrow> handler \<Rightarrow> bool" where
  "waits C u q h = (h_user h = u \<and> sound (strm (fe h)) \<and> list_all (session_op C u) q
     \<and> (\<exists>rest. incoming (strm (fe h)) = op_msgs C q @ rest))"

lemma turn_performs:
  assumes "codec_ok C" and "srv_ready u s" and "has_dir (sfs s) u" and "waits C u (a # q) h"
  obtains h' s' where "Handler_turn C T kAttemptAmount h s = Some (Inr (kAttemptAmount, h', s'))"
    and "waits C u q h'" and "h_id h' = h_id h" and "follows (sfs s) (sfs s') [a]"
    and "spread C u (map (Pair (h_id h)) (effective [a] (contents (sfs s)))) s s'"
proof -
  obtain rest where h: "h_user h = u" "sound (strm (fe h))" "list_all (session_op C u) q"
    "incoming (strm (fe h)) = op_msg C a @ op_msgs C q @ rest" "op_ok a" "op_user a = u"
    "length (op_msg C a) \<le> kBufferSize"
    using assms(4) by (auto simp: waits_def session_op_def)
  obtain h' s' where "Handler_turn C T kAttemptAmount h s = Some (Inr (kAttemptAmount, h', s'))"
    "session_step C u (h_id h) [a] (effective [a] (contents (sfs s))) (op_msgs C q @ rest) h s h' s'"
    by (rule Handler_turn_op [where n = kAttemptAmount and T = T and h = h and s = s and a = a and rest = "op_msgs C q @ rest"
          and C = C]) (use assms(1-3) h in auto)
  then show thesis
    using that [of h' s'] h(1,3) took_sound [of "op_msgs C q @ rest"] spread_delivered [OF _ assms(2)]
    by (auto simp: session_step_def waits_def)
qed

lemma turns_perform:
  assumes "codec_ok C" and "srv_ready u s" and "has_dir (sfs s) u"
    and "list_all2 (waits C u) qs hs" and "sched_ok ks qs"
  shows "\<exists>hs' s'. run_turns C T ks hs s = Some (hs', s')
    \<and> follows (sfs s) (sfs s') (map snd (served ks (map h_id hs) qs))
    \<and> spread C u (effective_by (served ks (map h_id hs) qs) (contents (sfs s))) s s'"
  using assms(2-)
proof (induction ks arbitrary: qs hs s)
  case Nil
  then show ?case
    using follows_refl spread_refl by (auto simp: srv_ready_def)
next
  case (Cons k ks)
  let ?m = "contents (sfs s)"
  obtain a q where q: "qs ! k = a # q"
    using Cons.prems(4) by (cases "qs ! k") auto
  have k: "k < length qs" "length hs = length qs" "waits C u (a # q) (hs ! k)"
    using Cons.prems(3,4) q by (auto simp: list_all2_conv_all_nth)
  obtain h' s1 where t: "Handler_turn C T kAttemptAmount (hs ! k) s = Some (Inr (kAttemptAmount, h', s1))"
    "waits C u q h'" "h_id h' = h_id (hs ! k)" "follows (sfs s) (sfs s1) [a]"
    "spread C u (map (Pair (h_id (hs ! k))) (effective [a] ?m)) s s1"
    by (rule turn_performs [where T = T, OF assms(1) Cons.prems(1,2) k(3)]) (rule that; assumption)
  have ids: "map h_id (hs[k := h']) = map h_id hs"
    using k t(3) by (simp add: map_update list_update_same_conv)
  have pre: "srv_ready u s1" "has_dir (sfs s1) u" "list_all2 (waits C u) (qs[k := q]) (hs[k := h'])"
    "sched_ok ks (qs[k := q])"
    using t(5) followsD(4) [OF t(4) Cons.prems(2)] list_all2_update_cong [OF Cons.prems(3) t(2), of k] Cons.prems(4) q
    by (simp_all add: spread_def)
  have m1: "contents (sfs s1) = apply_op a ?m"
    using t(4) by (simp add: follows_def)
  obtain hs' s' where r: "run_turns C T ks (hs[k := h']) s1 = Some (hs', s')"
    "follows (sfs s1) (sfs s') (map snd (served ks (map h_id hs) (qs[k := q])))"
    "spread C u (effective_by (served ks (map h_id hs) (qs[k := q])) (apply_op a ?m)) s1 s'"
    using Cons.IH [OF pre] unfolding ids m1 by blast
  show ?case
    using r(1) t(1) follows_trans [OF t(4) r(2)] spread_trans [OF t(5) r(3)] k q by (simp add: nth_map)
qed

section \<open>One file at a time\<close>

fun outcome :: "op \<Rightarrow> byte list option" where
  "outcome (Put _ _ bs) = Some bs"
| "outcome (Del _ _) = None"

lemma apply_op_at: "apply_op a m u f = (if op_file a = (u, f) then outcome a else m u f)"
  by (cases a) auto

text \<open>The last writer of a file decides.\<close>

lemma fold_at:
  "fold apply_op l m u f = (let w = filter (\<lambda>a. op_file a = (u, f)) l in if w = [] then m u f else outcome (last w))"
  by (induction l arbitrary: m) (simp_all add: apply_op_at Let_def)

lemma fold_same_file:
  "filter (\<lambda>a. op_file a = (u, f)) l = filter (\<lambda>a. op_file a = (u, f)) l' \<Longrightarrow> m u f = m' u f
    \<Longrightarrow> fold apply_op l m u f = fold apply_op l' m' u f"
  by (simp add: fold_at Let_def)

lemma effective_by_subset: "set (effective_by l m) \<subseteq> set l"
proof (induction l m rule: effective_by.induct)
  case (2 i a l m)
  have "set (effective [a] m) \<subseteq> {a}"
    by (cases a) auto
  then show ?case
    using 2 by auto
qed simp

lemma foreign_subset: "set (foreign i (effective_by l m)) \<subseteq> set (foreign i l)"
  using effective_by_subset [of l m] by (auto simp: foreign_def)

lemma filter_foreign:
  "\<forall>a\<in>set (own i l). \<not> P a \<Longrightarrow> filter P (foreign i l) = filter P (map snd l)"
  by (induction l) (auto simp: foreign_def own_def)

lemma filter_own:
  "\<forall>a\<in>set (foreign i l). \<not> P a \<Longrightarrow> filter P (own i l) = filter P (map snd l)"
  by (induction l) (auto simp: foreign_def own_def)

text \<open>
  When a device and the others change different files, its own changes first and then the
  others', as the server told it, give what the server's order gives.
\<close>

lemma foreign_after_own:
  assumes "\<forall>a\<in>set (own i l). \<forall>b\<in>set (foreign i l). op_file a \<noteq> op_file b"
  shows "fold apply_op (foreign i (effective_by l m)) (fold apply_op (own i l) m) = fold apply_op (map snd l) m"
proof (intro ext)
  fix u f
  let ?P = "\<lambda>a. op_file a = (u, f)" and ?eff = "effective_by l m"
  show "fold apply_op (foreign i ?eff) (fold apply_op (own i l) m) u f = fold apply_op (map snd l) m u f"
  proof (cases "\<exists>a\<in>set (own i l). ?P a")
    case True
    then have none: "\<forall>b\<in>set (foreign i l). \<not> ?P b"
      using assms by metis
    then have "filter ?P (foreign i ?eff) = []"
      using foreign_subset [of i l m] by (auto simp: filter_empty_conv)
    then show ?thesis
      using filter_own [OF none] by (simp add: fold_at)
  next
    case False
    then have own: "filter ?P (own i l) = []"
      by (auto simp: filter_empty_conv)
    have "filter ?P (foreign i ?eff) = filter ?P (map snd ?eff)"
      by (rule filter_foreign) (use False effective_by_subset [of l m] in \<open>auto simp: own_def\<close>)
    moreover have "fold apply_op (own i l) m u f = m u f"
      using own by (simp add: fold_at)
    ultimately have "fold apply_op (foreign i ?eff) (fold apply_op (own i l) m) u f = fold apply_op (map snd ?eff) m u f"
      by (rule fold_same_file)
    then show ?thesis
      by (simp add: effective_by_ops effective_same)
  qed
qed

section \<open>What a device makes of it\<close>

text \<open>\<open>follower\<close>: a client of the user that has the messages of \<open>ops\<close> to read, and stops after them.\<close>

definition follower :: "codec \<Rightarrow> string \<Rightarrow> op list \<Rightarrow> (nat \<Rightarrow> bool) \<Rightarrow> client \<Rightarrow> fsys \<Rightarrow> bool" where
  "follower C u ops stop c fs = (layout fs \<and> has_dir fs u \<and> c_user c = u \<and> sound (strm (server_fe c))
     \<and> incoming (strm (server_fe c)) = op_msgs C ops \<and> (\<forall>i. stop i \<longleftrightarrow> length ops \<le> i))"

lemma served_session_ops:
  assumes "list_all2 (waits C u) qs hs" and "sched_ok ks qs"
  shows "list_all (session_op C u) (map snd (served ks ids qs))"
proof -
  have "list_all (list_all (session_op C u)) qs"
    using assms(1) by (induction rule: list_all2_induct) (auto simp: waits_def)
  then show ?thesis
    using assms(2)
  proof (induction ks arbitrary: qs)
    case (Cons k ks)
    obtain a q where q: "qs ! k = a # q"
      using Cons.prems(2) by (cases "qs ! k") auto
    have "list_all (session_op C u) (qs ! k)"
      using Cons.prems by (simp add: list_all_length)
    then have "session_op C u a" "list_all (list_all (session_op C u)) (qs[k := q])"
      using Cons.prems(1) q by (auto simp: list_all_iff dest!: set_update_subset_insert [THEN subsetD])
    then show ?case
      using Cons.IH [of "qs[k := q]"] Cons.prems(2) q by simp
  qed simp
qed

lemma device_replays:
  assumes "codec_ok C" and "srv_ready u s" and "has_dir (sfs s) u"
    and "list_all2 (waits C u) qs hs" and "sched_ok ks qs"
    and "l = served ks (map h_id hs) qs"
    and "clients s u = Some k" and "j < length (devices k)" and "i = dev_id (devices k ! j)"
    and "follower C u (foreign i (effective_by l (contents (sfs s)))) stop c cfs"
  obtains hs' s' k' c' cfs' where "run_turns C T ks hs s = Some (hs', s')"
    and "contents (sfs s') = fold apply_op (map snd l) (contents (sfs s))" and "clients s' u = Some k'"
    and "tx (ep (strm (sync_out (devices k' ! j)))) = tx (ep (strm (sync_out (devices k ! j)))) @ incoming (strm (server_fe c))"
    and "SyncFromServer_loop C stop net 0 c cfs = Some (c', cfs')"
    and "contents cfs' = fold apply_op (foreign i (effective_by l (contents (sfs s)))) (contents cfs)"
proof -
  let ?sent = "foreign i (effective_by l (contents (sfs s)))"
  note f = assms(10) [unfolded follower_def]
  obtain hs' s' where run: "run_turns C T ks hs s = Some (hs', s')" "follows (sfs s) (sfs s') (map snd l)"
    "spread C u (effective_by l (contents (sfs s))) s s'"
    using turns_perform [OF assms(1-5), of T] assms(6) by blast
  obtain k' where k': "clients s' u = Some k'"
    "tx (ep (strm (sync_out (devices k' ! j)))) = tx (ep (strm (sync_out (devices k ! j)))) @ op_msgs C ?sent"
    using run(3) assms(7-9) by (auto simp: spread_def list_all2_conv_all_nth)
  have "list_all (\<lambda>a. op_ok a \<and> op_user a = u) (map snd l)"
    using served_session_ops [OF assms(4,5), of "map h_id hs"] assms(6) by (auto simp: list_all_iff session_op_def)
  then have "list_all (\<lambda>a. op_ok a \<and> op_user a = u) ?sent"
    using effective_by_subset [of l "contents (sfs s)"] by (fastforce simp: list_all_iff foreign_def)
  then have c: "client_inv (c, cfs)" "list_all (client_admits (c, cfs)) ?sent"
    using f by (simp_all add: client_inv_def client_admits_def list_all_iff)
  obtain y where y: "SyncFromServer_loop C stop net 0 c cfs = SyncFromServer_loop C stop net (length ?sent) (fst y) (snd y)"
    "client_effect ?sent (c, cfs) y"
    using client_replay.replays [OF assms(1) c, of "[]" stop 0 net] f by auto
  have "SyncFromServer_loop C stop net 0 c cfs = Some (fst y, snd y)"
    using y(1) f by (simp add: SyncFromServer_loop.simps [of C stop net "length ?sent"])
  moreover have "contents (snd y) = fold apply_op ?sent (contents cfs)"
    using y(2) by (simp add: client_effect_def follows_def)
  ultimately show thesis
    using that run(1) followsD(3) [OF run(2)] k' f by metis
qed

section \<open>Properties\<close>

text \<open>
  Sessions interleave safely on the server: whatever order the handlers of a user's
  devices take their turns in, the server's files are those that performing the operations
  in that order gives, every backup has been sent the operations that changed something, in
  that order, and every device those of them that came from the other devices.
\<close>

theorem sessions_interleave:
  assumes "codec_ok C" and "srv_ready u s" and "has_dir (sfs s) u"
    and "list_all2 (waits C u) qs hs" and "sched_ok ks qs"
  shows "\<exists>hs' s'. run_turns C T ks hs s = Some (hs', s')
    \<and> contents (sfs s') = fold apply_op (map snd (served ks (map h_id hs) qs)) (contents (sfs s))
    \<and> spread C u (effective_by (served ks (map h_id hs) qs) (contents (sfs s))) s s'"
  using turns_perform [OF assms, of T] by (auto simp: follows_def)

text \<open>Two devices of one user, on the connections 4 and 7, each with one change under way.\<close>

definition two_handlers :: "op \<Rightarrow> op \<Rightarrow> handler list" where
  "two_handlers a b = [sample_handler (op_msg pb_codec a), (sample_handler (op_msg pb_codec b))\<lparr>h_id := 7\<rparr>]"

lemma two_handlers_wait:
  assumes "session_op pb_codec ''u'' a" and "session_op pb_codec ''u'' b"
  shows "list_all2 (waits pb_codec ''u'') [[a], [b]] (two_handlers a b)"
  using assms by (simp add: two_handlers_def waits_def sample_handler_def)

lemma two_handlers_ids: "map h_id (two_handlers a b) = [4, 7]"
  by (simp add: two_handlers_def sample_handler_def)

definition put_f :: "byte list \<Rightarrow> op" where
  "put_f bs = Put ''u'' ''f'' bs"

lemma put_f_ok: "length bs < 100 \<Longrightarrow> session_op pb_codec ''u'' (put_f bs)"
  using sample_session_ops
  by (simp add: put_f_def session_op_def sample_ops_def size_ok_def upload_msg_def path_msg_def file_msg_def pb_codec_def
      kBufferSize_val)

theorem sessions_interleave_witness:
  "\<exists>hs' s'. run_turns pb_codec sample_tables [1, 0] (two_handlers (put_f [8]) (put_f [9])) sample_srv = Some (hs', s')
    \<and> contents (sfs s') ''u'' ''f'' = Some [8]"
  using sessions_interleave [OF pb_codec_ok sample_srv_ready _ two_handlers_wait [OF put_f_ok put_f_ok, of "[8]" "[9]"],
      of "[1, 0]" sample_tables] sample_has_dir
  by (auto simp: two_handlers_ids put_f_def sample_srv_def)

text \<open>
  C6. Devices that change different files converge: a device that has made its own changes,
  and then reads what the server told it while the handlers took their turns in any order,
  has the server's files of the user in the end.
\<close>

theorem disjoint_devices_converge:
  assumes "codec_ok C" and "srv_ready u s" and "has_dir (sfs s) u"
    and "list_all2 (waits C u) qs hs" and "sched_ok ks qs"
    and "l = served ks (map h_id hs) qs"
    and "clients s u = Some k" and "j < length (devices k)" and "i = dev_id (devices k ! j)"
    and "\<forall>a\<in>set (own i l). \<forall>b\<in>set (foreign i l). op_file a \<noteq> op_file b"
    and "follower C u (foreign i (effective_by l (contents (sfs s)))) stop c cfs"
    and "contents cfs u = fold apply_op (own i l) (contents (sfs s)) u"
  shows "\<exists>hs' s' k' c' cfs'. run_turns C T ks hs s = Some (hs', s') \<and> clients s' u = Some k'
    \<and> tx (ep (strm (sync_out (devices k' ! j)))) = tx (ep (strm (sync_out (devices k ! j)))) @ incoming (strm (server_fe c))
    \<and> SyncFromServer_loop C stop net 0 c cfs = Some (c', cfs')
    \<and> contents cfs' u = contents (sfs s') u"
proof -
  let ?sent = "foreign i (effective_by l (contents (sfs s)))"
  obtain hs' s' k' c' cfs' where r: "run_turns C T ks hs s = Some (hs', s')"
    "contents (sfs s') = fold apply_op (map snd l) (contents (sfs s))" "clients s' u = Some k'"
    "tx (ep (strm (sync_out (devices k' ! j)))) = tx (ep (strm (sync_out (devices k ! j)))) @ incoming (strm (server_fe c))"
    "SyncFromServer_loop C stop net 0 c cfs = Some (c', cfs')" "contents cfs' = fold apply_op ?sent (contents cfs)"
    by (rule device_replays [where T = T and net = net, OF assms(1-9,11)]) (rule that; assumption)
  have "list_all (\<lambda>a. op_user a = u) ?sent"
    using served_session_ops [OF assms(4,5), of "map h_id hs"] effective_by_subset [of l "contents (sfs s)"] assms(6)
    by (fastforce simp: list_all_iff foreign_def session_op_def)
  then have "contents cfs' u = fold apply_op ?sent (fold apply_op (own i l) (contents (sfs s))) u"
    unfolding r(6) using assms(12) by (rule fold_same_user)
  also have "\<dots> = contents (sfs s') u"
    unfolding foreign_after_own [OF assms(10)] r(2) ..
  finally show ?thesis
    using r by blast
qed

definition put_g :: op where
  "put_g = Put ''u'' ''g'' [7]"

definition two_devices :: composite where
  "two_devices = \<lparr>username = ''u'', devices = [sample_device 4, sample_device 7], locked = False\<rparr>"

lemma two_devices_simps:
  "clients sample_srv ''u'' = Some two_devices" "length (devices two_devices) = 2"
  "dev_id (devices two_devices ! Suc 0) = 7" "sfs sample_srv = sample_fs"
  by (simp_all add: sample_srv_def two_devices_def sample_device_def)

lemma put_g_ok: "session_op pb_codec ''u'' put_g"
  using sample_session_ops by (simp add: put_g_def sample_ops_def)

lemma sample_follower:
  "follower pb_codec ''u'' [a] (\<lambda>i. 1 \<le> i) (sample_client [] (op_msg pb_codec a)) sample_fs"
  using sample_layout sample_has_dir by (auto simp: follower_def sample_client_def)

theorem disjoint_devices_converge_witness:
  "\<exists>hs' s' c' cfs'. run_turns pb_codec sample_tables [1, 0] (two_handlers put_g (put_f [1, 2, 3])) sample_srv = Some (hs', s')
    \<and> SyncFromServer_loop pb_codec (\<lambda>i. 1 \<le> i) (\<lambda>_ _ _ _. None) 0 (sample_client [] (op_msg pb_codec put_g)) sample_fs
      = Some (c', cfs')
    \<and> contents cfs' ''u'' = contents (sfs s') ''u''"
proof -
  have l: "served [1, 0] (map h_id (two_handlers put_g (put_f [1, 2, 3]))) [[put_g], [put_f [1, 2, 3]]]
      = [(7, put_f [1, 2, 3]), (4, put_g)]"
    by (simp add: two_handlers_ids)
  have pre: "list_all2 (waits pb_codec ''u'') [[put_g], [put_f [1, 2, 3]]] (two_handlers put_g (put_f [1, 2, 3]))"
    "sched_ok [1, 0] [[put_g], [put_f [1, 2, 3]]]" "has_dir (sfs sample_srv) ''u''" "1 < length (devices two_devices)"
    "7 = dev_id (devices two_devices ! 1)"
    using two_handlers_wait [OF put_g_ok put_f_ok] sample_has_dir by (simp_all add: two_devices_simps)
  have parts: "own 7 [(7, put_f [1, 2, 3]), (4, put_g)] = [put_f [1, 2, 3]]"
    "foreign 7 [(7, put_f [1, 2, 3]), (4, put_g)] = [put_g]"
    "foreign 7 (effective_by [(7, put_f [1, 2, 3]), (4, put_g)] (contents (sfs sample_srv))) = [put_g]"
    by (simp_all add: own_def put_f_def put_g_def)
  have disj: "\<forall>a\<in>set (own 7 [(7, put_f [1, 2, 3]), (4, put_g)]). \<forall>b\<in>set (foreign 7 [(7, put_f [1, 2, 3]), (4, put_g)]).
      op_file a \<noteq> op_file b"
    unfolding parts by (simp add: put_f_def put_g_def)
  have "contents sample_fs ''u'' = fold apply_op [put_f [1, 2, 3]] (contents (sfs sample_srv)) ''u''"
    by (auto simp: put_f_def two_devices_simps sample_contents)
  then show ?thesis
    using disjoint_devices_converge [OF pb_codec_ok sample_srv_ready pre(3) pre(1,2) l [symmetric]
        two_devices_simps(1) pre(4,5) disj, unfolded parts, OF sample_follower, of sample_tables "\<lambda>_ _ _ _. None"] by blast
qed

text \<open>
  C7. Devices that change one file at the same time diverge: the server performs the first
  device's version, then the second's; the second device, which has its own version already
  and is told of the first one's only, ends with the first device's version, while the server
  and its backups keep the second's.
\<close>

theorem crossing_updates_diverge:
  assumes "codec_ok C" and "srv_ready u s" and "has_dir (sfs s) u"
    and "waits C u [Put u f x] h" and "waits C u [Put u f y] g" and "h_id h \<noteq> h_id g"
    and "clients s u = Some k" and "j < length (devices k)" and "dev_id (devices k ! j) = h_id g"
    and "follower C u [Put u f x] stop c cfs" and "contents cfs u f = Some y" and "x \<noteq> y"
  shows "\<exists>hs' s' k' c' cfs'. run_turns C T [0, 1] [h, g] s = Some (hs', s') \<and> clients s' u = Some k'
    \<and> tx (ep (strm (sync_out (devices k' ! j)))) = tx (ep (strm (sync_out (devices k ! j)))) @ incoming (strm (server_fe c))
    \<and> SyncFromServer_loop C stop net 0 c cfs = Some (c', cfs')
    \<and> contents (sfs s') u f = Some y \<and> contents cfs' u f = Some x \<and> contents cfs' u \<noteq> contents (sfs s') u"
proof -
  let ?qs = "[[Put u f x], [Put u f y]]" and ?hs = "[h, g]" and ?ks = "[0, 1]"
  let ?l = "served ?ks (map h_id ?hs) ?qs"
  have l: "?l = [(h_id h, Put u f x), (h_id g, Put u f y)]"
    by simp
  have pre: "list_all2 (waits C u) ?qs ?hs" "sched_ok ?ks ?qs" "h_id g = dev_id (devices k ! j)"
    using assms(4,5,9) by simp_all
  have "foreign (h_id g) (effective_by ?l (contents (sfs s))) = [Put u f x]"
    unfolding l using assms(6) by simp
  then have fol: "follower C u (foreign (h_id g) (effective_by ?l (contents (sfs s)))) stop c cfs"
    using assms(10) by simp
  obtain hs' s' k' c' cfs' where r: "run_turns C T ?ks ?hs s = Some (hs', s')"
    "contents (sfs s') = fold apply_op (map snd ?l) (contents (sfs s))" "clients s' u = Some k'"
    "tx (ep (strm (sync_out (devices k' ! j)))) = tx (ep (strm (sync_out (devices k ! j)))) @ incoming (strm (server_fe c))"
    "SyncFromServer_loop C stop net 0 c cfs = Some (c', cfs')"
    "contents cfs' = fold apply_op (foreign (h_id g) (effective_by ?l (contents (sfs s)))) (contents cfs)"
    by (rule device_replays [where T = T and net = net, OF assms(1-3) pre(1,2) refl assms(7,8) pre(3) fol])
      (rule that; assumption)
  have "contents (sfs s') u f = Some y" "contents cfs' u f = Some x"
    using r(2,6) assms(6) by (simp_all add: l)
  then show ?thesis
    using r(1,3,4,5) assms(12) by (intro exI conjI) (assumption | auto)+
qed

theorem crossing_updates_diverge_witness:
  "\<exists>hs' s' c' cfs'. run_turns pb_codec sample_tables [0, 1] (two_handlers (put_f [8]) (put_f [1, 2, 3])) sample_srv
      = Some (hs', s')
    \<and> SyncFromServer_loop pb_codec (\<lambda>i. 1 \<le> i) (\<lambda>_ _ _ _. None) 0 (sample_client [] (op_msg pb_codec (put_f [8]))) sample_fs
      = Some (c', cfs')
    \<and> contents (sfs s') ''u'' ''f'' = Some [1, 2, 3] \<and> contents cfs' ''u'' ''f'' = Some [8]"
proof -
  let ?h = "sample_handler (op_msg pb_codec (put_f [8]))"
    and ?g = "(sample_handler (op_msg pb_codec (put_f [1, 2, 3])))\<lparr>h_id := 7\<rparr>"
  have waits: "waits pb_codec ''u'' [Put ''u'' ''f'' [8]] ?h" "waits pb_codec ''u'' [Put ''u'' ''f'' [1, 2, 3]] ?g"
    using two_handlers_wait [OF put_f_ok put_f_ok, of "[8]" "[1, 2, 3]"] by (simp_all add: two_handlers_def put_f_def)
  have pre: "has_dir (sfs sample_srv) ''u''" "h_id ?h \<noteq> h_id ?g" "1 < length (devices two_devices)"
    "dev_id (devices two_devices ! 1) = h_id ?g" "contents sample_fs ''u'' ''f'' = Some [1, 2, 3]" "[8] \<noteq> [1, 2, 3::byte]"
    using sample_has_dir by (simp_all add: two_devices_simps sample_contents sample_handler_def)
  show ?thesis
    using crossing_updates_diverge [OF pb_codec_ok sample_srv_ready pre(1) waits pre(2) two_devices_simps(1) pre(3,4)
        sample_follower [of "put_f [8]", unfolded put_f_def] pre(5,6), of sample_tables "\<lambda>_ _ _ _. None"]
    unfolding two_handlers_def put_f_def by blast
qed

end
