(* ===== verification/Isolation.thy ===== *)
theory Isolation
  imports Prelude Composite ClientHandler
begin

text \<open>
  The interface between a handler and the composite that owns it,
  \<^verbatim>\<open>server/CompositeInterface.hpp\<close>: what the two broadcasts promise to whoever calls them,
  as a locale, and what the handler's commands, its two loops and hence every session keep
  because of it, whatever bytes its client sends.
\<close>

section \<open>The interface\<close>

text \<open>
  \<open>keeps u i s s'\<close>: what the composite of the user \<open>u\<close> promises to the handler with the id
  \<open>i\<close> about the server's state before and after a broadcast. The handler itself changes
  the files.
\<close>

locale composite_interface =
  fixes keeps :: "string \<Rightarrow> int \<Rightarrow> srv \<Rightarrow> srv \<Rightarrow> bool"
  assumes keeps_refl: "keeps u i s s"
    and keeps_trans: "keeps u i s t \<Longrightarrow> keeps u i t r \<Longrightarrow> keeps u i s r"
    and keeps_files: "keeps u i s (s\<lparr>sfs := fs\<rparr>)"
    and keeps_upload: "BroadcastUpload C u i p s = Some (ok, s') \<Longrightarrow> keeps u i s s'"
    and keeps_delete: "BroadcastDelete C u i p s = Some (ok, s') \<Longrightarrow> keeps u i s s'"
begin

definition stays :: "handler \<Rightarrow> srv \<Rightarrow> handler \<Rightarrow> srv \<Rightarrow> bool" where
  "stays h s h' s' = (keeps (h_user h) (h_id h) s s' \<and> h_user h' = h_user h \<and> h_id h' = h_id h)"

lemma staysD:
  assumes "stays h s h' s'"
  shows "keeps (h_user h) (h_id h) s s'" and "h_user h' = h_user h" and "h_id h' = h_id h"
  using assms by (simp_all add: stays_def)

lemma stays_trans: "stays h s h1 s1 \<Longrightarrow> stays h1 s1 h2 s2 \<Longrightarrow> stays h s h2 s2"
  using keeps_trans by (auto simp: stays_def)

lemma stays_streams [simp]:
  "stays (h\<lparr>fe := x\<rparr>) s h' s' \<longleftrightarrow> stays h s h' s'" "stays (h\<lparr>csfe := x\<rparr>) s h' s' \<longleftrightarrow> stays h s h' s'"
  "stays h s (h'\<lparr>fe := x\<rparr>) s' \<longleftrightarrow> stays h s h' s'" "stays h s (h'\<lparr>csfe := x\<rparr>) s' \<longleftrightarrow> stays h s h' s'"
  "stays h s (flush_payload h') s' \<longleftrightarrow> stays h s h' s'"
  by (simp_all add: stays_def flush_payload_def)

lemma stays_same [simp]: "stays h s h s"
  by (simp add: stays_def keeps_refl)

lemma stays_broadcast:
  "BroadcastUpload C (h_user h) (h_id h) p (s\<lparr>sfs := fs\<rparr>) = Some (ok, s') \<Longrightarrow> stays h s h s'"
  "BroadcastDelete C (h_user h) (h_id h) p (s\<lparr>sfs := fs\<rparr>) = Some (ok, s') \<Longrightarrow> stays h s h s'"
  by (simp_all add: stays_def) (blast intro: keeps_trans [OF keeps_files] keeps_upload keeps_delete)+

lemma stays_files [simp]: "stays h s h (s\<lparr>sfs := fs\<rparr>)"
  by (simp add: stays_def keeps_files)

lemma stays_Upload: "Handler_Upload C h s = Some (ok, h', s') \<Longrightarrow> stays h s h' s'"
  by (auto simp: Handler_Upload_def stays_broadcast split: prod.splits bool.splits option.splits)

lemma stays_Delete: "Handler_Delete C h s = Some (r, h', s') \<Longrightarrow> stays h s h' s'"
  by (auto simp: Handler_Delete_def stays_broadcast split: prod.splits bool.splits option.splits sum.splits if_splits)

lemma stays_Download: "Handler_Download C fs h = Some (ok, h') \<Longrightarrow> stays h s h' s"
  by (auto simp: Handler_Download_def Let_def split: prod.splits bool.splits option.splits if_splits)

lemma stays_ListServer: "ListServer C T fs h = Some (ok, h') \<Longrightarrow> stays h s h' s"
  by (auto simp: ListServer_def split: prod.splits sum.splits)

lemmas stays_operations = stays_Upload stays_Delete stays_Download stays_ListServer

lemma stays_command: "Handler_command C T w h s = Some (r, h', s') \<Longrightarrow> stays h s h' s'"
  by (auto simp: Handler_command_def stays_operations split: wire.splits Command.splits)

lemma stays_turn:
  assumes "Handler_turn C T n h s = Some r"
  shows "case r of Inl y \<Rightarrow> stays h s (fst (snd y)) (snd (snd y)) | Inr t \<Rightarrow> stays h s (fst (snd t)) (snd (snd t))"
proof -
  have "stays h s (fst (snd t)) (snd (snd t))" if "Handler_command C T w (h\<lparr>fe := x\<rparr>) s = Some t" for w x t
    using stays_command [of C T w "h\<lparr>fe := x\<rparr>" s "fst t" "fst (snd t)" "snd (snd t)"] that by simp
  then show ?thesis
    using assms by (auto simp: Handler_turn_def Let_def split: sum.splits if_splits option.splits)
qed

lemma stays_loop: "Handler_loop C T n h s = Some y \<Longrightarrow> stays h s (fst (snd y)) (snd (snd y))"
proof (erule Handler_loop.raw_induct [where P = "\<lambda>C T n h s y. stays h s (fst (snd y)) (snd (snd y))", rotated], goal_cases)
  case (1 loop C T n h s y)
  show ?case
    using 1(2) stays_turn [of C T n h s] stays_trans 1(1) by (auto split: option.splits sum.splits)
qed

lemma stays_Sync_command: "Sync_command C w h s = Some (h', s') \<Longrightarrow> stays h s h' s'"
  by (auto simp: Sync_command_def Let_def stays_broadcast
      split: wire.splits Command.splits option.splits sum.splits prod.splits)

lemma stays_Sync_once: "Sync_once C h s = Some (h', s') \<Longrightarrow> stays h s h' s'"
  by (auto simp: Sync_once_def Let_def dest: stays_Sync_command split: sum.splits)

lemma stays_Sync_loop: "Sync_loop C stop i h s = Some y \<Longrightarrow> stays h s (fst y) (snd y)"
proof (erule Sync_loop.raw_induct [where P = "\<lambda>C stop i h s y. stays h s (fst y) (snd y)", rotated], goal_cases)
  case (1 loop C stop i h s y)
  show ?case
    using 1(2) stays_Sync_once [of C h s] stays_trans 1(1) [of C stop "i + 1"]
    by (auto split: option.splits if_splits)
qed

lemma stays_SyncFromClient: "Handler_SyncFromClient C stop h s = Some (h', s') \<Longrightarrow> stays h s h' s'"
  by (auto simp: Handler_SyncFromClient_def dest: stays_Sync_loop split: prod.splits bool.splits)

end

section \<open>What a broadcast leaves alone\<close>

text \<open>
  What a handler with the id \<open>i\<close> can tell of its composite: the name, the ids of the devices
  in their order, and its own connection.
\<close>

definition seen_by :: "int \<Rightarrow> composite \<Rightarrow> string \<times> (int \<times> fexch option) list" where
  "seen_by i c = (username c, map (\<lambda>d. (dev_id d, if dev_id d = i then Some (sync_out d) else None)) (devices c))"

text \<open>
  The other users' composites, the pool and the list of servers are as before, there are as
  many backups, and the user's composite looks the same to the handler.
\<close>

definition isolated :: "string \<Rightarrow> int \<Rightarrow> srv \<Rightarrow> srv \<Rightarrow> bool" where
  "isolated u i s s' = ((\<forall>v. v \<noteq> u \<longrightarrow> clients s' v = clients s v)
     \<and> map_option (seen_by i) (clients s' u) = map_option (seen_by i) (clients s u)
     \<and> server_list s' = server_list s \<and> pool_locked s' = pool_locked s \<and> length (backups s') = length (backups s))"

lemma isolated_refl: "isolated u i s s" "isolated u i s (s\<lparr>sfs := fs\<rparr>)"
  by (simp_all add: isolated_def)

lemma isolated_trans: "isolated u i s t \<Longrightarrow> isolated u i t r \<Longrightarrow> isolated u i s r"
  by (simp add: isolated_def)

lemma broadcast_isolated:
  assumes "BroadcastCommand f g u i s = Some (ok, s')" and "\<And>d ok d'. f d = Some (ok, d') \<Longrightarrow> dev_id d' = dev_id d"
  shows "isolated u i s s'"
proof (cases "clients s u")
  case (Some c)
  obtain ok1 ds bs where sh: "each (\<lambda>d. dev_id d \<noteq> i) f (devices c) = Some (ok1, ds)"
    "s' = put_comp u (c\<lparr>locked := locked_after ok c s, devices := ds\<rparr>)
      (s\<lparr>users := users_after ok s, backups := bs\<rparr>)"
    "bs = backups s \<or> (\<exists>ok2. each (\<lambda>_. True) g (backups s) = Some (ok2, bs))"
    by (rule broadcast_shape [OF assms(1) Some]) (rule that; assumption)
  have "seen_by i (c\<lparr>locked := locked_after ok c s, devices := ds\<rparr>) = seen_by i c"
    using each_keeps [OF sh(1), of "\<lambda>d. (dev_id d, if dev_id d = i then Some (sync_out d) else None)"] assms(2)
    by (simp add: seen_by_def)
  moreover have "length bs = length (backups s)"
    using sh(3) arg_cong [OF each_keeps [of "\<lambda>_. True" g "backups s" _ bs "\<lambda>_. ()"], where f = length] by auto
  ultimately show ?thesis
    using Some sh(2) by (simp add: isolated_def put_comp_def)
qed (use assms(1) in \<open>simp add: BroadcastCommand_def isolated_refl\<close>)

lemma broadcasts_isolated:
  "BroadcastUpload C u i p s = Some (ok, s') \<Longrightarrow> isolated u i s s'"
  "BroadcastDelete C u i p s = Some (ok, s') \<Longrightarrow> isolated u i s s'"
  unfolding BroadcastUpload_def BroadcastDelete_def by (erule broadcast_isolated, erule Sync_dev_id)+

lemma broadcasts_ids:
  "BroadcastUpload C u i p s = Some (ok, s') \<Longrightarrow> ids_of s' = ids_of s"
  "BroadcastDelete C u i p s = Some (ok, s') \<Longrightarrow> ids_of s' = ids_of s"
  unfolding BroadcastUpload_def BroadcastDelete_def by (erule broadcast_ids, erule Sync_dev_id)+

section \<open>What the composite of the model promises\<close>

interpretation frame: composite_interface isolated
  by unfold_locales (use isolated_trans broadcasts_isolated in \<open>auto simp: isolated_refl\<close>)

interpretation ids: composite_interface "\<lambda>u i s s'. ids_of s' = ids_of s"
  by unfold_locales (auto simp: broadcasts_ids ids_of_def fun_eq_iff)

section \<open>Properties\<close>

text \<open>
  C14. No change is sent back to its origin: whatever bytes a client sends on its two connections,
  the handler's main loop and its \<^verbatim>\<open>SyncFromClient\<close> write nothing on the connection on
  which that device receives changes, touch no device of another user, add and remove no
  device and no backup, and leave the pool and the list of servers as they were. (What the
  handler answers to commands and requests on the two connections it reads from is not part
  of this.)
\<close>

theorem handler_isolated:
  assumes "h_user h = u" and "h_id h = i"
  shows "(\<forall>r h' s'. Handler_MainLoop C T h s = Some (r, h', s') \<longrightarrow> isolated u i s s')
    \<and> (\<forall>h' s'. Handler_SyncFromClient C stop h s = Some (h', s') \<longrightarrow> isolated u i s s')"
proof (intro conjI allI impI)
  fix r h' s'
  assume "Handler_MainLoop C T h s = Some (r, h', s')"
  then show "isolated u i s s'"
    using frame.stays_loop [of C T kAttemptAmount h s "(r, h', s')"] assms
    by (simp add: Handler_MainLoop_def frame.stays_def)
next
  fix h' s'
  assume "Handler_SyncFromClient C stop h s = Some (h', s')"
  then show "isolated u i s s'"
    using frame.stays_SyncFromClient assms by (auto simp: frame.stays_def)
qed

theorem handler_isolated_witness:
  "\<exists>h' s'. Handler_MainLoop pb_codec sample_tables (sample_handler (session_msg sample_ops)) sample_srv = Some (Inr (), h', s')
    \<and> isolated ''u'' 4 sample_srv s'"
proof -
  have "h_user (sample_handler bs) = ''u''" "h_id (sample_handler bs) = 4" for bs
    by (simp_all add: sample_handler_def)
  then show ?thesis
    using handler_isolated [of "sample_handler (session_msg sample_ops)" "''u''" 4 pb_codec sample_tables sample_srv]
      Handler_loop_session [OF pb_codec_ok sample_session, of sample_tables kAttemptAmount]
    by (auto simp: Handler_MainLoop_def)
qed

end
