(* ===== verification/Primary.thy ===== *)
theory Primary
  imports Prelude Commands SocketStream FileSystem Exchange Layout Sockets Replica Composite ClientHandler Isolation Client
begin

text \<open>
  The primary replica: \<^verbatim>\<open>server/replica/Primary.hpp\<close> and \<^verbatim>\<open>Primary.cpp\<close>. Its state is
  the record of \<^verbatim>\<open>Composite\<close>; here are its construction, the two loops that accept
  connections, the life of one client's thread, and the order in which that thread and the
  thread of \<^verbatim>\<open>SyncFromClient\<close> use the handler.
\<close>

section \<open>Construction\<close>

definition kClientPort :: "16 word" where
  "kClientPort = 12345"

definition kBackupPort :: "16 word" where
  "kBackupPort = 54321"

type_synonym primary_exn = ring_exn

text \<open>
  The exceptions are those of \<^verbatim>\<open>common/exceptions.hpp\<close>. \<open>created\<close> says whether the two
  sockets could be created, \<open>bind_ok\<close> and \<open>listen_ok\<close> for a port whether the system call
  succeeds, \<open>timeout\<close> whether the receive timeout of the backup receiver can be set.
\<close>

definition Primary :: "bool \<Rightarrow> (16 word \<Rightarrow> bool) \<Rightarrow> (16 word \<Rightarrow> bool) \<Rightarrow> bool \<Rightarrow> fsys \<Rightarrow> primary_exn + srv" where
  "Primary created bind_ok listen_ok timeout fs =
     (if \<not> created then Inl SocketCreation
      else if \<not> bind_ok kClientPort then Inl Binding
      else if \<not> bind_ok kBackupPort then Inl Binding
      else if \<not> listen_ok kClientPort \<or> \<not> listen_ok kBackupPort then Inl Listening
      else if \<not> timeout then Inl SetTimeoutException
      else Inr \<lparr>sfs = fs, users = 0, backups = [], clients = Map.empty, pool_locked = False, server_list = []\<rparr>)"

definition Primary_SetServers :: "addr list \<Rightarrow> srv \<Rightarrow> srv" where
  "Primary_SetServers servers s = s\<lparr>server_list := server_list s @ concat (map (\<lambda>a. ip a @ '' '') servers)\<rparr>"

definition GetServers :: "srv \<Rightarrow> string" where
  "GetServers s = server_list s"

section \<open>Accepting backups\<close>

text \<open>The results of \<^verbatim>\<open>accept\<close>, in order, until the stop is requested; \<open>None\<close> is an invalid socket.\<close>

fun AcceptBackupLoop :: "endpoint option list \<Rightarrow> srv \<Rightarrow> srv" where
  "AcceptBackupLoop [] s = s"
| "AcceptBackupLoop (None # as) s = AcceptBackupLoop as s"
| "AcceptBackupLoop (Some e # as) s = AcceptBackupLoop as (s\<lparr>backups := backups s @ [BackupHandler e]\<rparr>)"

section \<open>Accepting clients\<close>

text \<open>
  The main loop over the results of \<^verbatim>\<open>accept\<close> up to the shutdown: the sockets handed to
  \<^verbatim>\<open>NewClient\<close>, three by three. \<open>Inl\<close> is an invalid socket with its \<^verbatim>\<open>errno\<close>.
\<close>

fun InvalidSockets :: "(int + 'e) list \<Rightarrow> bool" where
  "InvalidSockets [] = False"
| "InvalidSockets (Inl _ # rs) = True"
| "InvalidSockets (Inr _ # rs) = InvalidSockets rs"

fun interrupted :: "int + 'e \<Rightarrow> bool" where
  "interrupted (Inl e) = (e = EAGAIN \<or> e = EINTR)"
| "interrupted (Inr _) = False"

fun Primary_MainLoop :: "(int + 'e) list \<Rightarrow> ('e \<times> 'e \<times> 'e) list" where
  "Primary_MainLoop (a # as) =
     (if interrupted a then Primary_MainLoop as
      else case as of
          b # c # rest \<Rightarrow>
            (if InvalidSockets [a, c, b] then Primary_MainLoop rest
             else (projr a, projr b, projr c) # Primary_MainLoop rest)
        | _ \<Rightarrow> [])"
| "Primary_MainLoop [] = []"

text \<open>
  The search for a thread to reuse: \<open>True\<close> is a joinable thread, and a thread that has
  finished stays joinable until it is joined.
\<close>

fun place_thread :: "bool list \<Rightarrow> bool list" where
  "place_thread [] = [True]"
| "place_thread (joinable # ts) = (if \<not> joinable then True # ts else joinable # place_thread ts)"

section \<open>The thread of a client\<close>

text \<open>
  \<open>Rejected\<close>: an exception before the handler was in the list; \<open>Threw\<close>: one of the main
  loop; \<open>Ended\<close>: the main loop returned and the handler was removed. \<open>i\<close> is the descriptor
  of the payload socket. Nothing else changes the state meanwhile: the thread that runs
  \<^verbatim>\<open>SyncFromClient\<close> beside the main loop and its join at the end are left out of this
  sequential reading. When that thread ends, relative to the removal, is the subject of
  \<open>cstep\<close> below, and what the turns of both threads do to one server state that of \<open>Tenants\<close>.
\<close>

datatype session_end = Rejected | Threw | Ended

definition NewClient :: "codec \<Rightarrow> tables \<Rightarrow> int \<Rightarrow> endpoint \<Rightarrow> endpoint \<Rightarrow> endpoint \<Rightarrow> srv
    \<Rightarrow> (session_end \<times> srv) option" where
  "NewClient C T i payload client_sync server_sync s =
     (case load (rd_str C) (SocketStream payload) of
        (Loaded u, st) \<Rightarrow>
          (case Pool_Emplace (ClientHandler C u i st client_sync server_sync) u s of
             None \<Rightarrow> None
           | Some (Inl _, s1) \<Rightarrow> Some (Rejected, s1)
           | Some (Inr h, s1) \<Rightarrow>
               (case Handler_MainLoop C T (SetServers (GetServers s1) h) s1 of
                  None \<Rightarrow> None
                | Some (Inl _, _, s2) \<Rightarrow> Some (Threw, s2)
                | Some (Inr _, h', s2) \<Rightarrow>
                    (case Composite_Remove (h_user h') (h_id h') s2 of
                       None \<Rightarrow> None
                     | Some s3 \<Rightarrow> Some (Ended, s3))))
      | _ \<Rightarrow> Some (Rejected, s))"

section \<open>What reading the user name leaves in the stream\<close>

text \<open>The stream after the first system call has delivered \<open>bs\<close>.\<close>

definition filled :: "byte list \<Rightarrow> rd_event list \<Rightarrow> sstream \<Rightarrow> sstream" where
  "filled bs evs s = s\<lparr>ep := (ep s)\<lparr>rx := evs\<rparr>, mem := blit 0 bs (mem s), gnext := 0, gend := length bs\<rparr>"

definition unfilled :: "byte list \<Rightarrow> rd_event list \<Rightarrow> sstream \<Rightarrow> bool" where
  "unfilled bs evs s = (gend s \<le> gnext s \<and> pnext s = 0 \<and> wr (ep s) = [] \<and> rx (ep s) = RdData bs # evs
     \<and> length bs \<le> kBufferSize)"

lemma sgetn_within:
  assumes "n \<le> gend s - gnext s"
  shows "sgetn n s = (Inr (block (mem s) (gnext s) (gnext s + n)), s\<lparr>gnext := gnext s + n\<rparr>)"
  using assms by (simp add: sgetn.simps [of n s] min_absorb2)

lemma uflow_fills:
  assumes "unfilled bs evs s" and "bs \<noteq> []"
  shows "uflow s = (Inr (Some (hd bs)), (filled bs evs s)\<lparr>gnext := 1\<rparr>)"
proof -
  have "bs ! 0 = hd bs"
    using assms(2) by (simp add: hd_conv_nth)
  then show ?thesis
    using assms by (cases "ep s")
      (simp add: uflow_def underflow_def sync_def SendData_def ReceiveData_def unfilled_def filled_def
        kInvalidRead_def kInvalidWrite_def Let_def blit_def)
qed

lemma sgetn_fills:
  assumes "unfilled bs evs s" and "0 < n" and "n \<le> length bs"
  shows "sgetn n s = (Inr (take n bs), (filled bs evs s)\<lparr>gnext := n\<rparr>)"
proof -
  let ?s = "(filled bs evs s)\<lparr>gnext := 1\<rparr>"
  have bs: "bs \<noteq> []"
    using assms(2,3) by auto
  have "n - 1 \<le> gend ?s - gnext ?s"
    using assms(3) by (simp add: filled_def)
  from sgetn_within [OF this]
  have rest: "sgetn (n - 1) ?s = (Inr (block (mem ?s) 1 n), (filled bs evs s)\<lparr>gnext := n\<rparr>)"
    using assms(2) by simp
  have "take n bs = block (blit 0 bs (mem s)) 0 n"
    using assms(3) by (simp add: block_blit_take)
  also have "\<dots> = hd bs # block (mem ?s) 1 n"
    using assms(2) bs by (simp add: block_Cons filled_def blit_def hd_conv_nth)
  finally have "take n bs = hd bs # block (mem ?s) 1 n" .
  moreover have "s\<lparr>gnext := gnext s + 0\<rparr> = s"
    by simp
  moreover have "min (gend s - gnext s) n = 0"
    using assms(1) by (simp add: unfilled_def)
  ultimately show ?thesis
    using uflow_fills [OF assms(1) bs] rest assms(2)
    by (simp add: sgetn.simps [of n s] Let_def)
qed

text \<open>A value that is in the get area as a whole is read from there.\<close>

lemma run_within:
  assumes "feed r (block (mem s) (gnext s) (gend s)) = (Loaded x, [])"
  shows "\<exists>n. run_reader sgetn r s = (Loaded x, s\<lparr>gnext := n\<rparr>) \<and> gend s \<le> n"
  using assms
proof (induction r arbitrary: s)
  case (Done y)
  then show ?case
    by (intro exI [of _ "gnext s"]) simp
next
  case (Need n k)
  let ?bs = "block (mem s) (gnext s) (gend s)" and ?s = "s\<lparr>gnext := gnext s + n\<rparr>"
  have n: "n \<le> gend s - gnext s"
    using Need.prems by (simp split: if_splits)
  have "take n ?bs = block (mem s) (gnext s) (gnext s + n)" "drop n ?bs = block (mem ?s) (gnext ?s) (gend ?s)"
    using n by (auto simp: take_block drop_block min_def)
  then have "feed (k (block (mem s) (gnext s) (gnext s + n))) (block (mem ?s) (gnext ?s) (gend ?s)) = (Loaded x, [])"
    using Need.prems n by simp
  from Need.IH [OF _ this] obtain m where
    "run_reader sgetn (k (block (mem s) (gnext s) (gnext s + n))) ?s = (Loaded x, ?s\<lparr>gnext := m\<rparr>)" "gend s \<le> m"
    by auto
  then show ?case
    using sgetn_within [OF n] by auto
qed simp

lemma run_fills:
  assumes "unfilled bs evs s" and "feed r bs = (Loaded x, [])" and "bs \<noteq> []"
  shows "\<exists>n. run_reader sgetn r s = (Loaded x, (filled bs evs s)\<lparr>gnext := n\<rparr>) \<and> length bs \<le> n"
  using assms(2)
proof (induction r)
  case (Need n k)
  show ?case
  proof (cases "n = 0")
    case True
    then show ?thesis
      using Need.IH [of "k []"] Need.prems by (simp add: sgetn.simps [of 0 s])
  next
    case False
    have n: "n \<le> length bs"
      using Need.prems by (simp split: if_splits)
    let ?s = "(filled bs evs s)\<lparr>gnext := n\<rparr>"
    have "drop n bs = block (mem ?s) (gnext ?s) (gend ?s)"
      using block_blit_same [of "length bs" 0 bs "mem s"] drop_block [of n "blit 0 bs (mem s)" 0 "length bs"]
      by (simp add: filled_def)
    then have "feed (k (take n bs)) (block (mem ?s) (gnext ?s) (gend ?s)) = (Loaded x, [])"
      using Need.prems n by simp
    from run_within [OF this] obtain m where
      "run_reader sgetn (k (take n bs)) ?s = (Loaded x, ?s\<lparr>gnext := m\<rparr>)" "length bs \<le> m"
      by (auto simp: filled_def)
    then show ?thesis
      using sgetn_fills [OF assms(1) _ n] False n by auto
  qed
qed (use assms(3) in simp_all)

text \<open>The endpoint of a peer that sends the user name in a segment of its own.\<close>

definition greets :: "codec \<Rightarrow> string \<Rightarrow> rd_event list \<Rightarrow> endpoint \<Rightarrow> bool" where
  "greets C u evs e = (rx e = RdData (enc_str C u) # evs \<and> wr e = [] \<and> list_all delivers evs
     \<and> length (enc_str C u) \<le> kBufferSize \<and> str_ok u)"

lemma rx_bytes_delivered: "list_all delivers (ev # evs) \<Longrightarrow> rx_bytes (ev # evs) = rx_bytes [ev] @ rx_bytes evs"
  by (cases ev) (auto simp: neq_Nil_conv)

lemma load_username:
  assumes "codec_ok C" and "greets C u evs e"
  obtains st where "load (rd_str C) (SocketStream e) = (Loaded u, st)" and "ready (FileExchange st)"
    and "incoming st = rx_bytes evs" and "pending st = []" and "tx (ep st) = tx e"
proof -
  let ?s = "SocketStream e" and ?bs = "enc_str C u"
  have fd: "feed (rd_str C) ?bs = (Loaded u, [])"
    using codec_okD(2) [OF assms(1), of u "[]"] assms(2) by (simp add: greets_def)
  have ne: "?bs \<noteq> []"
    using fd codec_okD(5) [OF assms(1)] by auto
  have "unfilled ?bs evs ?s"
    using assms(2) by (simp add: unfilled_def greets_def SocketStream_def InitializePointers_def)
  from run_fills [OF this fd ne] obtain n where
    r: "load (rd_str C) ?s = (Loaded u, (filled ?bs evs ?s)\<lparr>gnext := n\<rparr>)" "length ?bs \<le> n"
    by (auto simp: load_def)
  show thesis
    by (rule that [OF r(1)])
      (use r(2) assms(2) ne in \<open>simp_all add: ready_def FileExchange_def sound_def reliable_def good_def idle_def
        incoming_def unread_def pending_def filled_def SocketStream_def InitializePointers_def greets_def\<close>)
qed

section \<open>Admitting a client\<close>

definition known :: "srv \<Rightarrow> string \<Rightarrow> int list" where
  "known s u = (case ids_of s u of None \<Rightarrow> [] | Some is \<Rightarrow> is)"

definition answers :: "endpoint \<Rightarrow> bool" where
  "answers e = (list_all delivers (rx e) \<and> wr e = [])"

text \<open>A primary that has room for another device of the user, with all its connections in order.\<close>

definition admitting :: "string \<Rightarrow> srv \<Rightarrow> bool" where
  "admitting u s = (user_name u \<and> layout (sfs s) \<and> names_ok (sfs s) \<and> list_all handler_ready (backups s)
     \<and> users s = 0 \<and> \<not> pool_locked s
     \<and> (case clients s u of None \<Rightarrow> True
        | Some c \<Rightarrow> \<not> locked c \<and> length (devices c) < kDeviceLimit \<and> list_all device_ready (devices c)))"

lemma Base_ready: "answers e \<Longrightarrow> ready (Base e) \<and> pending (strm (Base e)) = []"
  by (simp add: answers_def Base_def FileExchange_def ready_def sound_def reliable_def good_def idle_def
      pending_def SocketStream_def InitializePointers_def)

lemma user_folder:
  assumes "layout fs" and "user_name u" and "names_ok fs"
  obtains fs1 where "CreateUserFolder u fs = Inr fs1" and "same_files fs fs1" and "has_dir fs1 u"
    and "names_ok fs1" and "sync_dir_msg C fs1 u = sync_dir_msg C fs u"
proof (cases "has_dir fs u")
  case True
  then have "CreateUserFolder u fs = Inr fs"
    using resolve_user_dir [OF assms(1,2)]
    by (simp add: CreateUserFolder_def create_directory_def has_dir_def node_at_def)
  then show thesis
    using that same_files_refl [OF assms(1)] True assms(3) by blast
next
  case False
  obtain b fs1 where fs1: "create_directory fs (SyncDirWithPrefix u) = Inr (b, fs1)" "same_files fs fs1" "has_dir fs1 u"
    by (rule create_user_dir [OF assms(1,2)]) (rule that; assumption)
  have lay: "layout fs1" "names_ok fs1" "contents fs1 = contents fs"
    using fs1(2) names_ok_create [OF assms(3,1,2) fs1(1)] by (simp_all add: same_files_def)
  have none: "node_at fs (dir_of fs u) = None"
    using False layoutD(3) [OF assms(1,2)] by (metis has_dir_def node.exhaust option.exhaust)
  then have "names_of fs u = []"
    using resolve_user_dir [OF assms(1,2)] by (simp add: names_of_def directory_names_def flip: node_at_def)
  moreover have "set (names_of fs1 u) = {}"
    using names_of_user(2) [OF lay(1) fs1(3) assms(2) lay(2)] lay(3) contents_no_dir [OF assms(1) False] by simp
  ultimately have "sync_dir_msg C fs1 u = sync_dir_msg C fs u"
    by (simp add: sync_dir_msg_def entries_msg_def)
  then show thesis
    using that [of fs1] fs1 lay(2) by (simp add: CreateUserFolder_def)
qed

lemma NewClient_admits:
  assumes "codec_ok C" and "greets C u evs payload" and "admitting u s" and "answers server_sync"
    and "length (sync_dir_msg C (sfs s) u) \<le> kBufferSize"
  obtains h s1 where "NewClient C T i payload client_sync server_sync s =
      (case Handler_MainLoop C T h s1 of
         None \<Rightarrow> None
       | Some (Inl _, _, s2) \<Rightarrow> Some (Threw, s2)
       | Some (Inr _, h', s2) \<Rightarrow>
           (case Composite_Remove (h_user h') (h_id h') s2 of None \<Rightarrow> None | Some s3 \<Rightarrow> Some (Ended, s3)))"
    and "h_user h = u" and "h_id h = i" and "h_servers h = server_list s"
    and "sound (strm (fe h))" and "incoming (strm (fe h)) = rx_bytes evs"
    and "outgoing (strm (fe h)) = tx payload @ sync_dir_msg C (sfs s) u"
    and "srv_ready u s1" and "has_dir (sfs s1) u" and "contents (sfs s1) = contents (sfs s)"
    and "known s1 u = known s u @ [i]" and "backups s1 = backups s"
proof -
  have adm: "user_name u" "layout (sfs s)" "names_ok (sfs s)" "list_all handler_ready (backups s)" "users s = 0"
    "\<not> pool_locked s"
    using assms(3) by (simp_all add: admitting_def)
  obtain st where st: "load (rd_str C) (SocketStream payload) = (Loaded u, st)" "ready (FileExchange st)"
    "incoming st = rx_bytes evs" "pending st = []" "tx (ep st) = tx payload"
    by (rule load_username [OF assms(1,2)]) (rule that; assumption)
  obtain fs1 where fs1: "CreateUserFolder u (sfs s) = Inr fs1" "same_files (sfs s) fs1" "has_dir fs1 u"
    "names_ok fs1" "sync_dir_msg C fs1 u = sync_dir_msg C (sfs s) u"
    by (rule user_folder [OF adm(2,1,3)]) (rule that; assumption)
  have lay: "layout fs1"
    using fs1(2) by (simp add: same_files_def)
  have room: "length (sync_dir_msg C fs1 u) \<le> room (strm (FileExchange st))"
    using assms(5) fs1(5) st(4) by (auto simp: FileExchange_def room_def pending_def)
  obtain x where x: "Handler_GetSyncDir C fs1 (SyncDirWithPrefix u) (FileExchange st) = Some (Inr (True, x))"
    "wrote (sync_dir_msg C fs1 u) (strm (FileExchange st)) (strm x)"
    by (rule Handler_GetSyncDir_sends [OF lay fs1(3) adm(1) fs1(4) st(2) room]) (rule that; assumption)
  let ?d = "\<lparr>dev_id = i, sync_out = Base server_sync\<rparr>" and ?t = "try_emplace u s"
  let ?h0 = "\<lparr>h_id = i, h_user = u, fe = x, csfe = Base client_sync, h_servers = []\<rparr>"
  obtain c where c: "clients ?t u = Some c" "\<not> locked c" "length (devices c) < kDeviceLimit"
    "list_all device_ready (devices c)" "known s u = map dev_id (devices c)"
    using assms(3) by (auto simp: admitting_def try_emplace_def put_comp_def ClientComposite_def kDeviceLimit_def
        known_def ids_of_def split: option.splits)
  have t: "sfs ?t = sfs s" "users ?t = 0" "backups ?t = backups s" "server_list ?t = server_list s"
    using adm(5) by (simp_all add: try_emplace_def put_comp_def split: option.splits)
  let ?s1 = "put_comp u (c\<lparr>devices := devices c @ [?d]\<rparr>) (?t\<lparr>sfs := fs1\<rparr>)"
  have "Pool_Emplace (ClientHandler C u i st client_sync server_sync) u s = Some (Inr ?h0, ?s1)"
    using adm(6) c(1-3) t(1) fs1(1) x(1)
    by (simp add: Pool_Emplace_def Composite_Emplace_def ClientHandler_def)
  moreover have "GetServers ?s1 = server_list s"
    using t(4) by (simp add: GetServers_def put_comp_def)
  moreover have "known ?s1 u = known s u @ [i]"
    using c(5) by (simp add: known_def)
  moreover have "srv_ready u ?s1"
    using c(2,4) t lay adm(4) Base_ready [OF assms(4)]
    by (simp add: srv_ready_def unlocked_def put_comp_def device_ready_def)
  moreover have "outgoing (strm x) = tx payload @ sync_dir_msg C (sfs s) u" "sound (strm x)" "incoming (strm x) = rx_bytes evs"
    using x(2) st(3-5) fs1(5) by (simp_all add: wrote_def FileExchange_def outgoing_def)
  ultimately show thesis
    using that [of "SetServers (server_list s) ?h0" ?s1] st(1) fs1(2,3) t(3)
    by (simp add: NewClient_def SetServers_def put_comp_def same_files_def)
qed

lemma remove_known:
  assumes "unlocked u s"
  obtains s' where "Composite_Remove u i s = Some s'" and "known s' u = filter (\<lambda>j. j \<noteq> i) (known s u)"
    and "sfs s' = sfs s" and "backups s' = backups s"
  using assms that
  by (auto simp: unlocked_def Composite_Remove_def known_def ids_of_comp put_comp_def ids_of_def filter_map comp_def)

section \<open>The two threads of a connection\<close>

text \<open>
  The client's thread runs the main loop, removes the handler from the list, which destroys
  it, and only then reaches the end of the scope, where \<^verbatim>\<open>kSyncThread\<close> is asked to stop and
  joined. An exception of the main loop skips the removal. The other thread alternates
  between looking at its stop token and one turn that uses the handler.
\<close>

datatype main_pc = Looping | AfterRemove | Unwinding | Joined

datatype sync_pc = Checking | InTurn | Stopped

record connection =
  main_at :: main_pc
  sync_at :: sync_pc
  stop_requested :: bool
  alive :: bool
  used_after_free :: bool

definition start_connection :: connection where
  "start_connection = \<lparr>main_at = Looping, sync_at = Checking, stop_requested = False, alive = True,
     used_after_free = False\<rparr>"

inductive cstep :: "connection \<Rightarrow> connection \<Rightarrow> bool" where
  returns: "main_at c = Looping \<Longrightarrow> cstep c (c\<lparr>main_at := AfterRemove, alive := False\<rparr>)"
| throws: "main_at c = Looping \<Longrightarrow> cstep c (c\<lparr>main_at := Unwinding, stop_requested := True\<rparr>)"
| scope_end: "main_at c = AfterRemove \<Longrightarrow> cstep c (c\<lparr>main_at := Unwinding, stop_requested := True\<rparr>)"
| join: "main_at c = Unwinding \<Longrightarrow> sync_at c = Stopped \<Longrightarrow> cstep c (c\<lparr>main_at := Joined\<rparr>)"
| check: "sync_at c = Checking \<Longrightarrow> cstep c (c\<lparr>sync_at := (if stop_requested c then Stopped else InTurn)\<rparr>)"
| turn: "sync_at c = InTurn
    \<Longrightarrow> cstep c (c\<lparr>sync_at := Checking, used_after_free := (used_after_free c \<or> \<not> alive c)\<rparr>)"

inductive creach :: "connection \<Rightarrow> bool" where
  start: "creach start_connection"
| step: "creach c \<Longrightarrow> cstep c c' \<Longrightarrow> creach c'"

inductive_cases cstepE: "cstep c c'"

lemma creach_inv:
  "creach c \<Longrightarrow> (used_after_free c \<longrightarrow> \<not> alive c) \<and> (main_at c = Looping \<longrightarrow> alive c \<and> \<not> stop_requested c)"
proof (induction rule: creach.induct)
  case (step c c')
  from step.hyps(2) show ?case
    by (rule cstepE) (use step.IH in auto)
qed (simp add: start_connection_def)

section \<open>Threads\<close>

lemma place_thread_all: "list_all (\<lambda>j. j) ts \<Longrightarrow> place_thread ts = ts @ [True]"
  by (induction ts) auto

text \<open>The branch that would reuse a thread is never taken: one thread per client is kept.\<close>

lemma threads_accumulate: "(place_thread ^^ n) [] = replicate n True"
proof (induction n)
  case (Suc n)
  have "list_all (\<lambda>j. j) (replicate n True)"
    by (simp add: list_all_iff)
  then show ?case
    using Suc place_thread_all by (simp flip: replicate_append_same)
qed simp

section \<open>Properties\<close>

text \<open>
  C20. The whole life of a connection: a client that sends its name, then uploads and
  deletions, then \<^verbatim>\<open>kExit\<close> is admitted, leaves the server with the files that performing
  the operations in order gives, has every backup told of those that changed something, and
  leaves the list of the user's devices as it found it.
\<close>

theorem client_session:
  assumes "codec_ok C" and "greets C u evs payload" and "admitting u s" and "answers server_sync"
    and "length (sync_dir_msg C (sfs s) u) \<le> kBufferSize" and "i \<notin> set (known s u)"
    and "list_all (session_op C u) ops" and "rx_bytes evs = op_msgs C ops @ enc_cmd C (cmd_code kExit) @ rest"
  shows "\<exists>s'. NewClient C T i payload client_sync server_sync s = Some (Ended, s')
    \<and> contents (sfs s') = fold apply_op ops (contents (sfs s)) \<and> known s' u = known s u
    \<and> list_all2 (bak_sent (op_msgs C (effective ops (contents (sfs s))))) (backups s) (backups s')"
proof -
  obtain h s1 where adm: "NewClient C T i payload client_sync server_sync s =
      (case Handler_MainLoop C T h s1 of
         None \<Rightarrow> None
       | Some (Inl _, _, s2) \<Rightarrow> Some (Threw, s2)
       | Some (Inr _, h', s2) \<Rightarrow>
           (case Composite_Remove (h_user h') (h_id h') s2 of None \<Rightarrow> None | Some s3 \<Rightarrow> Some (Ended, s3)))"
    and h: "h_user h = u" "h_id h = i" "sound (strm (fe h))" "incoming (strm (fe h)) = rx_bytes evs"
    and s1: "srv_ready u s1" "has_dir (sfs s1) u" "contents (sfs s1) = contents (sfs s)"
      "known s1 u = known s u @ [i]" "backups s1 = backups s"
    by (rule NewClient_admits [OF assms(1-5), of T i client_sync]) (rule that; assumption)
  have pre: "srv_ready (h_user h) s1" "has_dir (sfs s1) (h_user h)" "list_all (session_op C (h_user h)) ops"
    "incoming (strm (fe h)) = op_msgs C ops @ enc_cmd C (cmd_code kExit) @ rest"
    using h s1 assms(7,8) by simp_all
  obtain h' s2 where run: "Handler_loop C T kAttemptAmount h s1 = Some (Inr (), h', s2)"
    "follows (sfs s1) (sfs s2) ops" "delivered C u i (effective ops (contents (sfs s))) s1 s2"
    using Handler_loop_session [OF assms(1) pre(1-3) h(3) pre(4), of T kAttemptAmount] h(1,2) s1(3) by auto
  have same: "h_user h' = u" "h_id h' = i" "known s2 u = known s u @ [i]"
    using ids.stays_loop [OF run(1)] h(1,2) s1(4) by (simp_all add: ids.stays_def known_def)
  have "unlocked u s2"
    using delivered_ready [OF run(3)] by (simp add: srv_ready_def)
  then obtain s3 where "Composite_Remove u i s2 = Some s3" "known s3 u = filter (\<lambda>j. j \<noteq> i) (known s2 u)"
    "sfs s3 = sfs s2" "backups s3 = backups s2"
    by (rule remove_known [of u s2 i]) (rule that; assumption)
  moreover have "filter (\<lambda>j. j \<noteq> i) (known s2 u) = known s u"
    using assms(6) same(3) by (auto simp: filter_id_conv)
  ultimately show ?thesis
    using adm run same s1(3,5) by (simp add: Handler_MainLoop_def follows_def delivered_def)
qed

definition sample_payload :: "byte list \<Rightarrow> endpoint" where
  "sample_payload bs = \<lparr>rx = [RdData (enc_str pb_codec ''u''), RdData bs], wr = [], tx = []\<rparr>"

definition silent :: endpoint where
  "silent = \<lparr>rx = [], wr = [], tx = []\<rparr>"

definition empty_srv :: srv where
  "empty_srv = \<lparr>sfs = sample_fs, users = 0, backups = [], clients = Map.empty, pool_locked = False,
     server_list = []\<rparr>"

lemma sample_admitting: "admitting ''u'' empty_srv" "answers silent" "known empty_srv ''u'' = []"
  "length (sync_dir_msg pb_codec (sfs empty_srv) ''u'') \<le> kBufferSize"
  using sample_layout sample_names
  by (simp_all add: admitting_def empty_srv_def user_name_def answers_def silent_def known_def ids_of_def
      sync_dir_msg_def entries_msg_def entry_msg_def file_msg_def sample_contents pb_codec_def kBufferSize_val)

lemma sample_greets: "bs \<noteq> [] \<Longrightarrow> greets pb_codec ''u'' [RdData bs] (sample_payload bs)"
  by (simp add: greets_def sample_payload_def str_ok_def pb_codec_def kBufferSize_val)

lemma rx_bytes_one: "bs \<noteq> [] \<Longrightarrow> rx_bytes [RdData bs] = bs"
  by (cases bs) simp_all

lemma session_msg_nonempty: "session_msg sample_ops \<noteq> []" "path_msg pb_codec kDelete p \<noteq> []"
  by (simp_all add: session_msg_def sample_ops_def path_msg_def upload_msg_def pb_codec_def)

theorem client_session_witness:
  "\<exists>s'. NewClient pb_codec sample_tables 4 (sample_payload (session_msg sample_ops)) silent silent empty_srv
      = Some (Ended, s')
    \<and> contents (sfs s') ''u'' ''g'' = Some [7] \<and> contents (sfs s') ''u'' ''f'' = None \<and> known s' ''u'' = []"
  using client_session [OF pb_codec_ok sample_greets [OF session_msg_nonempty(1)] sample_admitting(1,2,4),
      of 4 sample_ops "[]" sample_tables silent] sample_session_ops rx_bytes_one [OF session_msg_nonempty(1)]
    sample_admitting(3)
  by (auto simp: session_msg_def sample_ops_def empty_srv_def)

text \<open>
  An exception of the main loop leaks the device: the session of a client that asks for
  the deletion of a directory ends without the removal, so the user's list keeps the id of a
  connection that is gone, and once the list is full nobody can connect as that user.
\<close>

theorem session_exception_leaks_slot:
  assumes "codec_ok C" and "greets C u evs payload" and "admitting u s" and "answers server_sync"
    and "length (sync_dir_msg C (sfs s) u) \<le> kBufferSize"
    and "contents (sfs s) u f \<noteq> None" and "str_ok (SyncDirWithPrefix u)"
    and "rx_bytes evs = path_msg C kDelete (SyncDirWithPrefix u) @ rest"
  shows "\<exists>s'. NewClient C T i payload client_sync server_sync s = Some (Threw, s')
    \<and> known s' u = known s u @ [i]
    \<and> (length (known s u) + 1 = kDeviceLimit \<longrightarrow> Composite_Emplace ctor u s' = Some (Inl FullList, s'))"
proof -
  obtain h s1 where adm: "NewClient C T i payload client_sync server_sync s =
      (case Handler_MainLoop C T h s1 of
         None \<Rightarrow> None
       | Some (Inl _, _, s2) \<Rightarrow> Some (Threw, s2)
       | Some (Inr _, h', s2) \<Rightarrow>
           (case Composite_Remove (h_user h') (h_id h') s2 of None \<Rightarrow> None | Some s3 \<Rightarrow> Some (Ended, s3)))"
    and h: "sound (strm (fe h))" "incoming (strm (fe h)) = rx_bytes evs"
    and s1: "srv_ready u s1" "contents (sfs s1) = contents (sfs s)" "known s1 u = known s u @ [i]"
    by (rule NewClient_admits [OF assms(1-5), of T i client_sync]) (rule that; assumption)
  have un: "user_name u" "layout (sfs s1)" "unlocked u s1"
    using assms(3) s1(1) by (simp_all add: admitting_def srv_ready_def)
  obtain h' where "Handler_MainLoop C T h s1 = Some (Inl ENOTEMPTY, h', s1)"
    using delete_directory_throws [OF assms(1) un(2,1) _ assms(7) h(1), of f rest T] assms(6,8) h(2) s1(2) by auto
  moreover have "Composite_Emplace ctor u s1 = Some (Inl FullList, s1)" if "length (known s u) + 1 = kDeviceLimit"
  proof -
    obtain c where c: "clients s1 u = Some c" "\<not> locked c"
      using un(3) by (auto simp: unlocked_def)
    then have "length (known s1 u) = length (devices c)"
      by (simp add: known_def ids_of_def)
    then have "length (devices c) = kDeviceLimit"
      using s1(3) that by simp
    then show ?thesis
      using c by (simp add: Composite_Emplace_def)
  qed
  ultimately show ?thesis
    using adm s1(3) by simp
qed

theorem session_exception_leaks_slot_witness:
  "\<exists>s'. NewClient pb_codec sample_tables 4 (sample_payload (path_msg pb_codec kDelete ''sync_dir_u'')) silent silent
      empty_srv = Some (Threw, s') \<and> known s' ''u'' = [4]"
proof -
  have "SyncDirWithPrefix ''u'' = ''sync_dir_u''"
    by (simp add: SyncDirWithPrefix_def kSyncDirPrefix_def)
  then show ?thesis
    using session_exception_leaks_slot [OF pb_codec_ok sample_greets [OF session_msg_nonempty(2)]
        sample_admitting(1,2,4), of "''f''" "''sync_dir_u''" "[]" sample_tables 4 silent "\<lambda>_. None"]
      rx_bytes_one [OF session_msg_nonempty(2)] sample_admitting(3)
    by (auto simp: empty_srv_def sample_contents str_ok_def)
qed

text \<open>
  C38. The handler is destroyed while it is in use: the removal precedes the request to stop,
  and there is a run in which the synchronisation thread takes a turn on the handler that the
  client's thread has removed.
\<close>

theorem handler_used_after_removal:
  "\<exists>c. creach c \<and> main_at c = AfterRemove \<and> \<not> alive c \<and> used_after_free c"
proof -
  let ?c0 = start_connection and ?c1 = "start_connection\<lparr>sync_at := InTurn\<rparr>"
  let ?c2 = "start_connection\<lparr>sync_at := InTurn, main_at := AfterRemove, alive := False\<rparr>"
  let ?c3 = "?c2\<lparr>sync_at := Checking, used_after_free := True\<rparr>"
  have "cstep ?c0 ?c1"
    using check [of ?c0] by (simp add: start_connection_def)
  moreover have "cstep ?c1 ?c2"
    using returns [of ?c1] by (simp add: start_connection_def)
  moreover have "cstep ?c2 ?c3"
    using turn [of ?c2] by (simp add: start_connection_def)
  ultimately have "creach ?c3"
    using creach.start creach.step by blast
  then show ?thesis
    by (intro exI [of _ ?c3]) (simp add: start_connection_def)
qed

definition serial :: "('e \<times> 'e \<times> 'e) list \<Rightarrow> (int + 'e) list" where
  "serial cs = concat (map (\<lambda>(p, q, r). [Inr p, Inr q, Inr r]) cs)"

fun shifted :: "'e \<Rightarrow> ('e \<times> 'e \<times> 'e) list \<Rightarrow> ('e \<times> 'e \<times> 'e) list" where
  "shifted x [] = []"
| "shifted x ((p, q, r) # cs) = (x, p, q) # shifted r cs"

lemma Primary_MainLoop_triple:
  "Primary_MainLoop (Inr p # Inr q # Inr r # as) = (p, q, r) # Primary_MainLoop as"
  by simp

lemma Primary_MainLoop_shifted: "Primary_MainLoop (Inr x # serial cs) = shifted x cs"
proof (induction cs arbitrary: x)
  case Nil
  then show ?case
    by (simp add: serial_def)
next
  case (Cons t cs)
  obtain p q r where t: "t = (p, q, r)"
    by (cases t)
  then have "Inr x # serial (t # cs) = Inr x # Inr p # Inr q # (Inr r # serial cs)"
    by (simp add: serial_def)
  then show ?case
    using Cons.IH [of r] t by (simp only: Primary_MainLoop_triple shifted.simps)
qed

text \<open>
  The main loop groups connections by their order alone: clients that connect one after
  the other get their own three sockets, but after one connection too many every client's
  payload socket is the last socket of the client before it.
\<close>

theorem Primary_MainLoop_groups:
  "Primary_MainLoop (serial cs) = cs \<and> Primary_MainLoop (Inr x # serial cs) = shifted x cs"
proof
  show "Primary_MainLoop (serial cs) = cs"
  proof (induction cs)
    case (Cons t cs)
    obtain p q r where t: "t = (p, q, r)"
      by (cases t)
    then have "serial (t # cs) = Inr p # Inr q # Inr r # serial cs"
      by (simp add: serial_def)
    then show ?case
      using Cons.IH t by (simp only: Primary_MainLoop_triple)
  qed (simp add: serial_def)
  show "Primary_MainLoop (Inr x # serial cs) = shifted x cs"
    by (rule Primary_MainLoop_shifted)
qed

lemma AcceptBackup_ready:
  assumes "srv_ready u s" and "answers e"
  shows "srv_ready u (AcceptBackupLoop [Some e] s)"
  using assms Base_ready [OF assms(2)]
  by (simp add: srv_ready_def unlocked_def handler_ready_def BackupHandler_def)

text \<open>
  A backup that joins late stays behind: it is sent what changes from then on and nothing
  of what the primary has, so a file that was there before and is not changed again is never
  on that backup.
\<close>

theorem late_backup_misses_files:
  assumes "codec_ok C" and "srv_ready (h_user h) s" and "has_dir (sfs s) (h_user h)"
    and "list_all (session_op C (h_user h)) ops" and "sound (strm (fe h))"
    and "incoming (strm (fe h)) = op_msgs C ops @ enc_cmd C (cmd_code kExit) @ rest"
    and "answers e" and "contents (sfs s) v f = Some bs" and "list_all (\<lambda>a. op_file a \<noteq> (v, f)) ops"
    and "layout bfs" and "contents bfs v f = None" and "\<And>j. \<not> sd j" and "sound (strm (exchange_s b))"
    and "incoming (strm (exchange_s b)) = op_msgs C (effective ops (contents (sfs s)))"
  shows "\<exists>h' s' b' bfs'. Handler_MainLoop C T h (AcceptBackupLoop [Some e] s) = Some (Inr (), h', s')
    \<and> tx (ep (strm (sender (last (backups s'))))) = tx e @ incoming (strm (exchange_s b))
    \<and> Backup_MainLoop C sd b bfs = Some (Inr kLostConnectionToPrimary, b', bfs')
    \<and> contents (sfs s') v f = Some bs \<and> contents bfs' v f = None"
proof -
  let ?s = "AcceptBackupLoop [Some e] s" and ?sent = "effective ops (contents (sfs s))"
  have s: "srv_ready (h_user h) ?s" "has_dir (sfs ?s) (h_user h)" "contents (sfs ?s) = contents (sfs s)"
    "backups ?s = backups s @ [BackupHandler e]"
    using AcceptBackup_ready [OF assms(2,7)] assms(3) by simp_all
  obtain h' s' where run: "Handler_loop C T kAttemptAmount h ?s = Some (Inr (), h', s')"
    "follows (sfs ?s) (sfs s') ops" "delivered C (h_user h) (h_id h) ?sent ?s s'"
    using Handler_loop_session [OF assms(1) s(1,2) assms(4-6), of T kAttemptAmount] s(3) by auto
  then obtain bks k where k: "backups s' = bks @ [k]" "bak_sent (op_msgs C ?sent) (BackupHandler e) k"
    using s(4) by (auto simp: delivered_def list_all2_append1 list_all2_Cons1)
  have keep: "list_all (\<lambda>a. op_file a \<noteq> (v, f)) ?sent"
    using assms(9) by (rule effective_ok)
  have "list_all op_ok ops"
    using assms(4) by (auto simp: list_all_iff session_op_def)
  then have ok: "list_all op_ok ?sent"
    by (rule effective_ok)
  obtain x' bfs' where b: "Backup_loop C sd 0 (exchange_s b) bfs = Some (Inr kLostConnectionToPrimary, x', bfs')"
    "follows bfs bfs' ?sent"
    using Backup_loop_ops [where sd = sd and i = 0, OF assms(1,10) ok assms(13,12,14)] by blast
  have "contents (sfs s') v f = Some bs" "contents bfs' v f = None"
    using run(2) b(2) fold_untouched [OF assms(9)] fold_untouched [OF keep] assms(8,11) s(3)
    by (simp_all add: follows_def)
  moreover have "tx (ep (strm (sender (BackupHandler e)))) = tx e"
    by (simp add: BackupHandler_def Base_def FileExchange_def SocketStream_def InitializePointers_def)
  ultimately show ?thesis
    using run(1) b(1) k assms(14) by (auto simp: Handler_MainLoop_def Backup_MainLoop_def bak_sent_def)
qed

definition sample_put :: "op list" where
  "sample_put = [Put ''u'' ''g'' [7]]"

definition bare_fs :: fsys where
  "bare_fs = \<lparr>cwd = [''srv''], ents = [([], Directory), ([''srv''], Directory)]\<rparr>"

lemma bare_layout: "layout bare_fs" "contents bare_fs v f = None"
proof -
  have at: "node_at bare_fs q = (if q = [] \<or> q = [''srv''] then Some Directory else None)" for q
    by (simp add: bare_fs_def node_at_def)
  have cwd: "cwd bare_fs = [''srv'']"
    by (simp add: bare_fs_def)
  have "fs_tree bare_fs"
    unfolding fs_tree_def by (auto simp: at split: if_splits)
  then show "layout bare_fs"
    by (rule layoutI) (simp_all add: at cwd dir_of_def)
  show "contents bare_fs v f = None"
    by (simp add: contents_def at cwd dir_of_def)
qed

theorem late_backup_misses_files_witness:
  "\<exists>h' s' b' bfs'. Handler_MainLoop pb_codec sample_tables (sample_handler (session_msg sample_put))
        (AcceptBackupLoop [Some silent] sample_srv) = Some (Inr (), h', s')
    \<and> Backup_MainLoop pb_codec (\<lambda>_. False) (sample_backup (op_msgs pb_codec sample_put)) bare_fs
        = Some (Inr kLostConnectionToPrimary, b', bfs')
    \<and> contents (sfs s') ''u'' ''f'' = Some [1, 2, 3] \<and> contents bfs' ''u'' ''f'' = None"
proof -
  let ?h = "sample_handler (session_msg sample_put)"
  have h: "srv_ready (h_user ?h) sample_srv" "has_dir (sfs sample_srv) (h_user ?h)"
    "list_all (session_op pb_codec (h_user ?h)) sample_put" "sound (strm (fe ?h))"
    "incoming (strm (fe ?h)) = op_msgs pb_codec sample_put @ enc_cmd pb_codec (cmd_code kExit) @ []"
    using sample_srv_ready sample_has_dir
    by (simp_all add: sample_handler_def sample_srv_def session_msg_def sample_put_def session_op_def user_name_def
        simple_name_def str_ok_def size_ok_def upload_msg_def path_msg_def file_msg_def pb_codec_def kBufferSize_val)
  have f: "contents (sfs sample_srv) ''u'' ''f'' = Some [1, 2, 3]"
    "list_all (\<lambda>a. op_file a \<noteq> (''u'', ''f'')) sample_put"
    by (simp_all add: sample_srv_def sample_contents sample_put_def)
  have b: "sound (strm (exchange_s (sample_backup (op_msgs pb_codec sample_put))))"
    "incoming (strm (exchange_s (sample_backup (op_msgs pb_codec sample_put))))
      = op_msgs pb_codec (effective sample_put (contents (sfs sample_srv)))"
    by (simp_all add: sample_backup_def sample_put_def)
  show ?thesis
    using late_backup_misses_files [where T = sample_tables, OF pb_codec_ok h sample_admitting(2) f bare_layout, of "\<lambda>_. False", OF _ b] by auto
qed

end
