(* ===== verification/Failover.thy ===== *)
theory Failover
  imports Prelude Commands SocketStream FileSystem Exchange Layout Sockets Composite ClientHandler Client Transfers Primary
begin

text \<open>
  What happens to a client when its primary is lost: the list of servers that the primary
  composes in \<^verbatim>\<open>Primary::SetServers\<close>, the way \<^verbatim>\<open>SyncFromServer\<close> walks through it, and
  \<^verbatim>\<open>ReconnectToServer\<close>, which exchanges the sockets of streams that keep their buffers.
\<close>

section \<open>The list of servers\<close>

definition servers_text :: "addr list \<Rightarrow> string" where
  "servers_text as = concat (map (\<lambda>a. ip a @ '' '') as)"

lemma servers_text_simps [simp]:
  "servers_text [] = []" "servers_text (a # as) = ip a @ CHR '' '' # servers_text as"
  by (simp_all add: servers_text_def)

lemma servers_of_primary: "server_list (Primary_SetServers as s) = server_list s @ servers_text as"
  by (simp add: Primary_SetServers_def servers_text_def)

definition plain_ips :: "addr list \<Rightarrow> bool" where
  "plain_ips as = list_all (\<lambda>a. CHR '' '' \<notin> set (ip a)) as"

section \<open>Sockets\<close>

lemma SetSockets_twice [simp]: "SetSockets es (SetSockets es' c) = SetSockets es c"
  by (cases es; cases es') (simp add: SetSockets_def SetStream_def SetSocket_def)

lemma SetSockets_user [simp]:
  "c_user (SetSockets es c) = c_user c" "c_servers (SetSockets es c) = c_servers c" "watch (SetSockets es c) = watch c"
  by (cases es, simp add: SetSockets_def)+

text \<open>A server that refuses the first connection, and one that takes all three.\<close>

lemma refused:
  assumes "net 0 = None"
  shows "connect_all net = (False, unconnected, unconnected, unconnected)"
  using assms by (simp add: connect_all_def)

lemma ReconnectToServer_refused:
  "net a 0 = None \<Longrightarrow> ReconnectToServer C net a c fs
    = Some (False, SetSockets (unconnected, unconnected, unconnected) c, fs)"
  by (simp add: ReconnectToServer_def refused)

lemma ReconnectToServer_sockets:
  "ReconnectToServer C net a (SetSockets es c) fs = ReconnectToServer C net a c fs"
  by (simp add: ReconnectToServer_def split_beta Let_def)

lemma ReconnectToServer_taken:
  assumes "net a 0 = Some p" and "net a 1 = Some q" and "net a 2 = Some r"
    and "ReconnectToServer C net a c fs = Some (ok, y)"
  shows "ok"
  using assms by (auto simp: ReconnectToServer_def connect_all_def Let_def split: prod.splits bool.splits option.splits sum.splits)

section \<open>The loop\<close>

text \<open>The loop with \<open>as\<close> still unread, at attempt \<open>i\<close> on the address \<open>a\<close>.\<close>

lemma reconnect_step:
  assumes "net i a 0 = None"
  shows "reconnect_loop C net i a is c fs
    = reconnect_loop C net (i + 1) (fst (getline is a (CHR '' ''))) (snd (getline is a (CHR '' '')))
        (SetSockets (unconnected, unconnected, unconnected) c) fs"
  using assms by (simp add: reconnect_loop.simps [of C net i a] ReconnectToServer_refused Let_def)

lemma reconnect_taken:
  assumes "net i a 0 = Some p" and "net i a 1 = Some q" and "net i a 2 = Some r"
  shows "reconnect_loop C net i a is c fs = map_option snd (ReconnectToServer C (net i) a c fs)"
  using assms ReconnectToServer_taken [of "net i" a p q r C c fs]
  by (auto simp: reconnect_loop.simps [of C net i a] split: option.splits)

lemma getline_server:
  "CHR '' '' \<notin> set (ip a) \<Longrightarrow> getline (servers_text (a # as), True) old (CHR '' '') = (ip a, (servers_text as, True))"
  by (simp add: getline_found)

lemma reconnect_walk:
  assumes "plain_ips (a # as)" and "k \<le> length as"
    and "\<forall>j<k. net (i + j) (ip ((a # as) ! j)) 0 = None"
    and "net (i + k) (ip ((a # as) ! k)) 0 = Some p" and "net (i + k) (ip ((a # as) ! k)) 1 = Some q"
    and "net (i + k) (ip ((a # as) ! k)) 2 = Some r"
  shows "reconnect_loop C net i (ip a) (servers_text as, True) c fs
    = map_option snd (ReconnectToServer C (net (i + k)) (ip ((a # as) ! k)) c fs)"
  using assms
proof (induction as arbitrary: a i k c)
  case Nil
  then show ?case
    by (simp add: reconnect_taken)
next
  case (Cons b as)
  show ?case
  proof (cases k)
    case 0
    then show ?thesis
      using Cons.prems by (simp add: reconnect_taken)
  next
    case (Suc m)
    have first: "net i (ip a) 0 = None"
      using Cons.prems(3) Suc by auto
    have "\<forall>j<m. net (i + 1 + j) (ip ((b # as) ! j)) 0 = None"
    proof (intro allI impI)
      fix j
      assume "j < m"
      then show "net (i + 1 + j) (ip ((b # as) ! j)) 0 = None"
        using Cons.prems(3) Suc by (auto dest: spec [of _ "Suc j"])
    qed
    then have "reconnect_loop C net (i + 1) (ip b) (servers_text as, True) (SetSockets es c) fs
        = map_option snd (ReconnectToServer C (net (i + k)) (ip ((a # b # as) ! k)) c fs)" for es
      using Cons.IH [of b m "i + 1" "SetSockets es c"] Cons.prems(1,2,4-) Suc
      by (simp add: plain_ips_def ReconnectToServer_sockets)
    then show ?thesis
      using Cons.prems(1) reconnect_step [where net = net, OF first] getline_server [of b as]
      by (simp add: plain_ips_def)
  qed
qed

text \<open>Once the list is used up the address is empty for good.\<close>

lemma reconnect_exhausted:
  assumes "reconnect_loop C net i [] (tl0, False) c fs = Some y"
  shows "\<exists>j\<ge>i. net j [] 0 \<noteq> None"
proof -
  have "reconnect_loop C net i a is c fs = Some y \<Longrightarrow> a = [] \<longrightarrow> \<not> snd is \<longrightarrow> (\<exists>j\<ge>i. net j [] 0 \<noteq> None)" for i a "is" c
  proof (erule reconnect_loop.raw_induct [where P = "\<lambda>C net i a is c fs y. a = [] \<longrightarrow> \<not> snd is
      \<longrightarrow> (\<exists>j\<ge>i. net j [] 0 \<noteq> None)", rotated], intro impI, goal_cases)
    case (1 loop C net i a ist c fs y)
    have "\<exists>j\<ge>i + 1. net j [] 0 \<noteq> None" if none: "net i [] 0 = None"
    proof -
      have "loop C net (i + 1) [] ist (SetSockets (unconnected, unconnected, unconnected) c) fs = Some y"
        using 1(2-4) ReconnectToServer_refused [of "net i" "[]" C c fs, OF none]
        by (cases ist) (simp add: getline_not_good Let_def)
      then show ?thesis
        using 1(1) 1(4) by blast
    qed
    then show ?case
      by (cases "net i [] 0") (auto intro: exI [of _ i] dest: Suc_leD)
  qed
  then show ?thesis
    using assms by auto
qed

lemma exhausted_none: "\<forall>j\<ge>i. net j [] 0 = None \<Longrightarrow> reconnect_loop C net i [] (tl0, False) c fs = None"
  using reconnect_exhausted [of C net i tl0 c fs] by (cases "reconnect_loop C net i [] (tl0, False) c fs") auto

lemma reconnect_none:
  assumes "plain_ips (a # as)" and "\<forall>j\<le>length as. net (i + j) (ip ((a # as) ! j)) 0 = None"
    and "\<forall>j\<ge>i + length as + 1. net j [] 0 = None"
  shows "reconnect_loop C net i (ip a) (servers_text as, True) c fs = None"
  using assms
proof (induction as arbitrary: a i c)
  case Nil
  have "net i (ip a) 0 = None"
    using Nil(2) by simp
  then show ?case
    using reconnect_step [of net i "ip a"] getline_last [of "CHR '' ''" "[]"] exhausted_none [of "i + 1" net] Nil(3)
    by simp
next
  case (Cons b as)
  have first: "net i (ip a) 0 = None"
    using Cons.prems(2) by (auto dest: spec [of _ 0])
  have "net (i + 1 + j) (ip ((b # as) ! j)) 0 = None" if "j \<le> length as" for j
    using Cons.prems(2) that by (auto dest: spec [of _ "Suc j"])
  then have "reconnect_loop C net (i + 1) (ip b) (servers_text as, True) d fs = None" for d
    using Cons.IH [of b "i + 1" d] Cons.prems(1,3) by (simp add: plain_ips_def)
  then show ?case
    using reconnect_step [where net = net, OF first] getline_server [of b as] Cons.prems(1)
    by (simp add: plain_ips_def)
qed

section \<open>Streams on a new connection\<close>

text \<open>A stream whose flags are clear and whose get area is used up, on whatever connection.\<close>

definition reusable :: "sstream \<Rightarrow> bool" where
  "reusable s = (good s \<and> \<not> oob s \<and> idle s)"

lemma SetSocket_ready:
  assumes "reusable s" and "answers e"
  shows "ready \<lparr>xpath = p, strm = SetSocket e s\<rparr>" and "incoming (SetSocket e s) = rx_bytes (rx e)"
    and "outgoing (SetSocket e s) = tx e @ pending s" and "room (SetSocket e s) = room s"
  using assms
  by (auto simp: reusable_def answers_def ready_def sound_def reliable_def good_def idle_def SetSocket_def incoming_def
      unread_def outgoing_def pending_def room_def)

lemma SendUsername_sends:
  assumes "ready (payload_fe c)" and "length (enc_str C (c_user c)) \<le> room (strm (payload_fe c))"
  obtains s where "SendUsername C c = (True, c\<lparr>payload_fe := (payload_fe c)\<lparr>strm := s\<rparr>\<rparr>)" and "sound s" and "idle s"
    and "incoming s = incoming (strm (payload_fe c))" and "tx (ep s) = outgoing (strm (payload_fe c)) @ enc_str C (c_user c)"
    and "outgoing s = tx (ep s)"
proof -
  have rd: "sound (strm (payload_fe c))" "idle (strm (payload_fe c))"
    using assms(1) by (simp_all add: ready_def)
  obtain s1 where s1: "save (enc_str C (c_user c)) (strm (payload_fe c)) = (True, s1)"
    "wrote (enc_str C (c_user c)) (strm (payload_fe c)) s1"
    by (rule save_sound [OF rd assms(2)]) (rule that; assumption)
  have "sound s1"
    using s1(2) by (simp add: wrote_def)
  then obtain s2 where "stream_flush s1 = s2" "incoming s2 = incoming s1" "outgoing s2 = outgoing s1"
    "tx (ep s2) = outgoing s1" "sound s2" "idle s2 \<longleftrightarrow> idle s1"
    by (rule stream_flush_sound) (rule that; assumption)
  then show thesis
    using that [of s2] s1 by (simp add: SendUsername_def wrote_def)
qed

section \<open>Properties\<close>

text \<open>
  Failover: from the list that the lost primary composed, the client tries the servers in
  their order, once each, connects to the first that accepts, sends it the user's name, and
  ends up with exactly that server's files of the user in its directory.
\<close>

theorem failover_resyncs:
  assumes "codec_ok C" and "c_servers c = server_list (Primary_SetServers (a # as) s0)" and "server_list s0 = []"
    and "plain_ips (a # as)" and "k \<le> length as" and "\<forall>j<k. net j (ip ((a # as) ! j)) 0 = None"
    and "net k (ip ((a # as) ! k)) 0 = Some p" and "net k (ip ((a # as) ! k)) 1 = Some q"
    and "net k (ip ((a # as) ! k)) 2 = Some r"
    and "reusable (strm (payload_fe c))" and "pending (strm (payload_fe c)) = []" and "answers p"
    and "rx_bytes (rx p) = sync_dir_msg C sv u @ rest" and "length (enc_str C u) \<le> kBufferSize"
    and "c_user c = u" and "user_name u" and "layout sv" and "has_dir sv u" and "names_ok sv" and "files_ok sv u"
    and "layout cl" and "names_ok cl"
  shows "\<exists>c' cl'. find_primary C net c cl = Some (c', cl')
    \<and> outgoing (strm (payload_fe c')) = tx p @ enc_str C u \<and> incoming (strm (payload_fe c')) = rest
    \<and> contents cl' = (contents cl)(u := contents sv u)"
proof -
  let ?c = "SetSockets (p, q, r) c" and ?b = "(a # as) ! k"
  have pl: "payload_fe ?c = \<lparr>xpath = xpath (payload_fe c), strm = SetSocket p (strm (payload_fe c))\<rparr>"
    by (simp add: SetSockets_def SetStream_def)
  have x: "ready (payload_fe ?c)" "incoming (strm (payload_fe ?c)) = sync_dir_msg C sv u @ rest"
    "outgoing (strm (payload_fe ?c)) = tx p" "length (enc_str C (c_user ?c)) \<le> room (strm (payload_fe ?c))"
    using SetSocket_ready [OF assms(10,12)] assms(11,13,14,15) unfolding pl by (auto simp: room_def pending_def)
  obtain s where s: "SendUsername C ?c = (True, ?c\<lparr>payload_fe := (payload_fe ?c)\<lparr>strm := s\<rparr>\<rparr>)" "sound s"
    "incoming s = sync_dir_msg C sv u @ rest" "outgoing s = tx p @ enc_str C u"
    by (rule SendUsername_sends [OF x(1,4)]) (use that x(2,3) assms(15) in simp)
  let ?d = "?c\<lparr>payload_fe := (payload_fe ?c)\<lparr>strm := s\<rparr>\<rparr>"
  note names = names_of_user [OF assms(17,18,16,19)]
  obtain y cl' where y: "Client_GetSyncDir C ?d cl = Some (Inr True, ?d\<lparr>payload_fe := y\<rparr>, cl')"
    "took rest (strm (payload_fe ?d)) (strm y)" "contents cl' = (contents cl)(u := contents sv u)"
    by (rule GetSyncDir_receives [OF assms(1,16,20) names(3,2) assms(21,22), of ?d rest])
      (use that s(2,3) assms(15) in simp_all)
  have "ReconnectToServer C (net k) (ip ?b) c cl = Some (True, ?d\<lparr>payload_fe := y\<rparr>, cl')"
    using assms(7-9) s(1) y(1) by (simp add: ReconnectToServer_def connect_all_def)
  moreover have "find_primary C net c cl = map_option snd (ReconnectToServer C (net k) (ip ?b) c cl)"
    using reconnect_walk [where i = 0 and net = net, OF assms(4,5)] assms(2-9) getline_server [of a as "[]"]
    by (simp add: find_primary_def servers_of_primary istringstream_def plain_ips_def)
  ultimately show ?thesis
    using y(2,3) s(4) by (simp add: took_def)
qed

definition sample_addrs :: "addr list" where
  "sample_addrs = [Addr 0 ''10.0.0.1'' 9, Addr 1 ''10.0.0.2'' 9]"

definition sample_net :: "nat \<Rightarrow> string \<Rightarrow> nat \<Rightarrow> endpoint option" where
  "sample_net i a j = (if a \<noteq> ''10.0.0.2'' then None
     else if j = 0 then Some \<lparr>rx = [RdData (sync_dir_msg pb_codec sample_fs ''u'')], wr = [], tx = []\<rparr>
     else Some silent)"

theorem failover_resyncs_witness:
  "\<exists>c' cl'. find_primary pb_codec sample_net
      ((sample_client [] [])\<lparr>c_servers := server_list (Primary_SetServers sample_addrs empty_srv)\<rparr>) sample_client_fs
      = Some (c', cl') \<and> contents cl' ''u'' ''f'' = Some [1, 2, 3] \<and> contents cl' ''u'' ''g'' = None"
proof -
  let ?c = "(sample_client [] [])\<lparr>c_servers := server_list (Primary_SetServers sample_addrs empty_srv)\<rparr>"
  let ?as = "[Addr 1 ''10.0.0.2'' 9]" and ?m = "sync_dir_msg pb_codec sample_fs ''u''"
  have ne: "?m \<noteq> []"
    by (simp add: sync_dir_msg_def entries_msg_def pb_codec_def)
  have net: "plain_ips (Addr 0 ''10.0.0.1'' 9 # ?as)" "1 \<le> length ?as"
    "\<forall>j<1. sample_net j (ip ((Addr 0 ''10.0.0.1'' 9 # ?as) ! j)) 0 = None"
    "sample_net 1 (ip ((Addr 0 ''10.0.0.1'' 9 # ?as) ! 1)) 0 = Some \<lparr>rx = [RdData ?m], wr = [], tx = []\<rparr>"
    "sample_net 1 (ip ((Addr 0 ''10.0.0.1'' 9 # ?as) ! 1)) 1 = Some silent"
    "sample_net 1 (ip ((Addr 0 ''10.0.0.1'' 9 # ?as) ! 1)) 2 = Some silent"
    by (simp_all add: plain_ips_def Addr_def sample_net_def)
  have c: "reusable (strm (payload_fe ?c))" "pending (strm (payload_fe ?c)) = []"
    by (simp_all add: sample_client_def reusable_def)
  have p: "answers \<lparr>rx = [RdData ?m], wr = [], tx = []\<rparr>"
    "rx_bytes (rx \<lparr>rx = [RdData ?m], wr = [], tx = []\<rparr>) = ?m @ []" "length (enc_str pb_codec ''u'') \<le> kBufferSize"
    using ne rx_bytes_one [OF ne] by (simp_all add: answers_def pb_codec_def kBufferSize_val)
  have l: "c_servers ?c = server_list (Primary_SetServers (Addr 0 ''10.0.0.1'' 9 # ?as) empty_srv)"
    "server_list empty_srv = []"
    by (simp_all add: sample_addrs_def empty_srv_def)
  have u: "c_user ?c = ''u''" "user_name ''u''"
    by (simp_all add: sample_client_def user_name_def)
  show ?thesis
    using failover_resyncs [where k = 1 and net = sample_net and sv = sample_fs and rest = "[]"
          and p = "\<lparr>rx = [RdData ?m], wr = [], tx = []\<rparr>", OF pb_codec_ok l net c p u sample_layout sample_has_dir sample_names(1,4)
        sample_client_layout sample_names(2)]
    by (auto simp: sample_contents)
qed

text \<open>
  There is no second pass: if none of the servers accepts the first time its turn comes,
  the client never reconnects, whatever servers come back later, because every further
  attempt is made on the empty address.
\<close>

theorem reconnect_never_returns:
  assumes "c_servers c = servers_text as" and "plain_ips as"
    and "\<forall>j<length as. net j (ip (as ! j)) 0 = None" and "\<forall>j\<ge>length as. net j [] 0 = None"
  shows "find_primary C net c fs = None"
proof (cases as)
  case Nil
  then show ?thesis
    using assms getline_last [of "CHR '' ''" "[]"] exhausted_none [of 0 net]
    by (simp add: find_primary_def istringstream_def)
next
  case (Cons b bs)
  have "\<forall>j\<le>length bs. net (0 + j) (ip ((b # bs) ! j)) 0 = None" "\<forall>j\<ge>0 + length bs + 1. net j [] 0 = None"
    using assms(3,4) Cons by simp_all
  then have "reconnect_loop C net 0 (ip b) (servers_text bs, True) c fs = None"
    using reconnect_none [of b bs net 0] assms(2) Cons by simp
  then show ?thesis
    using assms(1,2) Cons getline_server [of b bs "[]"]
    by (simp add: find_primary_def istringstream_def plain_ips_def)
qed

theorem reconnect_never_returns_witness:
  "find_primary pb_codec (\<lambda>i a j. if i < 5 then None else if a = [] then None else Some silent)
    ((sample_client [] [])\<lparr>c_servers := servers_text sample_addrs\<rparr>) sample_fs = None"
  by (rule reconnect_never_returns [where as = sample_addrs])
    (auto simp: sample_addrs_def plain_ips_def Addr_def)

text \<open>
  C33. A client that leaves does not come to an end while its server is gone: the thread of
  \<^verbatim>\<open>SyncFromServer\<close> that waits for a command when the stop is requested sees the
  connection close, empties the directory of its user and fetches it anew from the next server,
  and looks at the request only then; if no server accepts, it never does, and the
  program waits for it for ever.
\<close>

theorem exit_waits_for_primary:
  assumes "codec_ok C" and "sound (strm (server_fe c))" and "incoming (strm (server_fe c)) = []"
    and "\<And>i. stop i \<longleftrightarrow> 0 < i" and "c_servers c = servers_text as" and "plain_ips as"
  shows "\<exists>s'. (\<forall>net. SyncFromServer_loop C stop net 0 c fs
        = find_primary C (net 0) (c\<lparr>server_fe := (server_fe c)\<lparr>strm := s'\<rparr>\<rparr>) fs)
    \<and> (\<forall>net. (\<forall>j a. net 0 j a 0 = None) \<longrightarrow> SyncFromServer_loop C stop net 0 c fs = None)"
proof (rule ReceiveCommand_closed [OF assms(1-3)])
  fix s'
  assume r: "ReceiveCommand C (server_fe c) = (Inl ECONNABORTED, (server_fe c)\<lparr>strm := s'\<rparr>)"
  let ?c = "c\<lparr>server_fe := (server_fe c)\<lparr>strm := s'\<rparr>\<rparr>"
  have eq: "SyncFromServer_loop C stop net 0 c fs = find_primary C (net 0) ?c fs" for net
  proof -
    have "SyncFromServer_loop C stop net 1 c1 fs1 = Some (c1, fs1)" for c1 fs1
      using assms(4) [of 1] by (simp add: SyncFromServer_loop.simps [of C stop net "Suc 0"])
    then show ?thesis
      using r assms(4) by (simp add: SyncFromServer_loop.simps [of C stop net 0] split: option.split)
  qed
  moreover have "SyncFromServer_loop C stop net 0 c fs = None" if "\<forall>j a. net 0 j a 0 = None" for net
    unfolding eq using reconnect_never_returns [where c = ?c and as = as and net = "net 0"] assms(5,6) that by simp
  ultimately show ?thesis
    by blast
qed

theorem exit_waits_for_primary_witness:
  "SyncFromServer_loop pb_codec (\<lambda>i. 0 < i) (\<lambda>_ _ _ _. None) 0
    ((sample_client [] [])\<lparr>c_servers := servers_text sample_addrs\<rparr>) sample_fs = None"
proof -
  have "plain_ips sample_addrs"
    by (simp add: sample_addrs_def plain_ips_def Addr_def)
  then show ?thesis
    using exit_waits_for_primary [OF pb_codec_ok, of "(sample_client [] [])\<lparr>c_servers := servers_text sample_addrs\<rparr>"
        "\<lambda>i. 0 < i" sample_addrs sample_fs]
    by (auto simp: sample_client_def)
qed

text \<open>
  A reconnection keeps what the old connection left in the buffer: what had been written
  and not flushed when the primary was lost precedes the user's name on the new connection,
  where the server expects the name.
\<close>

theorem reconnect_sends_stale_bytes:
  assumes "reusable (strm (payload_fe c))" and "answers p"
    and "length (pending (strm (payload_fe c))) + length (enc_str C (c_user c)) \<le> kBufferSize"
  shows "\<exists>c'. SendUsername C (SetSockets (p, q, r) c) = (True, c')
    \<and> tx (ep (strm (payload_fe c'))) = tx p @ pending (strm (payload_fe c)) @ enc_str C (c_user c)"
proof -
  let ?c = "SetSockets (p, q, r) c"
  have pl: "payload_fe ?c = \<lparr>xpath = xpath (payload_fe c), strm = SetSocket p (strm (payload_fe c))\<rparr>"
    by (simp add: SetSockets_def SetStream_def)
  have x: "ready (payload_fe ?c)" "outgoing (strm (payload_fe ?c)) = tx p @ pending (strm (payload_fe c))"
    "length (enc_str C (c_user ?c)) \<le> room (strm (payload_fe ?c))"
    using SetSocket_ready [OF assms(1,2)] assms(3) unfolding pl by (simp_all add: room_def pending_def)
  show ?thesis
    by (rule SendUsername_sends [OF x(1,3)]) (use x(2) in simp)
qed

theorem reconnect_sends_stale_bytes_witness:
  "\<exists>c'. SendUsername pb_codec (SetSockets (silent, silent, silent)
        ((sample_client [] [])\<lparr>payload_fe := \<lparr>xpath = [], strm = snd (sputn [2] (fresh []))\<rparr>\<rparr>)) = (True, c')
    \<and> tx (ep (strm (payload_fe c'))) = [2] @ enc_str pb_codec ''u''"
proof -
  let ?s = "snd (sputn [2] (fresh []))" and ?c = "sample_client [] []"
  have s: "reusable ?s" "pending ?s = [2]"
    by (simp_all add: sputn.simps [of "[2]"] fresh_def SocketStream_def InitializePointers_def reusable_def good_def
        idle_def pending_def block_def blit_def kBufferSize_val)
  show ?thesis
    using reconnect_sends_stale_bytes [of "?c\<lparr>payload_fe := \<lparr>xpath = [], strm = ?s\<rparr>\<rparr>" silent pb_codec silent silent]
      s sample_admitting(2)
    by (simp add: sample_client_def silent_def pb_codec_def kBufferSize_val)
qed

end
