(* ===== verification/Server.thy ===== *)
theory Server
  imports Prelude SocketStream FileSystem Exchange Layout Sockets Election Replica Composite ClientHandler Client Primary
begin

text \<open>
  The control of a server process: \<^verbatim>\<open>server/Server.hpp\<close>, \<^verbatim>\<open>Server.cpp\<close> and
  \<^verbatim>\<open>main.cpp\<close>: the configuration, the search for a next neighbour in the ring, the role
  taken after an election, and the loop of \<^verbatim>\<open>main\<close>.
\<close>

section \<open>Configuration\<close>

text \<open>
  What the TOML library makes of the file: \<open>None\<close> a syntax error, \<open>Some None\<close> a file
  without an array \<^verbatim>\<open>servers\<close>, and for each server the string \<^verbatim>\<open>ip\<close> and the integer
  \<^verbatim>\<open>port\<close>, when present. The code dereferences what the library returns for a missing value.
\<close>

type_synonym toml = "(string option \<times> int option) list option option"

datatype config = ParseError | NullDereference | Servers "addr list"

fun parse_servers :: "nat \<Rightarrow> (string option \<times> int option) list \<Rightarrow> addr list option" where
  "parse_servers i [] = Some []"
| "parse_servers i ((Some a, Some p) # ts) = map_option (Cons (Addr (of_nat i) a (word_of_int p))) (parse_servers (i + 1) ts)"
| "parse_servers i (_ # ts) = None"

definition ParseConfig :: "toml \<Rightarrow> config" where
  "ParseConfig t = (case t of
     None \<Rightarrow> ParseError
   | Some None \<Rightarrow> NullDereference
   | Some (Some ts) \<Rightarrow> (case parse_servers 0 ts of None \<Rightarrow> NullDereference | Some as \<Rightarrow> Servers as))"

section \<open>State\<close>

datatype role = PrimaryRole srv | BackupRole backup

record control =
  addr_index :: nat
  servers :: "addr list"
  replica :: "role option"

definition GetId :: "control \<Rightarrow> byte" where
  "GetId c = of_nat (addr_index c)"

definition GetAddr :: "control \<Rightarrow> addr" where
  "GetAddr c = servers c ! addr_index c"

section \<open>The next server of the ring\<close>

text \<open>
  \<open>up i\<close> says whether a connection to the server \<open>i\<close> succeeds within its eight seconds. The
  result is the server connected to; \<open>None\<close> around it is a loop that never ends.
\<close>

partial_function (option) try_servers :: "(nat \<Rightarrow> bool) \<Rightarrow> nat \<Rightarrow> nat \<Rightarrow> nat \<Rightarrow> nat option option" where
  "try_servers up n me next_i =
     (if next_i = me then Some None
      else if up next_i then Some (Some next_i)
      else try_servers up n me ((next_i + 1) mod n))"

declare try_servers.simps [code]

definition ConnectNext :: "(nat \<Rightarrow> bool) \<Rightarrow> nat \<Rightarrow> control \<Rightarrow> nat option option" where
  "ConnectNext up offset c =
     (let n = length (servers c)
      in try_servers up n (addr_index c) ((addr_index c + offset) mod n))"

section \<open>After an election\<close>

datatype server_exn = PrimaryThrew primary_exn | KeepAliveThrew KeepAliveError int | BackupThrew int | BadVariant

text \<open>
  \<open>built\<close> is what the construction of a primary gives and \<open>serve\<close> what becomes of it up to the
  shutdown; \<open>net\<close>, \<open>so\<close> and \<open>sd\<close> are the network, the socket options and the shutdown flag
  as a backup sees them. The result of the second \<^verbatim>\<open>ConnectToPrimary\<close> is ignored.
\<close>

definition Server_SetServers :: "control \<Rightarrow> control" where
  "Server_SetServers c = (case replica c of
     Some (PrimaryRole s) \<Rightarrow> c\<lparr>replica := Some (PrimaryRole (Primary_SetServers (servers c) s))\<rparr>
   | _ \<Rightarrow> c)"

definition run_backup :: "codec \<Rightarrow> (nat \<Rightarrow> bool) \<Rightarrow> backup \<Rightarrow> control \<Rightarrow> fsys
    \<Rightarrow> ((server_exn + MainLoopReply) \<times> control \<times> fsys) option" where
  "run_backup C sd b c fs = (case Backup_MainLoop C sd b fs of
     None \<Rightarrow> None
   | Some (Inl e, b', fs') \<Rightarrow> Some (Inl (BackupThrew e), c\<lparr>replica := Some (BackupRole b')\<rparr>, fs')
   | Some (Inr r, b', fs') \<Rightarrow> Some (Inr r, c\<lparr>replica := Some (BackupRole b')\<rparr>, fs'))"

definition HandleElection :: "codec \<Rightarrow> (primary_exn + srv) \<Rightarrow> (srv \<Rightarrow> srv option)
    \<Rightarrow> (nat \<Rightarrow> addr \<Rightarrow> endpoint option) \<Rightarrow> (KeepAliveError \<Rightarrow> int \<Rightarrow> int option) \<Rightarrow> (nat \<Rightarrow> bool)
    \<Rightarrow> byte \<Rightarrow> control \<Rightarrow> fsys \<Rightarrow> ((server_exn + MainLoopReply) \<times> control \<times> fsys) option" where
  "HandleElection C built serve net so sd i c fs =
     (if i = GetId c
      then (case built of
          Inl e \<Rightarrow> Some (Inl (PrimaryThrew e), c\<lparr>replica := None\<rparr>, fs)
        | Inr s \<Rightarrow>
            (let c1 = Server_SetServers (c\<lparr>replica := Some (PrimaryRole s)\<rparr>)
             in case replica c1 of
                  Some (PrimaryRole s1) \<Rightarrow> map_option (\<lambda>s2. (Inr kShutdown, c1\<lparr>replica := Some (PrimaryRole s2)\<rparr>, sfs s2)) (serve s1)
                | _ \<Rightarrow> Some (Inl BadVariant, c1, fs)))
      else let a = SetPort kBackupPort (servers c ! unat i)
           in case replica c of
                Some (BackupRole b) \<Rightarrow>
                  run_backup C sd (snd (ConnectToPrimary (net 0) (SetPrimaryAddr a b))) c fs
              | Some (PrimaryRole _) \<Rightarrow> Some (Inl BadVariant, c, fs)
              | None \<Rightarrow>
                  (case Backup net so a of
                     None \<Rightarrow> None
                   | Some (Inl (k, e)) \<Rightarrow> Some (Inl (KeepAliveThrew k e), c, fs)
                   | Some (Inr b) \<Rightarrow> run_backup C sd b c fs))"

section \<open>The loop of main\<close>

text \<open>
  Before an election a server sleeps, a second at a time, until it has a previous server:
  \<open>has_prev k\<close> is what \<^verbatim>\<open>HasPrev\<close> says when it is asked for the \<open>k\<close>-th time.
\<close>

partial_function (option) await_prev :: "(nat \<Rightarrow> bool) \<Rightarrow> nat \<Rightarrow> nat option" where
  "await_prev has_prev k = (if has_prev k then Some k else await_prev has_prev (k + 1))"

declare await_prev.simps [code]

text \<open>
  \<^verbatim>\<open>loop_result\<close> is not initialised: \<open>None\<close>. \<open>next_ok\<close> says whether the connection to the
  next server still stands, \<open>elect\<close> is the result of \<^verbatim>\<open>PerformElection\<close>, \<open>handle\<close> that of
  \<^verbatim>\<open>HandleElection\<close>.
\<close>

datatype turn_end = Again | Leave | ReadsIndeterminate | Exception server_exn

definition loop_condition :: "MainLoopReply option \<Rightarrow> turn_end" where
  "loop_condition r = (case r of
     None \<Rightarrow> ReadsIndeterminate
   | Some kShutdown \<Rightarrow> Leave
   | Some kLostConnectionToPrimary \<Rightarrow> Again)"

definition main_turn :: "bool \<Rightarrow> (nat \<Rightarrow> bool) \<Rightarrow> (nat \<Rightarrow> bool) \<Rightarrow> (Error + byte)
    \<Rightarrow> (byte \<Rightarrow> control \<Rightarrow> fsys \<Rightarrow> ((server_exn + MainLoopReply) \<times> control \<times> fsys) option)
    \<Rightarrow> nat \<Rightarrow> MainLoopReply option \<Rightarrow> control \<Rightarrow> fsys
    \<Rightarrow> (turn_end \<times> nat \<times> MainLoopReply option \<times> control \<times> fsys) option" where
  "main_turn next_ok up has_prev elect handle offset loop_result c fs =
     (case (if next_ok then Some True else map_option (\<lambda>r. r \<noteq> None) (ConnectNext up offset c)) of
        None \<Rightarrow> None
      | Some has_next \<Rightarrow>
          (case (if has_next then map_option (\<lambda>_. elect) (await_prev has_prev 0) else Some (Inr (GetId c))) of
             None \<Rightarrow> None
           | Some (Inl _) \<Rightarrow> Some (loop_condition loop_result, offset, loop_result, c, fs)
           | Some (Inr i) \<Rightarrow>
               (case handle i c fs of
                  None \<Rightarrow> None
                | Some (Inl e, c', fs') \<Rightarrow> Some (Exception e, offset, loop_result, c', fs')
                | Some (Inr r, c', fs') \<Rightarrow>
                    Some (loop_condition (Some r),
                          (if r = kLostConnectionToPrimary then offset + 1 else offset), Some r, c', fs'))))"

section \<open>Which servers are tried\<close>

lemma try_servers_find:
  assumes "d < n" and "me < n" and "0 < d"
  shows "try_servers up n me ((me + d) mod n) = Some (find up (map (\<lambda>k. (me + k) mod n) [d..<n]))"
  using assms(1,3)
proof (induction "n - d" arbitrary: d)
  case (Suc m)
  have other: "(me + d) mod n \<noteq> me"
  proof
    assume "(me + d) mod n = me"
    then have "(me + d) mod n = me mod n"
      using assms(2) by simp
    then have "n dvd d"
      using mod_eq_dvd_iff_nat [of me "me + d" n] by simp
    then show False
      using Suc.prems by (auto dest: dvd_imp_le)
  qed
  have list: "[d..<n] = d # [Suc d..<n]"
    using Suc.prems(1) by (simp add: upt_conv_Cons)
  have inc: "((me + d) mod n + 1) mod n = (me + Suc d) mod n"
    by (simp add: mod_Suc_eq)
  show ?case
  proof (cases "Suc d = n")
    case True
    have "(me + Suc d) mod n = me"
      using True assms(2) by simp
    then have "try_servers up n me ((me + Suc d) mod n) = Some None"
      by (simp add: try_servers.simps [of up n me])
    then show ?thesis
      using other inc list True by (simp add: try_servers.simps [of up n me "(me + d) mod n"])
  next
    case False
    then have "m = n - Suc d" "Suc d < n"
      using Suc.hyps(2) Suc.prems by arith+
    then have "try_servers up n me ((me + Suc d) mod n) = Some (find up (map (\<lambda>k. (me + k) mod n) [Suc d..<n]))"
      using Suc.hyps(1) [of "Suc d"] by simp
    then show ?thesis
      using other inc list by (simp add: try_servers.simps [of up n me "(me + d) mod n"])
  qed
qed simp

lemma ConnectNext_find:
  assumes "addr_index c < length (servers c)"
  shows "ConnectNext up offset c = Some (if offset mod length (servers c) = 0 then None
     else find up (map (\<lambda>k. (addr_index c + k) mod length (servers c)) [offset mod length (servers c)..<length (servers c)]))"
proof -
  let ?n = "length (servers c)" and ?me = "addr_index c"
  have n: "0 < ?n"
    using assms by linarith
  have start: "(?me + offset) mod ?n = (?me + offset mod ?n) mod ?n"
    by (simp add: mod_simps)
  show ?thesis
  proof (cases "offset mod ?n = 0")
    case True
    then show ?thesis
      using assms start by (simp add: ConnectNext_def Let_def try_servers.simps [of up ?n ?me])
  next
    case False
    then show ?thesis
      using try_servers_find [of "offset mod ?n" ?n ?me up] assms n start by (simp add: ConnectNext_def Let_def)
  qed
qed

text \<open>An election that fails in the first turn leaves \<^verbatim>\<open>loop_result\<close> as it was.\<close>

lemma await_prev_ends:
  assumes "has_prev j" and "k \<le> j"
  obtains m where "await_prev has_prev k = Some m"
proof -
  have "\<exists>m. await_prev has_prev k = Some m"
    using assms
  proof (induction "j - k" arbitrary: k)
    case 0
    then show ?case
      by (subst await_prev.simps) simp
  next
    case (Suc d)
    then have "\<exists>m. await_prev has_prev (k + 1) = Some m"
      by simp
    then show ?case
      by (subst await_prev.simps) simp
  qed
  then show ?thesis
    using that by blast
qed

lemma await_prev_found: "await_prev has_prev k = Some m \<Longrightarrow> has_prev m"
proof (erule await_prev.raw_induct [where P = "\<lambda>p k m. p m", rotated], goal_cases)
  case (1 loop p k m)
  show ?case
  proof (cases "p k")
    case True
    then show ?thesis
      using 1(2) by simp
  next
    case False
    then show ?thesis
      using 1(2) by (intro 1(1)) simp
  qed
qed

text \<open>A server that no other server takes for its next one sleeps forever.\<close>

lemma no_prev_sleeps:
  assumes "\<And>k. \<not> has_prev k"
  shows "main_turn True up has_prev elect handle offset r c fs = None"
proof -
  have "await_prev has_prev 0 = None"
    using await_prev_found [of has_prev 0] assms by (cases "await_prev has_prev 0") auto
  then show ?thesis
    by (simp add: main_turn_def)
qed

lemma failed_first_election:
  assumes "has_prev k"
  shows "main_turn True up has_prev (Inl e) handle offset None c fs = Some (ReadsIndeterminate, offset, None, c, fs)"
proof -
  obtain m where "await_prev has_prev 0 = Some m"
    using assms by (rule await_prev_ends [where k = 0]) (rule le0)
  then show ?thesis
    by (simp add: main_turn_def loop_condition_def)
qed

lemma parse_servers_nth:
  "parse_servers j ts = Some as \<Longrightarrow> i < length as
    \<Longrightarrow> unat (addr_id (as ! i)) = (j + i) mod 256 \<and> addr_ok (as ! i) \<and> fst (ts ! i) = Some (ip (as ! i))"
proof (induction j ts arbitrary: i as rule: parse_servers.induct)
  case (2 j a p ts)
  then obtain bs where bs: "parse_servers (j + 1) ts = Some bs" "as = Addr (of_nat j) a (word_of_int p) # bs"
    by auto
  show ?case
  proof (cases i)
    case 0
    then show ?thesis
      using bs(2) by (simp add: unat_of_nat) (simp add: Addr_def unat_of_nat)
  next
    case (Suc k)
    then show ?thesis
      using 2(1) [OF bs(1), of k] 2(3) bs(2) by simp
  qed
qed simp_all

section \<open>Properties\<close>

text \<open>
  The servers of the configuration keep their order and their addresses, and the id of
  each is its index, up to the width of an id: for fewer than 257 servers the id an election
  returns is the index under which \<^verbatim>\<open>HandleElection\<close> looks the winner up.
\<close>

theorem ParseConfig_ids:
  assumes "ParseConfig (Some (Some ts)) = Servers as" and "i < length as" and "length as \<le> 256"
  shows "unat (addr_id (as ! i)) = i \<and> as ! unat (addr_id (as ! i)) = as ! i
    \<and> fst (ts ! i) = Some (ip (as ! i)) \<and> addr_ok (as ! i)"
proof -
  have "parse_servers 0 ts = Some as"
    using assms(1) by (simp add: ParseConfig_def split: option.splits)
  from parse_servers_nth [OF this assms(2)] show ?thesis
    using assms(2,3) by simp
qed

theorem ParseConfig_ids_witness:
  "ParseConfig (Some (Some [(Some ''10.0.0.1'', Some 70000), (Some ''10.0.0.2'', Some 2)]))
     = Servers [Addr 0 ''10.0.0.1'' 4464, Addr 1 ''10.0.0.2'' 2]
   \<and> unat (addr_id ([Addr 0 ''10.0.0.1'' 4464, Addr 1 ''10.0.0.2'' 2] ! 1)) = 1"
proof -
  let ?ts = "[(Some ''10.0.0.1'', Some 70000), (Some ''10.0.0.2'', Some 2)]"
  let ?as = "[Addr 0 ''10.0.0.1'' 4464, Addr 1 ''10.0.0.2'' 2]"
  have w: "70000 = (4464 :: 16 word)"
    by simp
  have p: "ParseConfig (Some (Some ?ts)) = Servers ?as"
    by (simp add: ParseConfig_def w)
  then show ?thesis
    using ParseConfig_ids [OF p, of 1] by simp
qed

text \<open>
  C29. The search for a next server ends and is a search in a fixed list: the servers from
  \<^verbatim>\<open>offset\<close> places after this one up to the one before it, in that order, so the servers
  closer than \<^verbatim>\<open>offset\<close> are never tried, and none is when \<^verbatim>\<open>offset\<close> is a multiple of their
  number.
\<close>

theorem ConnectNext_tries:
  assumes "addr_index c < length (servers c)"
  shows "\<exists>found. ConnectNext up offset c = Some found
    \<and> found = (if offset mod length (servers c) = 0 then None
        else find up (map (\<lambda>k. (addr_index c + k) mod length (servers c))
          [offset mod length (servers c)..<length (servers c)]))
    \<and> (\<forall>i. found = Some i \<longrightarrow> i \<noteq> addr_index c \<and> up i)"
proof -
  let ?n = "length (servers c)" and ?me = "addr_index c"
  let ?l = "map (\<lambda>k. (?me + k) mod ?n) [offset mod ?n..<?n]"
  have "i \<noteq> ?me \<and> up i" if f: "find up ?l = Some i" and off: "offset mod ?n \<noteq> 0" for i
  proof -
    obtain j where j: "j < length ?l" "?l ! j = i" "up i"
      using f by (auto simp: find_Some_iff)
    let ?k = "offset mod ?n + j"
    have k: "i = (?me + ?k) mod ?n" "0 < ?k" "?k < ?n"
      using j(1,2) off by auto
    have "i \<noteq> ?me"
    proof
      assume "i = ?me"
      then have "(?me + ?k) mod ?n = ?me mod ?n"
        using k(1) assms by simp
      then have "?n dvd ?k"
        using mod_eq_dvd_iff_nat [of ?me "?me + ?k" ?n] by simp
      then show False
        using k(2,3) by (auto dest: dvd_imp_le)
    qed
    then show ?thesis
      using j(3) by simp
  qed
  then show ?thesis
    using ConnectNext_find [OF assms, of up offset] by auto
qed

definition sample_control :: control where
  "sample_control = \<lparr>addr_index = 0, servers = [Addr 0 ''10.0.0.1'' 9, Addr 1 ''10.0.0.2'' 9, Addr 2 ''10.0.0.3'' 9],
     replica = None\<rparr>"

theorem ConnectNext_tries_witness:
  "ConnectNext (\<lambda>i. i = 1) 2 sample_control = Some None \<and> ConnectNext (\<lambda>i. i = 1) 1 sample_control = Some (Some 1)"
  using ConnectNext_tries [of sample_control "\<lambda>i. i = 1" 2] ConnectNext_tries [of sample_control "\<lambda>i. i = 1" 1]
  by (simp add: sample_control_def upt_rec)

text \<open>
  After as many lost primaries as there are servers a server elects itself: the offset,
  which only grows, is then a multiple of their number, no connection is tried, and the
  server becomes a primary although every other server may be up.
\<close>

theorem offset_wrap_elects_self:
  assumes "addr_index c < length (servers c)" and "offset mod length (servers c) = 0"
    and "serve (Primary_SetServers (servers c) s) = Some s'"
  shows "\<exists>c'. main_turn False up has_prev elect (HandleElection C (Inr s) serve net so sd) offset r c fs
      = Some (Leave, offset, Some kShutdown, c', sfs s') \<and> replica c' = Some (PrimaryRole s')"
  using assms ConnectNext_find [OF assms(1), of up offset]
  by (simp add: main_turn_def HandleElection_def Server_SetServers_def loop_condition_def Let_def)

theorem offset_wrap_elects_self_witness:
  "\<exists>c'. main_turn False (\<lambda>_. True) (\<lambda>_. False) (Inr 2) (HandleElection pb_codec (Inr empty_srv) Some (\<lambda>_ _. None) (\<lambda>_ _. None)
        (\<lambda>_. False)) 3 (Some kLostConnectionToPrimary) sample_control sample_fs
      = Some (Leave, 3, Some kShutdown, c', sample_fs)"
  using offset_wrap_elects_self [of sample_control 3 Some empty_srv
      "Primary_SetServers (servers sample_control) empty_srv" "\<lambda>_. True" "\<lambda>_. False" "Inr 2" pb_codec "\<lambda>_ _. None"
      "\<lambda>_ _. None" "\<lambda>_. False" "Some kLostConnectionToPrimary" sample_fs]
  by (auto simp: sample_control_def Primary_SetServers_def empty_srv_def)

text \<open>
  A backup cannot follow a second primary: its socket is still the connected one, so
  \<^verbatim>\<open>ConnectToPrimary\<close> fails, whatever the network offers, the main loop reads the closed
  connection again and reports the loss of a primary it never was connected to.
\<close>

theorem backup_cannot_follow_new_primary:
  assumes "codec_ok C" and "replica c = Some (BackupRole b)" and "connected b" and "i \<noteq> GetId c"
    and "sound (strm (exchange_s b))" and "incoming (strm (exchange_s b)) = []" and "\<not> sd 0" and "has_prev k"
  shows "\<exists>c' b'. HandleElection C built serve net so sd i c fs = Some (Inr kLostConnectionToPrimary, c', fs)
    \<and> replica c' = Some (BackupRole b') \<and> connected b'
    \<and> primary_addr b' = SetPort kBackupPort (servers c ! unat i)
    \<and> main_turn True up has_prev (Inr i) (HandleElection C built serve net so sd) offset r c fs
        = Some (Again, offset + 1, Some kLostConnectionToPrimary, c', fs)"
proof -
  let ?b = "SetPrimaryAddr (SetPort kBackupPort (servers c ! unat i)) b"
  obtain x where "Backup_loop C sd 0 (exchange_s b) fs = Some (Inr kLostConnectionToPrimary, x, fs)"
    by (rule Backup_loop_closed [where sd = sd and i = 0 and fs = fs, OF assms(1,5,7,6)]) (rule that; assumption)
  then have "Backup_MainLoop C sd ?b fs = Some (Inr kLostConnectionToPrimary, ?b\<lparr>exchange_s := x\<rparr>, fs)"
    by (simp add: Backup_MainLoop_def SetPrimaryAddr_def)
  moreover have "ConnectToPrimary (net 0) ?b = (False, ?b)"
    using assms(3) by (simp add: ConnectToPrimary_def SetPrimaryAddr_def)
  moreover obtain m where "await_prev has_prev 0 = Some m"
    using assms(8) by (rule await_prev_ends [where k = 0]) (rule le0)
  ultimately have "await_prev has_prev 0 = Some m" and "HandleElection C built serve net so sd i c fs
      = Some (Inr kLostConnectionToPrimary, c\<lparr>replica := Some (BackupRole (?b\<lparr>exchange_s := x\<rparr>))\<rparr>, fs)"
    using assms(2,4) by (simp_all add: HandleElection_def run_backup_def)
  then show ?thesis
    using assms(3) by (simp add: main_turn_def loop_condition_def SetPrimaryAddr_def)
qed

theorem backup_cannot_follow_new_primary_witness:
  "\<exists>c'. main_turn True (\<lambda>_. True) (\<lambda>_. True) (Inr 2) (HandleElection pb_codec (Inr empty_srv) Some (\<lambda>_ _. Some silent) (\<lambda>_ _. None)
        (\<lambda>_. False)) 1 (Some kLostConnectionToPrimary)
        (sample_control\<lparr>replica := Some (BackupRole (sample_backup []))\<rparr>) sample_fs
      = Some (Again, 2, Some kLostConnectionToPrimary, c', sample_fs)"
  using backup_cannot_follow_new_primary [OF pb_codec_ok,
      of "sample_control\<lparr>replica := Some (BackupRole (sample_backup []))\<rparr>" "sample_backup []" 2 "\<lambda>_. False"
        "\<lambda>_. True" 0 "Inr empty_srv" Some "\<lambda>_ _. Some silent" "\<lambda>_ _. None" sample_fs "\<lambda>_. True" 1 "Some kLostConnectionToPrimary"]
  by (auto simp: sample_control_def sample_backup_def GetId_def)

end
