(* ===== verification/UserInput.thy ===== *)
theory UserInput
  imports Prelude Commands SocketStream FileSystem Exchange Layout ClientHandler Inotify Client Transfers
begin

text \<open>
  The command line of the client: \<^verbatim>\<open>client/user_input.hpp\<close> and \<^verbatim>\<open>user_input.cpp\<close>.
  The state is the flag of the loop and the path of the last line that had one; the lines of
  the standard input are a list, and what is printed is a list of messages.
\<close>

section \<open>State\<close>

record user_input =
  reading :: bool
  input_path :: string

datatype message =
    Success
  | Failure
  | NotAFile string
  | MissingPath
  | Listing string
  | ListingFailed
  | UnexpectedCommand Command
  | UnknownCommand string

definition UserInput :: user_input where
  "UserInput = \<lparr>reading = False, input_path = []\<rparr>"

definition Stop :: "user_input \<Rightarrow> user_input" where
  "Stop u = u\<lparr>reading := False\<rparr>"

section \<open>Commands\<close>

text \<open>
  Every case ends with \<^verbatim>\<open>client_.Flush()\<close>; an exception of the listing (\<open>Inl\<close>) skips it.
\<close>

definition report :: "message list \<Rightarrow> user_input \<Rightarrow> client \<Rightarrow> fsys
    \<Rightarrow> ((int + message list) \<times> user_input \<times> client \<times> fsys) option" where
  "report ms u c fs = Some (Inr ms, u, Client_Flush c, fs)"

definition do_and_report :: "(string \<Rightarrow> client \<Rightarrow> fsys \<Rightarrow> (bool \<times> client \<times> fsys) option)
    \<Rightarrow> user_input \<Rightarrow> client \<Rightarrow> fsys \<Rightarrow> ((int + message list) \<times> user_input \<times> client \<times> fsys) option" where
  "do_and_report method u c fs = (case method (input_path u) c fs of
     None \<Rightarrow> None
   | Some (ok, c', fs') \<Rightarrow> report [if ok then Success else Failure] u c' fs')"

definition HandleCommand :: "codec \<Rightarrow> tables \<Rightarrow> Command \<Rightarrow> user_input \<Rightarrow> client \<Rightarrow> fsys
    \<Rightarrow> ((int + message list) \<times> user_input \<times> client \<times> fsys) option" where
  "HandleCommand C T command u c fs = (case command of
     kUpload \<Rightarrow>
       (if input_path u \<noteq> []
        then if is_regular_file fs (input_path u) then do_and_report (Client_Upload C) u c fs
             else report [NotAFile (filename (input_path u))] u c fs
        else report [MissingPath] u c fs)
   | kDownload \<Rightarrow>
       (if input_path u \<noteq> [] then do_and_report (Client_Download C) u c fs else report [MissingPath] u c fs)
   | kDelete \<Rightarrow>
       (if input_path u \<noteq> [] then do_and_report (Client_Delete C) u c fs else report [MissingPath] u c fs)
   | kListServer \<Rightarrow> (case Client_ListServer C c of
        None \<Rightarrow> None
      | Some (Some t, c') \<Rightarrow> report [Listing t] u c' fs
      | Some (None, c') \<Rightarrow> report [ListingFailed] u c' fs)
   | kListClient \<Rightarrow> (case ListClient T c fs of
        Inl e \<Rightarrow> Some (Inl e, u, c, fs)
      | Inr t \<Rightarrow> report [Listing t] u c fs)
   | kExit \<Rightarrow> (case Client_Exit C c of
        None \<Rightarrow> None
      | Some c' \<Rightarrow> report [] (Stop u) c' fs)
   | _ \<Rightarrow> report [UnexpectedCommand command] u c fs)"

section \<open>The loop\<close>

text \<open>The two extractions from a line: the command's name is a new string, the path is the member.\<close>

definition parse_line :: "string \<Rightarrow> user_input \<Rightarrow> string \<times> user_input" where
  "parse_line line u =
     (let (input_command, iss) = extract_word (istringstream line) [];
          (path, _) = extract_word iss (input_path u)
      in (input_command, u\<lparr>input_path := path\<rparr>))"

definition handle_line :: "codec \<Rightarrow> tables \<Rightarrow> string \<Rightarrow> user_input \<Rightarrow> client \<Rightarrow> fsys
    \<Rightarrow> ((int + message list) \<times> user_input \<times> client \<times> fsys) option" where
  "handle_line C T line u c fs =
     (let (input_command, u1) = parse_line line u
      in case CommandFromStr input_command of
           None \<Rightarrow> Some (Inr [UnknownCommand input_command], u1, c, fs)
         | Some command \<Rightarrow> HandleCommand C T command u1 c fs)"

text \<open>After the last line \<^verbatim>\<open>getline\<close> leaves the new string empty.\<close>

definition next_line :: "string list \<Rightarrow> string \<times> string list" where
  "next_line lines = (case lines of [] \<Rightarrow> ([], []) | l # ls \<Rightarrow> (l, ls))"

partial_function (option) Start_loop :: "codec \<Rightarrow> tables \<Rightarrow> string list \<Rightarrow> user_input \<Rightarrow> client \<Rightarrow> fsys
    \<Rightarrow> message list \<Rightarrow> ((int + unit) \<times> message list \<times> client \<times> fsys) option" where
  "Start_loop C T lines u c fs out =
     (if \<not> reading u then Some (Inr (), out, c, fs)
      else let n = next_line lines
           in case handle_line C T (fst n) u c fs of
                None \<Rightarrow> None
              | Some t \<Rightarrow>
                  (case fst t of
                     Inl e \<Rightarrow> Some (Inl e, out, fst (snd (snd t)), snd (snd (snd t)))
                   | Inr ms \<Rightarrow> Start_loop C T (snd n) (fst (snd t)) (fst (snd (snd t))) (snd (snd (snd t))) (out @ ms)))"

declare Start_loop.simps [code]

definition Start :: "codec \<Rightarrow> tables \<Rightarrow> string list \<Rightarrow> user_input \<Rightarrow> client \<Rightarrow> fsys
    \<Rightarrow> ((int + unit) \<times> message list \<times> client \<times> fsys) option" where
  "Start C T lines u c fs = Start_loop C T lines (u\<lparr>reading := True\<rparr>) c fs []"

section \<open>Lines\<close>

definition word :: "string \<Rightarrow> bool" where
  "word w = (w \<noteq> [] \<and> list_all (\<lambda>c. \<not> isspace c) w)"

lemma word_parts:
  assumes "word w"
  shows "dropWhile isspace (w @ r) = w @ r" and "takeWhile (\<lambda>c. \<not> isspace c) w = w"
    and "dropWhile (\<lambda>c. \<not> isspace c) w = []"
    and "isspace s \<Longrightarrow> takeWhile (\<lambda>c. \<not> isspace c) (w @ s # r) = w"
    and "isspace s \<Longrightarrow> dropWhile (\<lambda>c. \<not> isspace c) (w @ s # r) = s # r"
  using assms
  by (cases w; auto simp: word_def list_all_iff takeWhile_append dropWhile_append takeWhile_eq_all_conv
      dropWhile_eq_Nil_conv)+

lemma extract_word_only:
  assumes "word w"
  shows "extract_word (istringstream w) old = (w, ([], False))"
  using assms word_parts(2-) [OF assms] word_parts(1) [OF assms, of "[]"]
  by (simp add: extract_word_def istringstream_def word_def)

lemma extract_word_first:
  assumes "word w" and "isspace s"
  shows "extract_word (istringstream (w @ s # r)) old = (w, (s # r, True))"
  using assms word_parts(1) [OF assms(1), of "s # r"] word_parts(4,5) [OF assms]
  by (simp add: extract_word_def istringstream_def word_def)

lemma extract_word_second:
  assumes "word w" and "isspace s"
  shows "extract_word (s # w, True) old = (w, ([], False))"
  using assms word_parts(2,3) [OF assms(1)] word_parts(1) [OF assms(1), of "[]"]
  by (simp add: extract_word_def word_def)

lemma word_name: "StrFromCommand (Cmd c) \<noteq> [] \<and> word (StrFromCommand (Cmd c))"
  by (cases c) (simp_all add: word_def isspace_def)

lemma isspace_blank [simp]: "isspace (CHR '' '')"
  by (simp add: isspace_def)

lemma parse_line_two: "word w \<Longrightarrow> word p \<Longrightarrow> parse_line (w @ CHR '' '' # p) u = (w, u\<lparr>input_path := p\<rparr>)"
  by (simp add: parse_line_def extract_word_first extract_word_second)

lemma parse_line_one: "word w \<Longrightarrow> parse_line w u = (w, u)"
  by (simp add: parse_line_def extract_word_only) (simp add: extract_word_def)

lemma parse_line_empty: "parse_line [] u = ([], u)"
  by (simp add: parse_line_def extract_word_def istringstream_def)

lemma parsed_name: "CommandFromStr (StrFromCommand (Cmd c)) = Some c"
  by (cases c) (simp_all add: CommandFromStr_def kCommandMap_def)

section \<open>The end of the input\<close>

lemma Start_loop_end: "Start_loop C T lines u c fs out = Some y \<Longrightarrow> lines = [] \<longrightarrow> \<not> reading u"
proof (erule Start_loop.raw_induct [where P = "\<lambda>C T lines u c fs out y. lines = [] \<longrightarrow> \<not> reading u", rotated], goal_cases)
  case (1 loop C T lines u c fs out y)
  have "handle_line C T [] u c fs = Some (Inr [UnknownCommand []], u, c, fs)"
    by (simp add: handle_line_def parse_line_empty CommandFromStr_def kCommandMap_def)
  then show ?case
    using 1(2) 1(1) [of C T "[]" u c fs "out @ [UnknownCommand []]" y]
    by (auto simp: next_line_def Let_def)
qed

section \<open>Properties\<close>

text \<open>
  A line is dispatched by its two words: the name of a command and a path call that
  command with that path; a line without a path calls the command with the path of the last
  line that had one, so \<^verbatim>\<open>delete\<close> alone after \<^verbatim>\<open>upload f\<close> deletes \<open>f\<close>.
\<close>

theorem line_dispatch:
  assumes "word p"
  shows "handle_line C T (StrFromCommand (Cmd k) @ '' '' @ p) u c fs = HandleCommand C T k (u\<lparr>input_path := p\<rparr>) c fs
    \<and> handle_line C T (StrFromCommand (Cmd k)) u c fs = HandleCommand C T k u c fs"
  using word_name [of k] assms
  by (simp add: handle_line_def parse_line_two parse_line_one parsed_name)

theorem line_dispatch_witness:
  "handle_line pb_codec sample_tables ''delete f'' UserInput (sample_client [] []) sample_fs
     = do_and_report (Client_Delete pb_codec) (UserInput\<lparr>input_path := ''f''\<rparr>) (sample_client [] []) sample_fs
   \<and> handle_line pb_codec sample_tables ''delete'' (UserInput\<lparr>input_path := ''f''\<rparr>) (sample_client [] []) sample_fs
     = do_and_report (Client_Delete pb_codec) (UserInput\<lparr>input_path := ''f''\<rparr>) (sample_client [] []) sample_fs"
  using line_dispatch [of "''f''" pb_codec sample_tables kDelete UserInput "sample_client [] []" sample_fs]
    line_dispatch [of "''f''" pb_codec sample_tables kDelete "UserInput\<lparr>input_path := ''f''\<rparr>" "sample_client [] []" sample_fs]
  by (simp add: word_def isspace_def HandleCommand_def)

text \<open>
  The line \<^verbatim>\<open>upload p\<close> uploads: when \<open>p\<close> is a file outside of the user's directory it
  prints success, the command, the destination and the contents have been sent, and the
  user's directory holds the same contents under the file's name.
\<close>

theorem upload_line_uploads:
  assumes "word p" and "ready (payload_fe c)" and "c_user c = u" and "user_name u" and "simple_name f"
    and "filename p = f" and "layout cl" and "has_dir cl u" and "resolve cl p = Inr q"
    and "node_at cl q = Some (File bs)" and "q \<noteq> dir_of cl u @ [f]"
    and "length (op_msg C (Put u f bs)) \<le> room (strm (payload_fe c))"
  shows "\<exists>i' c' cl'. handle_line C T (''upload '' @ p) i c cl = Some (Inr [Success], i', c', cl')
    \<and> tx (ep (strm (payload_fe c'))) = outgoing (strm (payload_fe c)) @ op_msg C (Put u f bs)
    \<and> contents cl' = apply_op (Put u f bs) (contents cl)"
proof -
  let ?i = "i\<lparr>input_path := p\<rparr>"
  obtain c' cl' where up: "Client_Upload C p c cl = Some (True, c', cl')"
    "outgoing (strm (payload_fe c')) = outgoing (strm (payload_fe c)) @ op_msg C (Put u f bs)"
    "contents cl' = apply_op (Put u f bs) (contents cl)" "ready (payload_fe c')"
    using Client_Upload_stores_and_sends [OF assms(2-12)] by blast
  have "is_regular_file cl p"
    using status_node [OF assms(9)] assms(10) by (simp add: is_regular_file_def)
  moreover have "p \<noteq> []"
    using assms(1) by (simp add: word_def)
  ultimately have "HandleCommand C T kUpload ?i c cl = Some (Inr [Success], ?i, Client_Flush c', cl')"
    using up(1) by (simp add: HandleCommand_def do_and_report_def report_def)
  moreover have "word ''upload''"
    by (simp add: word_def isspace_def)
  then have "parse_line (''upload'' @ CHR '' '' # p) i = (''upload'', ?i)"
    using assms(1) by (rule parse_line_two)
  ultimately show ?thesis
    using up(2,3) Flush_ready(4) [OF up(4)]
    by (simp add: handle_line_def CommandFromStr_def kCommandMap_def Client_Flush_def)
qed

theorem upload_line_uploads_witness:
  "\<exists>i' c' cl'. handle_line pb_codec sample_tables ''upload f'' UserInput (sample_client [] []) sample_upload_fs
      = Some (Inr [Success], i', c', cl') \<and> contents cl' ''u'' ''f'' = Some [4, 5]"
proof -
  have f: "word ''f''" "simple_name ''f''" "filename ''f'' = ''f''" "user_name ''u''"
    by (simp_all add: word_def isspace_def simple_name_def filename_def user_name_def)
  have c: "ready (payload_fe (sample_client [] []))" "c_user (sample_client [] []) = ''u''"
    "length (op_msg pb_codec (Put ''u'' ''f'' [4, 5])) \<le> room (strm (payload_fe (sample_client [] [])))"
    by (simp_all add: sample_client_def upload_msg_def path_msg_def file_msg_def pb_codec_def kBufferSize_val)
  have "[''srv'', ''f''] \<noteq> dir_of sample_upload_fs ''u'' @ [''f'']"
    using sample_upload_fs_ok(5) by (simp add: dir_of_def)
  then show ?thesis
    using upload_line_uploads [where i = UserInput and T = sample_tables,
        OF f(1) c(1,2) f(4,2,3) sample_upload_fs_ok(1-4) _ c(3)] by auto
qed

text \<open>
  The loop does not notice the end of its input: when the standard input ends before a
  line says \<^verbatim>\<open>exit\<close>, every further line is empty, an unknown command, and the loop goes on
  for ever.
\<close>

theorem end_of_input_spins: "Start C T [] u c fs = None"
  using Start_loop_end [of C T "[]" "u\<lparr>reading := True\<rparr>" c fs "[]"]
  by (cases "Start_loop C T [] (u\<lparr>reading := True\<rparr>) c fs []") (auto simp: Start_def)

end
