(* ===== verification/Wiring.thy ===== *)
theory Wiring
  imports Prelude Sockets
begin

text \<open>
  Who refers to whom: a stream keeps a reference to a socket object
  (\<^verbatim>\<open>SocketBuffer::socket_\<close>), an exchange keeps a reference to a stream
  (\<^verbatim>\<open>FileExchange::stream_\<close>), and objects that hold such members are moved: a
  \<^verbatim>\<open>BackupHandler\<close> when the vector of backups grows, a \<^verbatim>\<open>ClientHandler\<close> by its
  move constructor. The model follows the references, so a reference to a destroyed object
  shows as \<open>None\<close>: using it is undefined behaviour.
\<close>

section \<open>Objects\<close>

text \<open>
  An address and, for an object with several members of a class, the member. A \<^verbatim>\<open>Base\<close>
  has one socket, one stream and one exchange, all three at the same place of their own map.
\<close>

datatype slot = Whole | PayloadSlot | ClientSyncSlot | ServerSyncSlot

lemma all_slots: "k \<noteq> Whole \<longleftrightarrow> k = PayloadSlot \<or> k = ClientSyncSlot \<or> k = ServerSyncSlot"
  by (cases k) auto

type_synonym place = "nat \<times> slot"

record wires =
  kern :: "place kernel"
  stream_ref :: "place \<Rightarrow> place option"   \<comment> \<open>the socket a live stream refers to\<close>
  fe_ref :: "place \<Rightarrow> place option"       \<comment> \<open>the stream a live exchange refers to\<close>

text \<open>The descriptor an exchange works on, following its references.\<close>

definition fe_fd :: "wires \<Rightarrow> place \<Rightarrow> int option" where
  "fe_fd w l = (case fe_ref w l of
     None \<Rightarrow> None
   | Some s \<Rightarrow> (case stream_ref w s of
        None \<Rightarrow> None
      | Some k \<Rightarrow> objs (kern w) k))"

definition Stream_new :: "place \<Rightarrow> place \<Rightarrow> wires \<Rightarrow> wires" where
  "Stream_new s k w = w\<lparr>stream_ref := (stream_ref w)(s \<mapsto> k)\<rparr>"

text \<open>The move constructor copies the reference.\<close>

definition Stream_move :: "place \<Rightarrow> place \<Rightarrow> wires \<Rightarrow> wires" where
  "Stream_move s other w = w\<lparr>stream_ref := (stream_ref w)(s := stream_ref w other)\<rparr>"

definition Stream_SetSocket :: "place \<Rightarrow> place \<Rightarrow> wires \<Rightarrow> wires" where
  "Stream_SetSocket s k w = w\<lparr>stream_ref := (stream_ref w)(s \<mapsto> k)\<rparr>"

definition Fe_new :: "place \<Rightarrow> place \<Rightarrow> wires \<Rightarrow> wires" where
  "Fe_new f s w = w\<lparr>fe_ref := (fe_ref w)(f \<mapsto> s)\<rparr>"

definition Fe_move :: "place \<Rightarrow> place \<Rightarrow> wires \<Rightarrow> wires" where
  "Fe_move f other w = w\<lparr>fe_ref := (fe_ref w)(f := fe_ref w other)\<rparr>"

definition Fe_SetStream :: "place \<Rightarrow> place \<Rightarrow> wires \<Rightarrow> wires" where
  "Fe_SetStream f s w = w\<lparr>fe_ref := (fe_ref w)(f \<mapsto> s)\<rparr>"

definition on_socks :: "(place kernel \<Rightarrow> place kernel) \<Rightarrow> wires \<Rightarrow> wires" where
  "on_socks f w = w\<lparr>kern := f (kern w)\<rparr>"

section \<open>Base, and the vector of backups\<close>

text \<open>The members are initialised in the order of their declaration.\<close>

definition Base_ctor :: "place \<Rightarrow> place \<Rightarrow> wires \<Rightarrow> wires" where
  "Base_ctor b sock w = Fe_new b b (Stream_new b b (on_socks (Socket_move b sock) w))"

definition Base_move :: "place \<Rightarrow> place \<Rightarrow> wires \<Rightarrow> wires" where
  "Base_move b other w =
     Fe_SetStream b b (Stream_SetSocket b b
       (Fe_move b other (Stream_move b other (on_socks (Socket_move b other) w))))"

definition Base_destroy :: "place \<Rightarrow> wires \<Rightarrow> wires" where
  "Base_destroy b w =
     on_socks (Socket_destroy b) (w\<lparr>fe_ref := (fe_ref w)(b := None), stream_ref := (stream_ref w)(b := None)\<rparr>)"

text \<open>
  \<^verbatim>\<open>backups_.emplace_back\<close> when the vector is full: the new element is constructed in the
  new storage, then every old one is moved there and destroyed.
\<close>

fun relocate :: "(place \<times> place) list \<Rightarrow> wires \<Rightarrow> wires" where
  "relocate [] w = w"
| "relocate ((old, new) # r) w = relocate r (Base_destroy old (Base_move new old w))"

definition emplace_backup :: "(place \<times> place) list \<Rightarrow> place \<Rightarrow> place \<Rightarrow> wires \<Rightarrow> wires" where
  "emplace_backup moves new sock w = relocate moves (Base_ctor new sock w)"

section \<open>ClientHandler\<close>

text \<open>
  The constructor: \<open>ps\<close>, \<open>cs\<close>, \<open>ss\<close> are the sockets it is given, \<open>pst\<close> the payload stream.
\<close>

definition Handler_ctor :: "nat \<Rightarrow> place \<Rightarrow> place \<Rightarrow> place \<Rightarrow> place \<Rightarrow> wires \<Rightarrow> wires" where
  "Handler_ctor h ps cs ss pst w0 =
     (let w1 = on_socks (Socket_move (h, PayloadSlot) ps) w0;
          w2 = on_socks (Socket_move (h, ClientSyncSlot) cs) w1;
          w3 = Base_ctor (h, ServerSyncSlot) ss w2;
          w4 = Stream_move (h, PayloadSlot) pst w3;
          w5 = Stream_new (h, ClientSyncSlot) (h, ClientSyncSlot) w4;
          w6 = Fe_new (h, PayloadSlot) (h, PayloadSlot) w5;
          w7 = Fe_new (h, ClientSyncSlot) (h, ClientSyncSlot) w6
      in Stream_SetSocket (h, PayloadSlot) (h, PayloadSlot) w7)"

text \<open>The move constructor: the streams keep the references of the streams they come from.\<close>

definition Handler_move :: "nat \<Rightarrow> nat \<Rightarrow> wires \<Rightarrow> wires" where
  "Handler_move h other w0 =
     (let w1 = on_socks (Socket_move (h, PayloadSlot) (other, PayloadSlot)) w0;
          w2 = on_socks (Socket_move (h, ClientSyncSlot) (other, ClientSyncSlot)) w1;
          w3 = Base_move (h, ServerSyncSlot) (other, ServerSyncSlot) w2;
          w4 = Stream_move (h, PayloadSlot) (other, PayloadSlot) w3;
          w5 = Stream_move (h, ClientSyncSlot) (other, ClientSyncSlot) w4;
          w6 = Fe_new (h, PayloadSlot) (h, PayloadSlot) w5
      in Fe_new (h, ClientSyncSlot) (h, ClientSyncSlot) w6)"

definition Handler_destroy :: "nat \<Rightarrow> wires \<Rightarrow> wires" where
  "Handler_destroy h w =
     Base_destroy (h, ServerSyncSlot) (Base_destroy (h, ClientSyncSlot) (Base_destroy (h, PayloadSlot) w))"

section \<open>Following the references\<close>

lemmas wire_defs = Stream_new_def Stream_move_def Stream_SetSocket_def Fe_new_def Fe_move_def
  Fe_SetStream_def on_socks_def Base_ctor_def Base_move_def Base_destroy_def

lemma objs_move: "objs (Socket_move v u k) =
    (case objs k u of None \<Rightarrow> objs k | Some s \<Rightarrow> (objs k)(v \<mapsto> s, u \<mapsto> kInvalidSocket))"
  by (simp add: Socket_move_def split: option.splits)

lemma objs_destroy: "objs (Socket_destroy v k) = (objs k)(v := None)"
  by (auto simp: Socket_destroy_def os_close_def split: option.splits)

text \<open>A wired object: stream and exchange refer to the members of the object itself.\<close>

definition wired :: "wires \<Rightarrow> place \<Rightarrow> int \<Rightarrow> bool" where
  "wired w b d = (fe_ref w b = Some b \<and> stream_ref w b = Some b \<and> objs (kern w) b = Some d)"

lemma wired_fd: "wired w b d \<Longrightarrow> fe_fd w b = Some d"
  by (simp add: wired_def fe_fd_def)

lemma wired_ctor: "objs (kern w) sock = Some d \<Longrightarrow> b \<noteq> sock \<Longrightarrow> wired (Base_ctor b sock w) b d"
  by (simp add: wired_def wire_defs objs_move)

lemma wired_ctor_other:
  assumes "wired w c e" and "c \<noteq> b" and "c \<noteq> sock"
  shows "wired (Base_ctor b sock w) c e"
  using assms by (simp add: wired_def wire_defs objs_move split: option.splits)

lemma wired_moved:
  assumes "wired w old d" and "new \<noteq> old"
  shows "wired (Base_destroy old (Base_move new old w)) new d"
  using assms by (simp add: wired_def wire_defs objs_move objs_destroy)

lemma wired_moved_other:
  assumes "wired w c e" and "c \<noteq> new" and "c \<noteq> old"
  shows "wired (Base_destroy old (Base_move new old w)) c e"
  using assms by (simp add: wired_def wire_defs objs_move objs_destroy split: option.splits)

lemma relocate_other:
  assumes "wired w c e" and "c \<notin> fst ` set ms" and "c \<notin> snd ` set ms"
  shows "wired (relocate ms w) c e"
  using assms by (induction ms w rule: relocate.induct) (auto simp: wired_moved_other)

lemma relocate_wired:
  assumes "list_all2 (\<lambda>m d. wired w (fst m) d) ms ds"
    and "distinct (map fst ms @ map snd ms)"
  shows "list_all2 (\<lambda>m d. wired (relocate ms w) (snd m) d) ms ds"
  using assms
proof (induction ms w arbitrary: ds rule: relocate.induct)
  case (2 old new r w)
  obtain d ds' where ds: "ds = d # ds'" and d: "wired w old d"
    and r: "list_all2 (\<lambda>m d. wired w (fst m) d) r ds'"
    using 2(2) by (auto simp: list_all2_Cons1)
  let ?w = "Base_destroy old (Base_move new old w)"
  have ne: "new \<noteq> old" "old \<notin> fst ` set r" "new \<notin> fst ` set r" "old \<notin> snd ` set r" "new \<notin> snd ` set r"
    using 2(3) by auto
  have "list_all2 (\<lambda>m d. wired ?w (fst m) d) r ds'"
    using r by (rule list.rel_mono_strong) (use ne in \<open>auto intro!: wired_moved_other\<close>)
  then have "list_all2 (\<lambda>m d. wired (relocate r ?w) (snd m) d) r ds'"
    using 2(1) 2(3) by simp
  moreover have "wired (relocate r ?w) new d"
    using relocate_other [OF wired_moved [OF d ne(1)]] ne by simp
  ultimately show ?case
    by (simp add: ds)
qed simp

lemma owned_wires:
  assumes "owned (kern w)"
  shows "objs (kern w) new = None \<Longrightarrow> owned (kern (Base_move new old w))"
    and "owned (kern (Base_destroy b w))"
    and "objs (kern w) b = None \<Longrightarrow> owned (kern (Base_ctor b sock w))"
  using assms by (simp_all add: wire_defs owned_move owned_destroy)

lemma relocate_owned:
  assumes "owned (kern w)" and "list_all (\<lambda>m. objs (kern w) (snd m) = None) ms"
    and "distinct (map fst ms @ map snd ms)"
  shows "owned (kern (relocate ms w))"
  using assms
proof (induction ms w rule: relocate.induct)
  case (2 old new r w)
  let ?w = "Base_destroy old (Base_move new old w)"
  have "objs (kern ?w) (snd m) = None" if "m \<in> set r" for m
  proof -
    have "objs (kern w) (snd m) = None" "snd m \<noteq> new" "snd m \<noteq> old"
      using 2(3,4) that by (auto simp: list_all_iff image_iff)
    then show ?thesis
      by (simp add: wire_defs objs_move objs_destroy split: option.splits)
  qed
  then have "list_all (\<lambda>m. objs (kern ?w) (snd m) = None) r"
    by (simp add: list_all_iff)
  moreover have "owned (kern ?w)"
    using 2(2,3) by (simp add: owned_wires)
  ultimately show ?case
    using 2(1,4) by simp
qed simp

section \<open>Properties\<close>

text \<open>
  C35. A growing list of backups keeps its connections: when the vector reallocates to take a
  newly accepted backup, every exchange, moved to its new place, still works on its own
  descriptor, in the same order, the new one works on the accepted descriptor, and no
  descriptor is closed or shared by the moves.
\<close>

theorem growing_backups_keep_connections:
  assumes "list_all2 (\<lambda>m d. wired w (fst m) d) moves ds" and "objs (kern w) sock = Some d"
    and "distinct (sock # new # map fst moves @ map snd moves)"
    and "owned (kern w)" and "list_all (\<lambda>m. objs (kern w) (snd m) = None) moves" and "objs (kern w) new = None"
  shows "map (fe_fd (emplace_backup moves new sock w)) (map snd moves @ [new]) = map Some (ds @ [d])
    \<and> owned (kern (emplace_backup moves new sock w))"
proof -
  let ?w = "Base_ctor new sock w"
  have sub: "sock \<notin> fst ` set moves" "new \<notin> fst ` set moves" "new \<notin> snd ` set moves" "sock \<notin> snd ` set moves" "new \<noteq> sock"
    using assms(3) by auto
  have "list_all2 (\<lambda>m d. wired ?w (fst m) d) moves ds"
    using assms(1) by (rule list.rel_mono_strong) (use sub in \<open>auto intro!: wired_ctor_other\<close>)
  then have "list_all2 (\<lambda>m d. wired (relocate moves ?w) (snd m) d) moves ds"
    by (rule relocate_wired) (use assms(3) in simp)
  then have "list_all2 (\<lambda>m d. fe_fd (relocate moves ?w) (snd m) = Some d) moves ds"
    by (rule list_all2_mono) (rule wired_fd)
  then have "map (\<lambda>m. fe_fd (relocate moves ?w) (snd m)) moves = map Some ds"
    by (simp add: list_all2_conv_all_nth list_eq_iff_nth_eq)
  moreover have "wired (relocate moves ?w) new d"
    using relocate_other [OF wired_ctor [OF assms(2)], of new moves] sub by simp
  moreover have "objs (kern ?w) (snd m) = None" if "m \<in> set moves" for m
  proof -
    have "snd m \<noteq> sock" "snd m \<noteq> new"
      using sub that by auto
    then show ?thesis
      using assms(5) that by (auto simp: list_all_iff wire_defs objs_move split: option.splits)
  qed
  then have "owned (kern (relocate moves ?w))"
    using assms(3) by (intro relocate_owned owned_wires assms) (auto simp: list_all_iff)
  ultimately show ?thesis
    by (simp add: emplace_backup_def wired_fd comp_def)
qed

text \<open>Two backups, on descriptors 5 and 6, move to make room for the one accepted as 7.\<close>

definition two_backups :: wires where
  "two_backups = \<lparr>kern = \<lparr>objs = [(0, Whole) \<mapsto> 5, (1, Whole) \<mapsto> 6, (9, Whole) \<mapsto> 7], fds = [5, 6, 7], bad_close = False\<rparr>,
     stream_ref = [(0, Whole) \<mapsto> (0, Whole), (1, Whole) \<mapsto> (1, Whole)],
     fe_ref = [(0, Whole) \<mapsto> (0, Whole), (1, Whole) \<mapsto> (1, Whole)]\<rparr>"

definition two_moves :: "(place \<times> place) list" where
  "two_moves = [((0, Whole), (2, Whole)), ((1, Whole), (3, Whole))]"

lemma two_backups_owned: "owned (kern two_backups)"
proof (rule ownedI)
  have objs: "objs (kern two_backups) (0, Whole) = Some 5" "objs (kern two_backups) (1, Whole) = Some 6"
    "objs (kern two_backups) (9, Whole) = Some 7" and fds: "fds (kern two_backups) = [5, 6, 7]"
    by (simp_all add: two_backups_def)
  fix s
  assume "s \<in> set (fds (kern two_backups))"
  then consider "s = 5" | "s = 6" | "s = 7"
    using fds by auto
  then show "\<exists>v. objs (kern two_backups) v = Some s"
    using objs by cases blast+
qed (auto simp: two_backups_def kInvalidSocket_def split: if_splits)

lemma two_backups_wired: "list_all2 (\<lambda>m d. wired two_backups (fst m) d) two_moves [5, 6]"
  by (simp add: two_moves_def two_backups_def wired_def)

lemma two_backups_objs: "objs (kern two_backups) = [(0, Whole) \<mapsto> 5, (1, Whole) \<mapsto> 6, (9, Whole) \<mapsto> 7]"
  by (simp add: two_backups_def)

theorem growing_backups_keep_connections_witness:
  "map (fe_fd (emplace_backup two_moves (4, Whole) (9, Whole) two_backups)) (map snd two_moves @ [(4, Whole)])
     = map Some ([5, 6] @ [7])"
  by (rule conjunct1 [OF growing_backups_keep_connections [OF two_backups_wired _ _ two_backups_owned]])
    (simp_all add: two_backups_objs two_moves_def)

text \<open>
  A new device is connected to the right sockets: after the constructor of a handler its
  payload exchange, its synchronisation exchange and its sender work on the three
  descriptors it was given, although the payload stream was built on another socket object
  and moved; and they still do when the objects it was built from are destroyed.
\<close>

theorem Handler_ctor_connects:
  assumes "objs (kern w) ps = Some d1" and "objs (kern w) cs = Some d2" and "objs (kern w) ss = Some d3"
    and "distinct [ps, cs, ss, (h, PayloadSlot), (h, ClientSyncSlot), (h, ServerSyncSlot)]"
    and "pst \<notin> {(h, PayloadSlot), (h, ClientSyncSlot), (h, ServerSyncSlot)}"
  shows "map (fe_fd (Base_destroy pst (Base_destroy ps (Base_destroy cs (Base_destroy ss
      (Handler_ctor h ps cs ss pst w)))))) [(h, PayloadSlot), (h, ClientSyncSlot), (h, ServerSyncSlot)]
    = [Some d1, Some d2, Some d3]"
proof -
  have ne: "ps \<noteq> cs" "ps \<noteq> ss" "cs \<noteq> ss" "cs \<noteq> ps" "ss \<noteq> ps" "ss \<noteq> cs"
    "\<And>k. k \<noteq> Whole \<Longrightarrow> (h, k) \<noteq> ps" "\<And>k. k \<noteq> Whole \<Longrightarrow> (h, k) \<noteq> cs" "\<And>k. k \<noteq> Whole \<Longrightarrow> (h, k) \<noteq> ss"
    "\<And>k. k \<noteq> Whole \<Longrightarrow> (h, k) \<noteq> pst"
    using assms(4,5) by (auto simp: all_slots)
  note ne' = ne(7-10) [THEN not_sym]
  show ?thesis
    using assms(1-3) by (simp add: Handler_ctor_def Let_def fe_fd_def wire_defs objs_move objs_destroy ne ne')
qed

definition three_sockets :: wires where
  "three_sockets = \<lparr>kern = \<lparr>objs = [(0, Whole) \<mapsto> 5, (1, Whole) \<mapsto> 6, (2, Whole) \<mapsto> 7], fds = [5, 6, 7], bad_close = False\<rparr>,
     stream_ref = [(0, Whole) \<mapsto> (0, Whole)], fe_ref = (\<lambda>_. None)\<rparr>"

theorem Handler_ctor_connects_witness:
  "fe_fd (Base_destroy (0, Whole) (Base_destroy (0, Whole) (Base_destroy (1, Whole) (Base_destroy (2, Whole)
     (Handler_ctor 3 (0, Whole) (1, Whole) (2, Whole) (0, Whole) three_sockets))))) (3, PayloadSlot) = Some 5"
  using Handler_ctor_connects [of three_sockets "(0, Whole)" 5 "(1, Whole)" 6 "(2, Whole)" 7 3 "(0, Whole)"]
  by (simp add: three_sockets_def)

text \<open>
  Moving a handler loses its connections: its move constructor does not point the two
  streams at the new object's sockets, so before the old handler is destroyed both
  exchanges work on an invalid descriptor, and afterwards they follow a reference to a
  destroyed object; only the sender, whose base class re-points its members, is intact.
\<close>

theorem Handler_move_dangles:
  assumes "wired w (old, PayloadSlot) d1" and "wired w (old, ClientSyncSlot) d2"
    and "wired w (old, ServerSyncSlot) d3" and "h \<noteq> old"
  shows "map (fe_fd (Handler_move h old w)) [(h, PayloadSlot), (h, ClientSyncSlot), (h, ServerSyncSlot)]
      = [Some kInvalidSocket, Some kInvalidSocket, Some d3]
    \<and> map (fe_fd (Handler_destroy old (Handler_move h old w))) [(h, PayloadSlot), (h, ClientSyncSlot), (h, ServerSyncSlot)]
      = [None, None, Some d3]"
  using assms
  by (auto simp: Handler_move_def Handler_destroy_def Let_def fe_fd_def wired_def wire_defs objs_move objs_destroy)

definition built_handler :: wires where
  "built_handler = Handler_ctor 3 (0, Whole) (1, Whole) (2, Whole) (0, Whole) three_sockets"

theorem Handler_move_dangles_witness:
  "fe_fd (Handler_destroy 3 (Handler_move 4 3 built_handler)) (4, PayloadSlot) = None"
  using Handler_move_dangles [of built_handler 3 5 6 7 4]
  by (simp add: built_handler_def three_sockets_def Handler_ctor_def Let_def wired_def wire_defs objs_move)

end
