(* ===== verification/Startup.thy ===== *)
theory Startup
  imports Prelude Commands SocketStream FileSystem Exchange Sockets Inotify Client Server
begin

text \<open>
  How the two programs start: the arguments and the signal handler of
  \<^verbatim>\<open>server/main.cpp\<close> and \<^verbatim>\<open>client/main.cpp\<close>, the constructor of
  \<^verbatim>\<open>Server\<close> with the thread that accepts the previous server of the ring.
\<close>

section \<open>Numbers in the arguments\<close>

definition isdigit :: "char \<Rightarrow> bool" where
  "isdigit c = (48 \<le> (of_char c :: nat) \<and> (of_char c :: nat) \<le> 57)"

definition dec :: "string \<Rightarrow> nat" where
  "dec = foldl (\<lambda>n c. 10 * n + (of_char c - 48)) 0"

definition EINVAL :: int where "EINVAL = 22"

definition ERANGE :: int where "ERANGE = 34"

text \<open>
  \<^verbatim>\<open>std::from_chars\<close> for an unsigned type below \<open>lim\<close>, in base ten: the longest
  prefix of digits; what follows it is not an error.
\<close>

definition from_chars :: "nat \<Rightarrow> string \<Rightarrow> int + nat" where
  "from_chars lim s =
     (let ds = takeWhile isdigit s
      in if ds = [] then Inl EINVAL
         else if dec ds < lim then Inr (dec ds) else Inl ERANGE)"

fun show_nat :: "nat \<Rightarrow> string" where
  "show_nat n = (if n < 10 then [char_of (48 + n)] else show_nat (n div 10) @ [char_of (48 + n mod 10)])"

declare show_nat.simps [simp del]

section \<open>The server program\<close>

text \<open>
  \<^verbatim>\<open>size_t\<close> has 64 bits, \<^verbatim>\<open>in_port_t\<close> 16. The constructor of \<^verbatim>\<open>Server\<close>
  reads \<^verbatim>\<open>servers_[addr_index_]\<close> for the ring: past the end this is undefined.
\<close>

datatype server_start =
    Usage
  | BadNumber int
  | NoSignals
  | NoConfig
  | Crash
  | OutOfRange nat
  | RingThrew ring_exn
  | Running control "ring_sock kernel"

definition Server_ctor :: "nat \<Rightarrow> addr list \<Rightarrow> int \<Rightarrow> bool \<Rightarrow> bool \<Rightarrow> bool \<Rightarrow> server_start" where
  "Server_ctor i as s bound listening timeout =
     (if i < length as
      then (case Ring s bound listening timeout \<lparr>objs = (\<lambda>_. None), fds = [], bad_close = False\<rparr> of
          (Inl e, _) \<Rightarrow> RingThrew e
        | (Inr _, k) \<Rightarrow> Running \<lparr>addr_index = i, servers = as, replica = None\<rparr> k)
      else OutOfRange i)"

definition server_main :: "string list \<Rightarrow> bool \<Rightarrow> toml \<Rightarrow> int \<Rightarrow> bool \<Rightarrow> bool \<Rightarrow> bool \<Rightarrow> server_start" where
  "server_main argv signals t s bound listening timeout =
     (if length argv \<noteq> 2 then Usage
      else case from_chars (2 ^ 64) (argv ! 1) of
        Inl e \<Rightarrow> BadNumber e
      | Inr i \<Rightarrow>
          (if \<not> signals then NoSignals
           else case ParseConfig t of
             ParseError \<Rightarrow> NoConfig
           | NullDereference \<Rightarrow> Crash
           | Servers as \<Rightarrow> Server_ctor i as s bound listening timeout))"

definition SIGINT :: int where "SIGINT = 2"

definition SIGTERM :: int where "SIGTERM = 15"

definition SignalHandler :: "int \<Rightarrow> bool \<Rightarrow> bool" where
  "SignalHandler sig should_stop = (if sig = SIGINT \<or> sig = SIGTERM then True else should_stop)"

text \<open>
  The thread that accepts the previous server: what each \<^verbatim>\<open>accept\<close> and the following
  \<^verbatim>\<open>setsockopt\<close> return, until the stop is requested. An exception ends the process.
\<close>

fun AcceptPrev_loop :: "(int \<times> bool) list \<Rightarrow> ring_sock kernel \<Rightarrow> (ring_exn + unit) \<times> ring_sock kernel" where
  "AcceptPrev_loop [] k = (Inr (), k)"
| "AcceptPrev_loop ((s, timeout) # r) k = (case AcceptPrev s timeout k of
     (Inl e, k1) \<Rightarrow> (Inl e, k1)
   | (Inr _, k1) \<Rightarrow> AcceptPrev_loop r k1)"

section \<open>The client program\<close>

datatype client_start =
    ClientUsage
  | BadPort int
  | ClientThrew int
  | Connected client fsys

definition client_main :: "codec \<Rightarrow> string list \<Rightarrow> (string \<Rightarrow> 16 word \<Rightarrow> nat \<Rightarrow> endpoint option) \<Rightarrow> fsys
    \<Rightarrow> client_start option" where
  "client_main C argv net fs =
     (if length argv \<noteq> 4 then Some ClientUsage
      else case from_chars (2 ^ 16) (argv ! 3) of
        Inl e \<Rightarrow> Some (BadPort e)
      | Inr p \<Rightarrow>
          (case Client C (argv ! 1) (net (argv ! 2) (htons (of_nat p))) fs of
             None \<Rightarrow> None
           | Some (Inl e, _) \<Rightarrow> Some (ClientThrew e)
           | Some (Inr c, fs') \<Rightarrow> Some (Connected (c\<lparr>watch := Watch_Start (watch c)\<rparr>) fs')))"

section \<open>Reading a number back\<close>

lemma isdigit_digit: "n < 10 \<Longrightarrow> isdigit (char_of (48 + n :: nat))"
  by (simp add: isdigit_def)

lemma show_nat_digits: "list_all isdigit (show_nat n) \<and> show_nat n \<noteq> []"
proof (induction n rule: show_nat.induct)
  case (1 n)
  then show ?case
    by (subst (1 2) show_nat.simps) (auto simp: isdigit_digit)
qed

lemma dec_snoc: "dec (ds @ [c]) = 10 * dec ds + (of_char c - 48)"
  by (simp add: dec_def)

lemma dec_show_nat: "dec (show_nat n) = n"
proof (induction n rule: show_nat.induct)
  case (1 n)
  show ?case
  proof (cases "n < 10")
    case True
    then show ?thesis
      by (subst show_nat.simps) (simp add: dec_def)
  next
    case False
    then have "dec (show_nat n) = 10 * dec (show_nat (n div 10)) + n mod 10"
      by (subst show_nat.simps) (simp add: dec_snoc)
    then show ?thesis
      using 1 False by simp
  qed
qed

lemma from_chars_prefix:
  assumes "rest = [] \<or> \<not> isdigit (hd rest)"
  shows "from_chars lim (show_nat n @ rest) = (if n < lim then Inr n else Inl ERANGE)"
proof -
  have "takeWhile isdigit (show_nat n @ rest) = show_nat n"
    using show_nat_digits [of n] assms by (cases rest) (simp_all add: list_all_iff takeWhile_append2)
  then show ?thesis
    using show_nat_digits [of n] by (simp add: from_chars_def dec_show_nat)
qed

section \<open>Accepting the previous server\<close>

text \<open>The kernel hands out descriptors that are not open at that moment.\<close>

fun fresh_accepts :: "(int \<times> bool) list \<Rightarrow> ring_sock kernel \<Rightarrow> bool" where
  "fresh_accepts [] k = True"
| "fresh_accepts ((s, timeout) # r) k = (s \<notin> set (fds k) \<and> fresh_accepts r (snd (AcceptPrev s timeout k)))"

fun current :: "int \<Rightarrow> (int \<times> bool) list \<Rightarrow> int" where
  "current old [] = old"
| "current old ((s, timeout) # r) =
     (if s = kInvalidSocket then current old r else if timeout then current s r else s)"

definition ring_ok :: "int \<Rightarrow> int set \<Rightarrow> ring_sock kernel \<Rightarrow> bool" where
  "ring_ok cur others k = (owned k \<and> objs k PrevSocket = Some cur \<and> objs k NewPrev = None
     \<and> set (fds k) - {cur} = others)"

lemma AcceptPrev_none:
  "objs k NewPrev = None \<Longrightarrow> AcceptPrev kInvalidSocket timeout k = (Inr False, k)"
  by (cases k) (auto simp: AcceptPrev_def Socket_adopt_def Socket_destroy_def os_open_def IsValid_def fun_eq_iff)

lemma AcceptPrev_ring_ok:
  assumes "ring_ok old others k" and "s \<notin> set (fds k)" and "s \<noteq> kInvalidSocket"
  shows "ring_ok s others (snd (AcceptPrev s timeout k))"
proof -
  note k = assms(1) [unfolded ring_ok_def]
  have "objs (snd (AcceptPrev s timeout k)) NewPrev = None"
    using assms(3) by (simp add: AcceptPrev_def Let_def Socket_destroy_def split: option.splits)
  moreover have "set (fds (snd (AcceptPrev s timeout k))) - {s} = others"
    using AcceptPrev_replaces [of k old s timeout] k assms(2,3) by auto
  ultimately show ?thesis
    using AcceptPrev_replaces [of k old s timeout] k assms(2,3) by (simp add: ring_ok_def)
qed

lemma AcceptPrev_loop_ok:
  assumes "ring_ok old others k" and "fresh_accepts r k"
  shows "ring_ok (current old r) others (snd (AcceptPrev_loop r k))"
  using assms
proof (induction r arbitrary: k old)
  case (Cons a r)
  obtain s timeout where a: "a = (s, timeout)"
    by fastforce
  let ?k = "snd (AcceptPrev s timeout k)"
  have prems: "ring_ok old others k" "s \<notin> set (fds k)" "fresh_accepts r ?k"
    using Cons.prems by (simp_all add: a)
  show ?case
  proof (cases "s = kInvalidSocket")
    case True
    then have none: "AcceptPrev s timeout k = (Inr False, k)"
      using prems(1) AcceptPrev_none by (simp add: ring_ok_def)
    then show ?thesis
      using Cons.IH [OF prems(1)] prems(3) True by (simp add: a)
  next
    case False
    have ok: "ring_ok s others ?k"
      using AcceptPrev_ring_ok [OF prems(1,2) False] .
    have shape: "AcceptPrev s timeout k = (if timeout then Inr True else Inl SetTimeoutException, ?k)"
      using False by (simp add: AcceptPrev_def Let_def)
    show ?thesis
      unfolding a AcceptPrev_loop.simps
      by (subst shape) (use Cons.IH [OF ok prems(3)] ok False in \<open>cases timeout; simp\<close>)
  qed
qed simp

section \<open>Properties\<close>

text \<open>
  A server starts under the index of its argument: with a readable configuration and a
  working ring socket, the decimal number at the start of the argument becomes its place in
  the list of servers, whatever text follows the number; a number past the end of the list is
  not rejected, and the constructor reads outside the list.
\<close>

theorem server_main_starts:
  assumes "rest = [] \<or> \<not> isdigit (hd rest)" and "i < 2 ^ 64"
    and "parse_servers 0 ts = Some as" and "s \<noteq> kInvalidSocket"
  shows "(\<exists>k. server_main [prog, show_nat i @ rest] True (Some (Some ts)) s True True True
        = Running \<lparr>addr_index = i, servers = as, replica = None\<rparr> k
      \<and> fds k = [s] \<and> objs k = [AcceptSocket \<mapsto> s, PrevSocket \<mapsto> kInvalidSocket, NextSocket \<mapsto> kInvalidSocket])
    \<or> length as \<le> i
      \<and> server_main [prog, show_nat i @ rest] True (Some (Some ts)) s True True True = OutOfRange i"
proof -
  have "from_chars (2 ^ 64) (show_nat i @ rest) = Inr i"
    using from_chars_prefix [OF assms(1)] assms(2) by simp
  then have "server_main [prog, show_nat i @ rest] True (Some (Some ts)) s True True True
      = Server_ctor i as s True True True"
    using assms(3) by (simp add: server_main_def ParseConfig_def)
  then show ?thesis
    using assms(4)
    by (auto simp: Server_ctor_def Ring_def Socket_create_def Socket_adopt_def os_open_def IsValid_def Let_def)
qed

theorem server_main_starts_witness:
  "server_main [''server'', show_nat 7 @ '' of 3''] True (Some (Some [(Some ''10.0.0.1'', Some 4000)])) 3 True True True
     = OutOfRange 7"
  using server_main_starts [of "'' of 3''" 7 "[(Some ''10.0.0.1'', Some 4000)]" "[Addr 0 ''10.0.0.1'' 4000]" 3 "''server''"]
  by (auto simp: isdigit_def kInvalidSocket_def server_main_def from_chars_prefix ParseConfig_def Server_ctor_def)

text \<open>
  A server has one previous neighbour: whatever connections the accepting thread is
  given, it keeps the last one that was valid and closes the one before, every other
  descriptor of the process stays as it was, and each open descriptor has one owner.
\<close>

theorem AcceptPrev_loop_keeps_last:
  assumes "owned k" and "objs k PrevSocket = Some old" and "objs k NewPrev = None" and "fresh_accepts r k"
  shows "owned (snd (AcceptPrev_loop r k)) \<and> objs (snd (AcceptPrev_loop r k)) PrevSocket = Some (current old r)
    \<and> set (fds (snd (AcceptPrev_loop r k))) - {current old r} = set (fds k) - {old}"
  using AcceptPrev_loop_ok [of old "set (fds k) - {old}" k r] assms by (simp add: ring_ok_def)

definition fresh_ring :: "ring_sock kernel" where
  "fresh_ring = snd (Ring 3 True True True \<lparr>objs = (\<lambda>_. None), fds = [], bad_close = False\<rparr>)"

lemma fresh_ring_simps:
  "objs fresh_ring = [AcceptSocket \<mapsto> 3, PrevSocket \<mapsto> kInvalidSocket, NextSocket \<mapsto> kInvalidSocket]"
  "fds fresh_ring = [3]" "bad_close fresh_ring = False"
  by (auto simp: fresh_ring_def Ring_def Socket_create_def Socket_adopt_def os_open_def IsValid_def kInvalidSocket_def)

lemma fresh_ring_owned: "owned fresh_ring"
  by (rule ownedI) (auto simp: fresh_ring_simps kInvalidSocket_def split: if_splits)

theorem AcceptPrev_loop_keeps_last_witness:
  "objs (snd (AcceptPrev_loop [(5, True), (kInvalidSocket, True), (6, True)] fresh_ring)) PrevSocket = Some 6"
  using AcceptPrev_loop_keeps_last [OF fresh_ring_owned, of kInvalidSocket "[(5, True), (kInvalidSocket, True), (6, True)]"]
  by (simp add: fresh_ring_simps AcceptPrev_def Socket_adopt_def Socket_assign_def Socket_destroy_def os_open_def
      os_close_def IsValid_def kInvalidSocket_def)

end
