(* ===== verification/Transitions.thy ===== *)
theory Transitions
  imports Main
begin

text \<open>
  What the models with many threads or processes share: the states that steps lead to, and
  the locales \<open>stable\<close> and \<open>invariant_of\<close>, the contract of a property that steps keep, and
  of one that also holds at the start, which each such model interprets with its own steps.
\<close>

inductive reaches :: "'s \<Rightarrow> ('s \<Rightarrow> 's \<Rightarrow> bool) \<Rightarrow> 's \<Rightarrow> bool" for s0 step where
  reaches_init: "reaches s0 step s0"
| reaches_step: "reaches s0 step s \<Longrightarrow> step s s' \<Longrightarrow> reaches s0 step s'"

lemma reaches_trans: "reaches s step t \<Longrightarrow> reaches s0 step s \<Longrightarrow> reaches s0 step t"
  by (induction rule: reaches.induct) (auto intro: reaches_step)

lemma reaches_power: "(step ^^ k) s0 s \<Longrightarrow> reaches s0 step s"
  by (induction k arbitrary: s) (auto intro: reaches_init reaches_step)

locale stable =
  fixes step :: "'s \<Rightarrow> 's \<Rightarrow> bool" and inv :: "'s \<Rightarrow> bool"
  assumes holds_step: "inv s \<Longrightarrow> step s s' \<Longrightarrow> inv s'"
begin

lemma holds_from: "reaches s step t \<Longrightarrow> inv s \<Longrightarrow> inv t"
  by (induction rule: reaches.induct) (auto intro: holds_step)

end

locale invariant_of = stable +
  fixes s0 :: 'a
  assumes holds_init: "inv s0"
begin

lemma holds: "reaches s0 step s \<Longrightarrow> inv s"
  using holds_from holds_init by blast

end

end
