(* ===== verification/Cluster.thy ===== *)
theory Cluster
  imports Prelude Transitions Election RingElection Sockets Replica Composite Primary Server
begin

text \<open>
  The servers together: what \<^verbatim>\<open>main\<close> and \<^verbatim>\<open>HandleElection\<close> of \<^verbatim>\<open>server/main.cpp\<close> and
  \<^verbatim>\<open>server/Server.cpp\<close> make of the election of a ring, the whole loop of \<^verbatim>\<open>main\<close>, and the
  election in which one server, the primary of a former one, takes no part.
\<close>

section \<open>The ring of the configuration\<close>

text \<open>The id of a server is its index in the configuration, cut to the width of an id.\<close>

definition config_ids :: "control list \<Rightarrow> nat \<Rightarrow> byte" where
  "config_ids cs i = GetId (cs ! i)"

definition cluster_ok :: "addr list \<Rightarrow> control list \<Rightarrow> bool" where
  "cluster_ok as cs = (length cs = length as
     \<and> (\<forall>i<length cs. addr_index (cs ! i) = i \<and> servers (cs ! i) = as \<and> replica (cs ! i) = None))"

lemma index_GetId: "addr_index c = i \<Longrightarrow> GetId c = of_nat i"
  by (simp add: GetId_def)

lemma cluster_GetId: "cluster_ok as cs \<Longrightarrow> i < length as \<Longrightarrow> GetId (cs ! i) = of_nat i"
  by (simp add: cluster_ok_def GetId_def)

lemma unat_id: "i < 256 \<Longrightarrow> unat (of_nat i :: byte) = i"
  by (simp add: unat_of_nat)

lemma indexed_cfg:
  assumes "\<And>i. i < m \<Longrightarrow> addr_index (cs ! i) = i" and "2 \<le> m" and "m \<le> 256"
  shows "ring_cfg m (config_ids cs) (m - 1)"
proof -
  have ids: "config_ids cs i = of_nat i" "unat (of_nat i :: byte) = i" if "i < m" for i
    using that index_GetId [OF assms(1)] assms(3) by (simp_all add: config_ids_def unat_id)
  have "inj_on (config_ids cs) {..<m}"
    by (rule inj_onI) (metis ids lessThan_iff)
  moreover have "config_ids cs j < config_ids cs (m - 1)" if "j < m" "j \<noteq> m - 1" for j
    using that ids [of j] ids [of "m - 1"] by (simp add: word_less_nat_alt)
  ultimately show ?thesis
    using assms(2) by (simp add: ring_cfg_def)
qed

lemma cluster_cfg:
  assumes "cluster_ok as cs" and "2 \<le> length as" and "length as \<le> 256"
  shows "ring_cfg (length as) (config_ids cs) (length as - 1)"
  using indexed_cfg [OF _ assms(2,3), of cs] assms(1) by (simp add: cluster_ok_def)

section \<open>An election without one of the servers\<close>

text \<open>
  The steps of a ring in which server \<open>p\<close> is not in \<^verbatim>\<open>PerformElection\<close>: its connections
  stand, and the other servers send to it, but it neither starts nor replies.
\<close>

inductive absent_step :: "nat \<Rightarrow> (nat \<Rightarrow> byte) \<Rightarrow> nat \<Rightarrow> ring \<Rightarrow> ring \<Rightarrow> bool" for n ids p where
  starts: "i < n \<Longrightarrow> i \<noteq> p \<Longrightarrow> phase s i = Idle \<Longrightarrow> absent_step n ids p s (start_server ids i s)"
| replies: "c < n \<Longrightarrow> next_in n c \<noteq> p \<Longrightarrow> phase s (next_in n c) = Running \<Longrightarrow> chan s c \<noteq> [] \<Longrightarrow>
    absent_step n ids p s (reply_server n ids c s)"

inductive_simps no_absent_step: "absent_step n ids p s s'"

lemma absent_is_step: "absent_step n ids p s s' \<Longrightarrow> ring_step n ids s s'"
  by (induction rule: absent_step.induct) (auto intro: ring_step.intros)

text \<open>
  Every candidate underway comes from a server between the absent one and the place it has
  reached, and nothing was elected.
\<close>

definition sent_by :: "nat \<Rightarrow> (nat \<Rightarrow> byte) \<Rightarrow> nat \<Rightarrow> nat \<Rightarrow> ElectionData \<Rightarrow> bool" where
  "sent_by n ids p c m = (\<exists>k<n. m = underway (ids k) \<and> pos n p k \<le> pos n p c)"

definition behind :: "nat \<Rightarrow> (nat \<Rightarrow> byte) \<Rightarrow> nat \<Rightarrow> ring \<Rightarrow> bool" where
  "behind n ids p s = (undecided n s \<and> phase s p = Idle \<and> chan s p = []
     \<and> (\<forall>c<n. \<forall>m\<in>set (chan s c). sent_by n ids p c m))"

lemma behind_start:
  assumes "behind n ids p s" and "i < n" and "i \<noteq> p"
  shows "behind n ids p (start_server ids i s)"
  using assms undecided_start [of n s ids i] by (auto simp: behind_def start_server_def sent_by_def)

lemma behind_reply:
  assumes "ring_cfg n ids M" and "p < n" and "behind n ids p s" and "c < n" and "next_in n c \<noteq> p"
    and "phase s (next_in n c) = Running" and "chan s c \<noteq> []"
  shows "behind n ids p (reply_server n ids c s)"
proof -
  note cfg = ring_cfgD [OF assms(1)]
  let ?i = "next_in n c"
  have und: "undecided n s"
    using assms(3) by (simp add: behind_def)
  have i: "?i < n" "?i \<noteq> c" "pos n p ?i = Suc (pos n p c)"
    using next_less [OF cfg(2)] next_neq [OF cfg(1) assms(4)] pos_next [OF assms(2,4,5)] by auto
  have st: "started s ?i"
    using undecided_started [OF und i(1) assms(6)] .
  obtain m ms where ch: "chan s c = m # ms"
    using assms(7) by (auto simp: neq_Nil_conv)
  have by_of: "\<forall>m\<in>set (chan s c). sent_by n ids p c m" "\<forall>m\<in>set (chan s ?i). sent_by n ids p ?i m"
    using assms(3,4) i(1) unfolding behind_def by blast+
  obtain k where k: "k < n" "m = underway (ids k)" "pos n p k \<le> pos n p c"
    using ch by_of(1) by (auto simp: sent_by_def)
  have fwd: "sent_by n ids p ?i (underway (ids k))"
    using k(1,3) i(3) unfolding sent_by_def by (intro exI [of _ k]) simp
  have "k \<noteq> ?i"
    using k(3) i(3) by auto
  then have neq: "ids k \<noteq> ids ?i"
    using cfg(5) [OF k(1) i(1)] by simp
  have cp: "c \<noteq> p"
    using ch assms(3) by (auto simp: behind_def)
  have und_drop: "undecided n (s\<lparr>chan := (chan s)(c := ms)\<rparr>)"
    using und ch assms(4) by (auto simp: undecided_def)
  have und_fwd: "undecided n (s\<lparr>chan := (chan s)(c := ms, ?i := chan s ?i @ [underway (ids k)])\<rparr>)"
    using und ch assms(4) i(1) by (auto simp: undecided_def)
  show ?thesis
  proof (cases "ids k < ids ?i")
    case True
    then have "reply_server n ids c s = s\<lparr>chan := (chan s)(c := ms)\<rparr>"
      using reply_drop assms(6) st ch k(2) by blast
    then show ?thesis
      using assms(3) und_drop cp by_of ch by (auto simp: behind_def)
  next
    case False
    then have "reply_server n ids c s
        = s\<lparr>chan := (chan s)(c := ms, ?i := chan s ?i @ [underway (ids k)])\<rparr>"
      using reply_forward assms(6) st ch k(2) i(2) neq by fastforce
    then show ?thesis
      using assms(3,5) und_fwd cp by_of ch fwd by (auto simp: behind_def)
  qed
qed

section \<open>The loop of main\<close>

text \<open>What a server finds in a turn of the loop: the parameters of \<open>main_turn\<close> and \<open>HandleElection\<close>.\<close>

record turn_env =
  next_stands :: bool
  reachable :: "nat \<Rightarrow> bool"
  prev_polls :: "nat \<Rightarrow> bool"
  ring_result :: "Error + byte"
  built_primary :: "primary_exn + srv"
  served :: "srv \<Rightarrow> srv option"
  network :: "nat \<Rightarrow> addr \<Rightarrow> endpoint option"
  sock_opts :: "KeepAliveError \<Rightarrow> int \<Rightarrow> int option"
  shutdown_seen :: "nat \<Rightarrow> bool"

definition handle_in :: "codec \<Rightarrow> turn_env \<Rightarrow> byte \<Rightarrow> control \<Rightarrow> fsys \<Rightarrow> ((server_exn + MainLoopReply) \<times> control \<times> fsys) option" where
  "handle_in C v = HandleElection C (built_primary v) (served v) (network v) (sock_opts v) (shutdown_seen v)"

definition turn_in :: "codec \<Rightarrow> turn_env \<Rightarrow> nat \<Rightarrow> MainLoopReply option \<Rightarrow> control \<Rightarrow> fsys
    \<Rightarrow> (turn_end \<times> nat \<times> MainLoopReply option \<times> control \<times> fsys) option" where
  "turn_in C v = main_turn (next_stands v) (reachable v) (prev_polls v) (ring_result v) (handle_in C v)"

text \<open>
  The loop of \<^verbatim>\<open>main\<close> from turn \<open>k\<close> on; the result says how and in which turn it was left.
\<close>

partial_function (option) main_loop :: "codec \<Rightarrow> (nat \<Rightarrow> turn_env) \<Rightarrow> nat \<Rightarrow> nat \<Rightarrow> MainLoopReply option
    \<Rightarrow> control \<Rightarrow> fsys \<Rightarrow> (turn_end \<times> nat \<times> nat \<times> control \<times> fsys) option" where
  "main_loop C env k offset r c fs =
     (case turn_in C (env k) offset r c fs of
        None \<Rightarrow> None
      | Some (e, offset', r', c', fs') \<Rightarrow>
          if e = Again then main_loop C env (k + 1) offset' r' c' fs' else Some (e, k, offset', c', fs'))"

declare main_loop.simps [code]

definition run_main :: "codec \<Rightarrow> (nat \<Rightarrow> turn_env) \<Rightarrow> control \<Rightarrow> fsys \<Rightarrow> (turn_end \<times> nat \<times> nat \<times> control \<times> fsys) option" where
  "run_main C env c fs = main_loop C env 0 1 None c fs"

lemma main_loop_again:
  "turn_in C (env k) offset r c fs = Some (Again, offset', r', c', fs')
    \<Longrightarrow> main_loop C env k offset r c fs = main_loop C env (k + 1) offset' r' c' fs'"
  by (subst main_loop.simps) simp

lemma main_loop_left:
  "turn_in C (env k) offset r c fs = Some (e, offset', r', c', fs') \<Longrightarrow> e \<noteq> Again
    \<Longrightarrow> main_loop C env k offset r c fs = Some (e, k, offset', c', fs')"
  by (subst main_loop.simps) simp

section \<open>Roles\<close>

lemma ConnectToPrimary_addr: "primary_addr (snd (ConnectToPrimary f b)) = primary_addr b"
  by (simp add: ConnectToPrimary_def split: option.split)

lemma connect_loop_addr: "connect_loop net i b = Some b' \<Longrightarrow> primary_addr b' = primary_addr b"
proof (erule connect_loop.raw_induct [where P = "\<lambda>net i b b'. primary_addr b' = primary_addr b", rotated], goal_cases)
  case (1 loop net i b b')
  show ?case
  proof (cases "ConnectToPrimary (net i) b")
    case (Pair ok b1)
    then have "primary_addr b1 = primary_addr b"
      using ConnectToPrimary_addr [of "net i" b] by simp
    then show ?thesis
      using 1 Pair by (cases ok) auto
  qed
qed

lemma Backup_addr: "Backup net so a = Some (Inr b) \<Longrightarrow> primary_addr b = a"
  by (auto simp: Backup_def dest: connect_loop_addr split: option.splits)

lemma Backup_MainLoop_addr: "Backup_MainLoop C sd b fs = Some (r, b', fs') \<Longrightarrow> primary_addr b' = primary_addr b"
  by (auto simp: Backup_MainLoop_def split: option.splits)

text \<open>A server that won, and one that lost its first election.\<close>

lemma HandleElection_winner:
  assumes "built = Inr s" and "serve (Primary_SetServers (servers c) s) = Some s'"
  shows "HandleElection C built serve net so sd (GetId c) c fs
    = Some (Inr kShutdown, c\<lparr>replica := Some (PrimaryRole s')\<rparr>, sfs s')"
  using assms by (simp add: HandleElection_def Server_SetServers_def Let_def)

lemma HandleElection_loser:
  assumes "i \<noteq> GetId c" and "replica c = None" and "Backup net so (SetPort kBackupPort (servers c ! unat i)) = Some (Inr b)"
    and "Backup_MainLoop C sd b fs = Some (Inr r, b', fs')"
  shows "HandleElection C built serve net so sd i c fs = Some (Inr r, c\<lparr>replica := Some (BackupRole b')\<rparr>, fs')
    \<and> primary_addr b' = SetPort kBackupPort (servers c ! unat i)"
  using assms Backup_addr [OF assms(3)] Backup_MainLoop_addr [OF assms(4)]
  by (simp add: HandleElection_def run_backup_def Let_def)

section \<open>Invariants\<close>

interpretation absent: invariant_of "absent_step n ids p"
    "\<lambda>s. ring_cfg n ids M \<and> p < n \<longrightarrow> behind n ids p s" init_ring for n ids p M
proof unfold_locales
  show "ring_cfg n ids M \<and> p < n \<longrightarrow> behind n ids p init_ring"
    by (simp add: behind_def undecided_def init_ring_def)
next
  fix s s'
  assume "ring_cfg n ids M \<and> p < n \<longrightarrow> behind n ids p s" and "absent_step n ids p s s'"
  then show "ring_cfg n ids M \<and> p < n \<longrightarrow> behind n ids p s'"
    by (auto simp: no_absent_step intro: behind_start behind_reply)
qed

lemma absent_run_ring: "(absent_step n ids p ^^ k) init_ring s \<Longrightarrow> (ring_step n ids ^^ k) init_ring s"
  by (induction k arbitrary: s) (auto intro: absent_is_step)

section \<open>A backup that has lost its primary\<close>

text \<open>A turn of the loop in which such a backup takes part in an election and does not win it.\<close>

definition futile :: "control \<Rightarrow> turn_env \<Rightarrow> bool" where
  "futile c v = (next_stands v \<and> prev_polls v 0 \<and> \<not> shutdown_seen v 0
     \<and> (\<exists>i. ring_result v = Inr i \<and> i \<noteq> GetId c))"

definition orphan :: "control \<Rightarrow> bool" where
  "orphan c = (\<exists>b. replica c = Some (BackupRole b) \<and> connected b \<and> sound (strm (exchange_s b))
     \<and> incoming (strm (exchange_s b)) = [])"

definition primary_of :: "control \<Rightarrow> addr option" where
  "primary_of c = (case replica c of Some (BackupRole b) \<Rightarrow> Some (primary_addr b) | _ \<Rightarrow> None)"

text \<open>
  A server whose offset has come to a multiple of the number of servers when its connection
  is gone makes itself the primary.
\<close>

definition self_elected :: "control \<Rightarrow> nat \<Rightarrow> turn_env \<Rightarrow> bool" where
  "self_elected c offset v = (\<not> next_stands v \<and> offset mod length (servers c) = 0)"

lemma orphan_turn:
  assumes "codec_ok C" and "orphan c" and "futile c v"
  obtains c' where "turn_in C v offset r c fs = Some (Again, offset + 1, Some kLostConnectionToPrimary, c', fs)"
    and "orphan c'" and "addr_index c' = addr_index c" and "servers c' = servers c"
    and "\<forall>i. ring_result v = Inr i \<longrightarrow> primary_of c' = Some (SetPort kBackupPort (servers c ! unat i))"
proof -
  obtain b where b: "replica c = Some (BackupRole b)" "connected b" "sound (strm (exchange_s b))"
    "incoming (strm (exchange_s b)) = []"
    using assms(2) by (auto simp: orphan_def)
  obtain i where v: "next_stands v" "prev_polls v 0" "\<not> shutdown_seen v 0" "ring_result v = Inr i" "i \<noteq> GetId c"
    using assms(3) by (auto simp: futile_def)
  let ?b = "SetPrimaryAddr (SetPort kBackupPort (servers c ! unat i)) b"
  have strm: "strm (exchange_s ?b) = strm (exchange_s b)" "exchange_s ?b = exchange_s b" "connected ?b"
    using b(2) by (simp_all add: SetPrimaryAddr_def)
  show thesis
  proof (rule ReceiveCommand_closed [OF assms(1) b(3,4)])
    fix s'
    assume s': "ReceiveCommand C (exchange_s b) = (Inl ECONNABORTED, exchange_s b\<lparr>strm := s'\<rparr>)"
      and "took [] (strm (exchange_s b)) s'"
    then have s'': "sound s'" "incoming s' = []"
      by (simp_all add: took_def)
    let ?b' = "?b\<lparr>exchange_s := exchange_s b\<lparr>strm := s'\<rparr>\<rparr>"
    let ?c' = "c\<lparr>replica := Some (BackupRole ?b')\<rparr>"
    have "Backup_loop C (shutdown_seen v) 0 (exchange_s b) fs
        = Some (Inr kLostConnectionToPrimary, exchange_s b\<lparr>strm := s'\<rparr>, fs)"
      using s' v(3) by (simp add: Backup_loop.simps [of C "shutdown_seen v" 0])
    then have "handle_in C v i c fs = Some (Inr kLostConnectionToPrimary, ?c', fs)"
      using b(1) v(5) strm by (simp add: handle_in_def HandleElection_def run_backup_def Backup_MainLoop_def
          ConnectToPrimary_def Let_def)
    moreover have "await_prev (prev_polls v) 0 = Some 0"
      using v(2) by (subst await_prev.simps) simp
    ultimately have "turn_in C v offset r c fs = Some (Again, offset + 1, Some kLostConnectionToPrimary, ?c', fs)"
      using v(1,4) by (simp add: turn_in_def main_turn_def loop_condition_def)
    moreover have "orphan ?c'"
      using s'' strm(3) by (simp add: orphan_def)
    moreover have "primary_of ?c' = Some (SetPort kBackupPort (servers c ! unat i))"
      by (simp add: primary_of_def SetPrimaryAddr_def)
    ultimately show thesis
      using that v(4) by simp
  qed
qed

lemma self_elected_turn:
  assumes "addr_index c < length (servers c)" and "self_elected c offset v"
    and "built_primary v = Inr s" and "served v (Primary_SetServers (servers c) s) = Some s'"
  shows "turn_in C v offset r c fs
    = Some (Leave, offset, Some kShutdown, c\<lparr>replica := Some (PrimaryRole s')\<rparr>, sfs s')"
  using assms ConnectNext_find [OF assms(1), of "reachable v" offset] 
    HandleElection_winner [where built = "built_primary v" and serve = "served v" and c = c, OF assms(3,4)]
  by (simp add: self_elected_def turn_in_def main_turn_def handle_in_def loop_condition_def)

section \<open>The servers that are left\<close>

text \<open>
  The first \<open>m\<close> servers of the configuration are left: the last of them has lost its
  neighbour, the others have not, and an election among them has gone as \<open>s\<close> says.
\<close>

definition survivors :: "addr list \<Rightarrow> control list \<Rightarrow> nat \<Rightarrow> bool" where
  "survivors as cs m = (2 \<le> m \<and> m < length as \<and> length as \<le> 256
     \<and> (\<forall>i<m. addr_index (cs ! i) = i \<and> servers (cs ! i) = as \<and> orphan (cs ! i)))"

definition survivor_env :: "nat \<Rightarrow> ring \<Rightarrow> nat \<Rightarrow> turn_env \<Rightarrow> bool" where
  "survivor_env m s i v = ((next_stands v \<longleftrightarrow> i \<noteq> m - 1) \<and> reachable v 0 \<and> prev_polls v 0
     \<and> \<not> shutdown_seen v 0 \<and> (\<forall>w. phase s i = Done w \<longrightarrow> ring_result v = Inr w))"

lemma survivors_cfg: "survivors as cs m \<Longrightarrow> ring_cfg m (config_ids cs) (m - 1)"
  by (rule indexed_cfg) (auto simp: survivors_def)

lemma survivors_GetId:
  assumes "survivors as cs m" and "i < m"
  shows "GetId (cs ! i) = of_nat i" and "config_ids cs i = of_nat i" and "unat (of_nat i :: byte) = i"
    and "of_nat (m - 1) = GetId (cs ! i) \<longleftrightarrow> i = m - 1"
proof -
  have m: "m - 1 < 256" "i < 256"
    using assms by (auto simp: survivors_def)
  then show "GetId (cs ! i) = of_nat i" "config_ids cs i = of_nat i" "unat (of_nat i :: byte) = i"
    using assms by (simp_all add: survivors_def config_ids_def GetId_def unat_id)
  then show "of_nat (m - 1) = GetId (cs ! i) \<longleftrightarrow> i = m - 1"
    using unat_id [OF m(1)] by metis
qed

text \<open>One more server is skipped for each one that was lost, which leads to the first.\<close>

lemma skip_lost:
  assumes "survivors as cs m" and "up 0"
  shows "ConnectNext up (length as - m + 1) (cs ! (m - 1)) = Some (Some 0)"
proof -
  let ?n = "length as" and ?o = "length as - m + 1"
  have s: "2 \<le> m" "m < ?n" "addr_index (cs ! (m - 1)) = m - 1" "servers (cs ! (m - 1)) = as"
    using assms(1) by (auto simp: survivors_def)
  then have "m - 1 + ?o = ?n"
    by linarith
  then have o: "?o mod ?n = ?o" "0 < ?o" "?o < ?n" "(m - 1 + ?o) mod ?n = 0"
    using s(1,2) by simp_all
  then have "[?o..<?n] = ?o # [Suc ?o..<?n]"
    by (simp add: upt_conv_Cons)
  then show ?thesis
    using ConnectNext_find [of "cs ! (m - 1)" up ?o] s o assms(2) by simp
qed

section \<open>Samples\<close>

text \<open>Two servers, the run of their ring, and what a server of three finds in two turns.\<close>

definition sample_addrs :: "addr list" where
  "sample_addrs = [Addr 0 ''10.0.0.1'' 9, Addr 1 ''10.0.0.2'' 9]"

definition sample_cluster :: "control list" where
  "sample_cluster = [\<lparr>addr_index = 0, servers = sample_addrs, replica = None\<rparr>,
     \<lparr>addr_index = 1, servers = sample_addrs, replica = None\<rparr>]"

lemma sample_cluster_ok: "cluster_ok sample_addrs sample_cluster"
  by (simp add: cluster_ok_def sample_cluster_def sample_addrs_def less_Suc_eq)

lemma ring_step_ids:
  assumes "ring_step n ids s s'" and "\<And>i. i < n \<Longrightarrow> ids i = ids' i"
  shows "ring_step n ids' s s'"
  using assms(1)
proof (cases rule: ring_stepE)
  case (start i)
  then have "start_server ids i s = start_server ids' i s"
    using assms(2) by (simp add: start_server_def)
  then show ?thesis
    using start ring_step.start [of i n s ids'] by simp
next
  case (reply c m ms)
  then have "ids (next_in n c) = ids' (next_in n c)"
    using assms(2) [of "next_in n c"] by simp
  then have "reply_server n ids c s = reply_server n ids' c s"
    by (simp only: reply_server_def Let_def)
  then show ?thesis
    using reply ring_step.reply [of c n s ids'] by simp
qed

lemma sample_cluster_ids: "i < 2 \<Longrightarrow> sample_ids i = config_ids sample_cluster i"
  by (auto simp: sample_ids_def config_ids_def GetId_def sample_cluster_def less_2_cases_iff)

lemma ring_reach_ids: "ring_reach n ids s \<Longrightarrow> (\<And>i. i < n \<Longrightarrow> ids i = ids' i) \<Longrightarrow> ring_reach n ids' s"
proof (induction rule: ring_reach.induct)
  case (step s s')
  then show ?case
    using ring_step_ids [of n ids s s' ids'] ring_reach.step [of n ids' s s'] by blast
qed (rule ring_reach.init)

lemma sample_end_final: "\<not> ring_step 2 sample_ids sample_end s'"
  using sample_end_phase by (auto elim!: ring_stepE simp: less_2_cases_iff)

definition sample_env :: "nat \<Rightarrow> turn_env" where
  "sample_env k = \<lparr>next_stands = (k = 0), reachable = (\<lambda>_. True), prev_polls = (\<lambda>_. True), ring_result = Inr 2,
     built_primary = Inr empty_srv, served = Some, network = (\<lambda>_ _. Some silent), sock_opts = (\<lambda>_ _. None),
     shutdown_seen = (\<lambda>_. False)\<rparr>"

definition sample_orphan :: control where
  "sample_orphan = sample_control\<lparr>replica := Some (BackupRole (sample_backup []))\<rparr>"

text \<open>The two servers left of three, and what they find.\<close>

definition sample_left :: "control list" where
  "sample_left = [sample_orphan, sample_orphan\<lparr>addr_index := 1\<rparr>]"

definition sample_left_env :: "nat \<Rightarrow> turn_env" where
  "sample_left_env i = (sample_env i)\<lparr>ring_result := Inr 1\<rparr>"

lemma sample_left_ok: "survivors (servers sample_orphan) sample_left 2"
  by (auto simp: survivors_def sample_left_def sample_orphan_def sample_control_def orphan_def sample_backup_def
      less_2_cases_iff)

lemma sample_left_ids: "i < 2 \<Longrightarrow> sample_ids i = config_ids sample_left i"
  by (auto simp: sample_ids_def config_ids_def GetId_def sample_left_def sample_orphan_def sample_control_def
      less_2_cases_iff)

section \<open>Properties\<close>

text \<open>
  C8. The servers of a configuration with up to 256 entries agree on their roles: when their
  election is over, whatever its course, the last server of the configuration takes the role
  of the primary, with the list of all servers, and every other one becomes a backup of that
  server's address and backup port.
\<close>

theorem election_assigns_roles:
  assumes "cluster_ok as cs" and "2 \<le> length as" and "length as \<le> 256"
    and "ring_reach (length as) (config_ids cs) s" and "\<And>s'. \<not> ring_step (length as) (config_ids cs) s s'"
    and "built = Inr p" and "serve (Primary_SetServers as p) = Some p'"
    and "\<And>i. i < length as - 1 \<Longrightarrow> Backup (net i) so (SetPort kBackupPort (as ! (length as - 1))) = Some (Inr (b i))"
    and "\<And>i. i < length as - 1 \<Longrightarrow> Backup_MainLoop C sd (b i) (fs i) = Some (Inr (r i), b' i, fs' i)"
  shows "\<exists>w. (\<forall>i<length as. phase s i = Done w)
    \<and> HandleElection C built serve (net (length as - 1)) so sd w (cs ! (length as - 1)) (fs (length as - 1))
        = Some (Inr kShutdown, (cs ! (length as - 1))\<lparr>replica := Some (PrimaryRole p')\<rparr>, sfs p')
    \<and> (\<forall>i<length as - 1. HandleElection C built serve (net i) so sd w (cs ! i) (fs i)
        = Some (Inr (r i), (cs ! i)\<lparr>replica := Some (BackupRole (b' i))\<rparr>, fs' i)
      \<and> primary_addr (b' i) = SetPort kBackupPort (as ! (length as - 1)))"
proof -
  let ?m = "length as - 1" and ?w = "of_nat (length as - 1) :: byte"
  note ok = assms(1) [unfolded cluster_ok_def]
  have m: "?m < length as" "unat ?w = ?m" "config_ids cs ?m = ?w" "GetId (cs ! ?m) = ?w"
    using assms(2) cluster_GetId [OF assms(1), of ?m] unat_id [of ?m] assms(3)
    unfolding config_ids_def by linarith+
  have "\<forall>i<length as. phase s i = Done ?w"
    using election_finished [OF cluster_cfg [OF assms(1-3)] assms(4,5)] m(3) by simp
  moreover have "HandleElection C built serve (net ?m) so sd ?w (cs ! ?m) (fs ?m)
        = Some (Inr kShutdown, (cs ! ?m)\<lparr>replica := Some (PrimaryRole p')\<rparr>, sfs p')"
    using HandleElection_winner [OF assms(6), of serve "cs ! ?m" p'] assms(7) ok m(1,4) by simp
  moreover have "HandleElection C built serve (net i) so sd ?w (cs ! i) (fs i)
        = Some (Inr (r i), (cs ! i)\<lparr>replica := Some (BackupRole (b' i))\<rparr>, fs' i)
      \<and> primary_addr (b' i) = SetPort kBackupPort (as ! ?m)" if i: "i < ?m" for i
  proof -
    have "unat (GetId (cs ! i)) = i"
      using cluster_GetId [OF assms(1), of i] i assms(3) by (simp add: unat_id)
    then have "?w \<noteq> GetId (cs ! i)"
      using m(2) i by auto
    moreover have "servers (cs ! i) = as" "replica (cs ! i) = None"
      using ok i by auto
    ultimately show ?thesis
      using HandleElection_loser [of ?w "cs ! i" "net i" so "b i" C sd "fs i" "r i" "b' i" "fs' i"]
        assms(8,9) [OF i] m(2) by simp
  qed
  ultimately show ?thesis
    by blast
qed

theorem election_assigns_roles_witness:
  "\<exists>w b. HandleElection pb_codec (Inr empty_srv) Some (\<lambda>_ _. Some silent) (\<lambda>_ _. None) (\<lambda>_. True) w
      (sample_cluster ! 0) sample_fs
      = Some (Inr kShutdown, (sample_cluster ! 0)\<lparr>replica := Some (BackupRole b)\<rparr>, sample_fs)
    \<and> primary_addr b = SetPort kBackupPort (sample_addrs ! 1)"
proof -
  have n: "length sample_addrs = 2"
    by (simp add: sample_addrs_def)
  have reach: "ring_reach (length sample_addrs) (config_ids sample_cluster) sample_end"
    unfolding n using ring_reach_ids [OF sample_reach sample_cluster_ids] .
  have final: "\<not> ring_step (length sample_addrs) (config_ids sample_cluster) sample_end s'" for s'
    unfolding n using sample_end_final [of s']
      ring_step_ids [of 2 "config_ids sample_cluster" sample_end s' sample_ids, OF _ sample_cluster_ids [symmetric]] by blast
  let ?a = "SetPort kBackupPort (sample_addrs ! 1)"
  have "\<exists>b. Backup (\<lambda>_ _. Some silent) (\<lambda>_ _. None) ?a = Some (Inr b)"
    by (simp add: Backup_def connect_loop.simps [of _ 0] ConnectToPrimary_def SetKeepalive_def keepalive_steps_def)
  then obtain b where b: "Backup (\<lambda>_ _. Some silent) (\<lambda>_ _. None) ?a = Some (Inr b)"
    by blast
  have "Backup_MainLoop pb_codec (\<lambda>_. True) b sample_fs = Some (Inr kShutdown, b, sample_fs)"
    by (simp add: Backup_MainLoop_def Backup_loop.simps [of pb_codec _ 0])
  then show ?thesis
    using election_assigns_roles [OF sample_cluster_ok _ _ reach final, where built = "Inr empty_srv" and p = empty_srv
        and serve = Some and p' = "Primary_SetServers sample_addrs empty_srv" and net = "\<lambda>_ _ _. Some silent"
        and so = "\<lambda>_ _. None" and b = "\<lambda>_. b" and C = pb_codec and sd = "\<lambda>_. True" and fs = "\<lambda>_. sample_fs"
        and r = "\<lambda>_. kShutdown" and b' = "\<lambda>_. b" and fs' = "\<lambda>_. sample_fs"] b n by auto
qed

text \<open>
  C31. A server that is in the ring but not in its election blocks it: after a failover the
  new primary serves its clients while a backup that could not follow it goes back to
  \<^verbatim>\<open>PerformElection\<close>. The others exchange a bounded number of messages and then wait for
  ever in \<^verbatim>\<open>ReplyElection\<close>; no one returns a winner.
\<close>

theorem absent_server_blocks_election:
  assumes "ring_cfg n ids M" and "p < n" and "(absent_step n ids p ^^ k) init_ring s"
  shows "k \<le> n * (2 * n + 1) \<and> (\<forall>i<n. \<forall>w. phase s i \<noteq> Done w)
    \<and> ((\<forall>s'. \<not> absent_step n ids p s s') \<longrightarrow> (\<forall>i<n. i \<noteq> p \<longrightarrow> phase s i = Running))"
proof -
  have "behind n ids p s"
    using absent.holds [OF reaches_power [OF assms(3)]] assms(1,2) by blast
  then have und: "undecided n s"
    by (simp add: behind_def)
  have "k + hops_left n ids s \<le> hops_left n ids init_ring"
    using hops_run [OF absent_run_ring [OF assms(3)] assms(1)] by blast
  moreover have "\<forall>i<n. \<forall>w. phase s i \<noteq> Done w"
    using und by (auto simp: undecided_def)
  moreover have "phase s i = Running" if "\<forall>s'. \<not> absent_step n ids p s s'" "i < n" "i \<noteq> p" for i
    using that starts [of i n p s ids] und by (auto simp: undecided_def)
  ultimately show ?thesis
    by (auto simp: hops_init)
qed

text \<open>Three servers, the last of them absent: the second drops the id of the first, and both wait.\<close>

definition blocked_end :: ring where
  "blocked_end = reply_server 3 sample_ids 0 (start_server sample_ids 1 (start_server sample_ids 0 init_ring))"

lemma blocked_run: "(absent_step 3 sample_ids 2 ^^ 3) init_ring blocked_end"
proof -
  let ?a = "start_server sample_ids 0 init_ring"
  have "absent_step 3 sample_ids 2 init_ring ?a"
    by (rule starts) (simp_all add: init_ring_def)
  moreover have "absent_step 3 sample_ids 2 ?a (start_server sample_ids 1 ?a)"
    by (rule starts) (simp_all add: sample_defs)
  moreover have "absent_step 3 sample_ids 2 (start_server sample_ids 1 ?a) blocked_end"
    unfolding blocked_end_def by (rule replies) (auto simp: sample_defs)
  ultimately show ?thesis
    by (auto simp: numeral_eq_Suc intro!: relcomppI)
qed

lemma blocked_end_state:
  "phase blocked_end 0 = Running" "phase blocked_end (Suc 0) = Running"
  "chan blocked_end 0 = []" "chan blocked_end 2 = []"
  by (simp_all add: blocked_end_def sample_defs)

lemma blocked_stuck: "\<not> absent_step 3 sample_ids 2 blocked_end s'"
proof
  assume "absent_step 3 sample_ids 2 blocked_end s'"
  then show False
  proof cases
    case (starts i)
    then have "i = 0 \<or> i = Suc 0"
      by auto
    then show False
      using starts(4) blocked_end_state(1,2) by auto
  next
    case (replies c)
    then have "c = 0 \<or> c = 1 \<or> c = 2"
      by auto
    then show False
      using replies(3,5) blocked_end_state(3,4) by auto
  qed
qed

theorem absent_server_blocks_election_witness:
  "(absent_step 3 sample_ids 2 ^^ 3) init_ring blocked_end \<and> (\<nexists>s'. absent_step 3 sample_ids 2 blocked_end s')
    \<and> phase blocked_end 0 = Running \<and> phase blocked_end 1 = Running \<and> (\<nexists>w. phase blocked_end 2 = Done w)"
proof -
  have "ring_cfg 3 sample_ids 2"
    by (auto simp: ring_cfg_def sample_ids_def inj_on_def numeral_3_eq_3 less_Suc_eq)
  then show ?thesis
    using absent_server_blocks_election [of 3 sample_ids 2 2 3 blocked_end] blocked_run blocked_stuck by auto
qed

text \<open>
  C9. When a primary is lost the servers left close their ring again and elect one of them.
  However many were lost before, each skipped by one more turn of the loop: the last server left
  connects to the first, and after the election it is the primary, with the list of all
  servers. Every other one knows the address of the new primary but is still bound to the old
  connection: it reports the new primary as lost at once, with the files it had.
\<close>

theorem survivors_elect:
  assumes "codec_ok C" and "survivors as cs m" and "ring_reach m (config_ids cs) s"
    and "\<And>s'. \<not> ring_step m (config_ids cs) s s'" and "\<And>i. i < m \<Longrightarrow> survivor_env m s i (env i)"
    and "built_primary (env (m - 1)) = Inr p" and "served (env (m - 1)) (Primary_SetServers as p) = Some p'"
  shows "ConnectNext (reachable (env (m - 1))) (length as - m + 1) (cs ! (m - 1)) = Some (Some (next_in m (m - 1)))
    \<and> turn_in C (env (m - 1)) (length as - m + 1) r (cs ! (m - 1)) fs
        = Some (Leave, length as - m + 1, Some kShutdown, (cs ! (m - 1))\<lparr>replica := Some (PrimaryRole p')\<rparr>, sfs p')
    \<and> (\<forall>i<m - 1. \<forall>fs. \<exists>c'. turn_in C (env i) (length as - m + 1) r (cs ! i) fs
          = Some (Again, length as - m + 2, Some kLostConnectionToPrimary, c', fs)
        \<and> orphan c' \<and> primary_of c' = Some (SetPort kBackupPort (as ! (m - 1))))"
proof -
  let ?w = "of_nat (m - 1) :: byte" and ?o = "length as - m + 1"
  have m: "2 \<le> m" "m - 1 < m" "next_in m (m - 1) = 0"
    using assms(2) by (auto simp: survivors_def)
  have won: "ring_result (env i) = Inr ?w" if "i < m" for i
    using election_finished [OF survivors_cfg [OF assms(2)] assms(3,4)] assms(5) [OF that] that
      survivors_GetId(2) [OF assms(2) m(2)] by (simp add: survivor_env_def)
  have env: "await_prev (prev_polls (env i)) 0 = Some 0" if "i < m" for i
    using assms(5) [OF that] by (subst await_prev.simps) (simp add: survivor_env_def)
  have conn: "ConnectNext (reachable (env (m - 1))) ?o (cs ! (m - 1)) = Some (Some 0)"
    using skip_lost [OF assms(2)] assms(5) [OF m(2)] by (simp add: survivor_env_def)
  have last: "GetId (cs ! (m - 1)) = ?w" "servers (cs ! (m - 1)) = as" "\<not> next_stands (env (m - 1))"
    using survivors_GetId(1) [OF assms(2) m(2)] assms(2) assms(5) [OF m(2)] m(2)
    by (simp_all add: survivors_def survivor_env_def)
  have "handle_in C (env (m - 1)) ?w (cs ! (m - 1)) fs
      = Some (Inr kShutdown, (cs ! (m - 1))\<lparr>replica := Some (PrimaryRole p')\<rparr>, sfs p')"
    using HandleElection_winner [OF assms(6), of "served (env (m - 1))" "cs ! (m - 1)" p'] assms(7) last(1,2)
    by (simp add: handle_in_def)
  then have "turn_in C (env (m - 1)) ?o r (cs ! (m - 1)) fs
      = Some (Leave, ?o, Some kShutdown, (cs ! (m - 1))\<lparr>replica := Some (PrimaryRole p')\<rparr>, sfs p')"
    using conn last(3) env [OF m(2)] won [OF m(2)] by (simp add: turn_in_def main_turn_def loop_condition_def)
  moreover have "\<exists>c'. turn_in C (env i) ?o r (cs ! i) fs
          = Some (Again, length as - m + 2, Some kLostConnectionToPrimary, c', fs)
        \<and> orphan c' \<and> primary_of c' = Some (SetPort kBackupPort (as ! (m - 1)))" if i: "i < m - 1" for i fs
  proof -
    have "futile (cs ! i) (env i)"
      using assms(5) [of i] won [of i] survivors_GetId(4) [OF assms(2), of i] i
      by (simp add: futile_def survivor_env_def)
    moreover have "orphan (cs ! i)" "servers (cs ! i) = as"
      using assms(2) i by (simp_all add: survivors_def)
    ultimately show ?thesis
      using won [of i] i survivors_GetId(3) [OF assms(2) m(2)]
      by (auto intro: orphan_turn [OF assms(1), of "cs ! i" "env i" ?o r fs])
  qed
  ultimately show ?thesis
    using conn m(3) by simp
qed

theorem survivors_elect_witness:
  "turn_in pb_codec (sample_left_env 1) 2 None (sample_orphan\<lparr>addr_index := 1\<rparr>) sample_fs
      = Some (Leave, 2, Some kShutdown, sample_orphan\<lparr>addr_index := 1, replica := Some (PrimaryRole
          (Primary_SetServers (servers sample_orphan) empty_srv))\<rparr>,
          sfs (Primary_SetServers (servers sample_orphan) empty_srv))
    \<and> (\<exists>c. turn_in pb_codec (sample_left_env 0) 2 None sample_orphan sample_fs
      = Some (Again, 3, Some kLostConnectionToPrimary, c, sample_fs) \<and> orphan c)"
proof -
  have n: "length (servers sample_orphan) = 3"
    by (simp add: sample_orphan_def sample_control_def)
  have final: "\<not> ring_step 2 (config_ids sample_left) sample_end s'" for s'
    using sample_end_final [of s']
      ring_step_ids [of 2 "config_ids sample_left" sample_end s' sample_ids, OF _ sample_left_ids [symmetric]] by blast
  have env: "survivor_env 2 sample_end i (sample_left_env i)" if "i < 2" for i
    using that sample_end_phase by (auto simp: survivor_env_def sample_left_env_def sample_env_def less_2_cases_iff)
  show ?thesis
    using survivors_elect [OF pb_codec_ok sample_left_ok ring_reach_ids [OF sample_reach sample_left_ids] final env,
        of empty_srv "Primary_SetServers (servers sample_orphan) empty_srv" None sample_fs]
    by (simp add: n) (auto simp: sample_left_def sample_left_env_def sample_env_def numeral_2_eq_2 numeral_3_eq_3)
qed

text \<open>
  C30. A backup whose primary is gone never replicates again. Through any number of elections
  that it takes part in and does not win, its files stay as they were, each turn only adds
  one to the offset, and when the connection to its neighbour is gone as well and the offset is a
  multiple of the number of servers it leaves the loop as a primary that nobody elected.
\<close>

theorem orphan_never_replicates:
  assumes "codec_ok C" and "orphan c" and "addr_index c < length (servers c)"
    and "\<And>j. k \<le> j \<Longrightarrow> j < k + m \<Longrightarrow> futile c (env j)"
    and "self_elected c (offset + m) (env (k + m))"
    and "built_primary (env (k + m)) = Inr s" and "served (env (k + m)) (Primary_SetServers (servers c) s) = Some s'"
  shows "\<exists>c' c''. main_loop C env k offset r c fs = Some (Leave, k + m, offset + m, c'', sfs s')
    \<and> replica c'' = Some (PrimaryRole s') \<and> orphan c'
    \<and> turn_in C (env (k + m)) (offset + m) (if m = 0 then r else Some kLostConnectionToPrimary) c' fs
        = Some (Leave, offset + m, Some kShutdown, c'', sfs s')"
  using assms
proof (induction m arbitrary: k offset r c)
  case 0
  have "turn_in C (env k) offset r c fs = Some (Leave, offset, Some kShutdown, c\<lparr>replica := Some (PrimaryRole s')\<rparr>, sfs s')"
    using self_elected_turn [OF 0(3), of offset "env k" s s'] 0(5-7) by simp
  then show ?case
    using main_loop_left [of C env k offset r c fs Leave] 0(2) by auto
next
  case (Suc m)
  obtain c1 where c1: "turn_in C (env k) offset r c fs = Some (Again, offset + 1, Some kLostConnectionToPrimary, c1, fs)"
    "orphan c1" "addr_index c1 = addr_index c" "servers c1 = servers c"
    using Suc.prems(4) [of k] by (rule orphan_turn [OF Suc.prems(1,2)]) simp_all
  have "futile c1 (env j)" if "k + 1 \<le> j" "j < k + 1 + m" for j
    using Suc.prems(4) [of j] that c1(3) by (simp add: futile_def GetId_def)
  then show ?case
    using Suc.IH [of c1 "k + 1" "offset + 1" "Some kLostConnectionToPrimary"] Suc.prems c1
      main_loop_again [of C env k offset r c fs]
    by (simp add: self_elected_def)
qed

theorem orphan_never_replicates_witness:
  "\<exists>c. main_loop pb_codec sample_env 0 2 (Some kLostConnectionToPrimary) sample_orphan sample_fs
    = Some (Leave, 1, 3, c, sample_fs)"
proof -
  have "orphan sample_orphan" "addr_index sample_orphan = 0" "length (servers sample_orphan) = 3"
    by (simp_all add: orphan_def sample_orphan_def sample_control_def sample_backup_def)
  then show ?thesis
    using orphan_never_replicates [OF pb_codec_ok, of sample_orphan 0 1 sample_env 2 empty_srv
        "Primary_SetServers (servers sample_orphan) empty_srv" "Some kLostConnectionToPrimary" sample_fs]
    by (auto simp: futile_def self_elected_def sample_env_def GetId_def Primary_SetServers_def empty_srv_def)
qed

end
