(* ===== verification/ClientThreads.thy ===== *)
theory ClientThreads
  imports Prelude Transitions Commands Inotify
begin

text \<open>
  The threads of a client, \<^verbatim>\<open>client/main.cpp\<close>: the watcher (\<^verbatim>\<open>Inotify::MainLoop\<close>),
  \<^verbatim>\<open>SyncFromClient\<close>, \<^verbatim>\<open>SyncFromServer\<close> and the main thread with the user's commands, who
  share the collection of actions, its mutex, its condition variable and the pause flag, and
  the end of the program: three requests to stop, then the joins of the destructors in
  reverse order of construction.
\<close>

section \<open>The threads\<close>

text \<open>Where each thread is: the next thing it does.\<close>

datatype wpc =
    WStart   \<comment> \<open>\<^verbatim>\<open>Start\<close>\<close>
  | WTest    \<comment> \<open>the condition of the outer loop\<close>
  | WRead    \<comment> \<open>\<^verbatim>\<open>read\<close>\<close>
  | WCheck   \<comment> \<open>\<^verbatim>\<open>if (... || pause_)\<close>\<close>
  | WLock    \<comment> \<open>\<^verbatim>\<open>collection_mutex_.lock()\<close>\<close>
  | WStore   \<comment> \<open>the inner loop and \<^verbatim>\<open>unlock\<close>\<close>
  | WNotify  \<comment> \<open>\<^verbatim>\<open>notify_one\<close>\<close>
  | WLast    \<comment> \<open>the \<^verbatim>\<open>notify_one\<close> after the loop\<close>
  | WDone

datatype fpc =
    FStart   \<comment> \<open>\<^verbatim>\<open>archive(servers_)\<close>\<close>
  | FLock    \<comment> \<open>the constructor of \<^verbatim>\<open>lk\<close>\<close>
  | FEval    \<comment> \<open>the predicate of \<^verbatim>\<open>wait\<close>\<close>
  | FSleep   \<comment> \<open>the predicate was false: release the mutex and block, in one step\<close>
  | FAsleep  \<comment> \<open>blocked in the condition variable\<close>
  | FWoken   \<comment> \<open>notified, waiting for the mutex\<close>
  | FStop    \<comment> \<open>\<^verbatim>\<open>if (stop_token.stop_requested())\<close>\<close>
  | FSend    \<comment> \<open>the loop over the actions, \<^verbatim>\<open>Clear\<close> and \<^verbatim>\<open>lk.unlock()\<close>\<close>
  | FNotify  \<comment> \<open>\<^verbatim>\<open>notify_one\<close>\<close>
  | FDone

datatype upc =
    UReady     \<comment> \<open>waiting for a line of input\<close>
  | UUpLock    \<comment> \<open>\<^verbatim>\<open>Upload\<close>: \<^verbatim>\<open>kLock\<close>\<close>
  | UUpSend    \<comment> \<open>the command, the path, the file, then \<^verbatim>\<open>Pause\<close>\<close>
  | UUpCopy    \<comment> \<open>\<^verbatim>\<open>copy_file\<close>, then \<^verbatim>\<open>Resume\<close>\<close>
  | UUpEnd     \<comment> \<open>the destructor of \<^verbatim>\<open>kLock\<close>\<close>
  | UDelSend   \<comment> \<open>\<^verbatim>\<open>Delete\<close>: the command and the path, then \<^verbatim>\<open>Pause\<close>\<close>
  | UDelRemove \<comment> \<open>\<^verbatim>\<open>remove\<close>, then \<^verbatim>\<open>Resume\<close>\<close>
  | UStopS | UStopF | UStopW      \<comment> \<open>the requests to stop\<close>
  | UJoinS | UJoinF | UJoinW      \<comment> \<open>the joins\<close>
  | UDone

datatype spc =
    STest      \<comment> \<open>the condition of the loop\<close>
  | SReceive   \<comment> \<open>\<^verbatim>\<open>ReceiveCommand\<close>\<close>
  | SUpload    \<comment> \<open>an upload: the path, then \<^verbatim>\<open>Pause\<close>\<close>
  | SStoring   \<comment> \<open>\<^verbatim>\<open>Receive\<close>, then \<^verbatim>\<open>Resume\<close>\<close>
  | SDelete    \<comment> \<open>a deletion: the path, \<^verbatim>\<open>exists\<close>, then \<^verbatim>\<open>Pause\<close>\<close>
  | SRemoving  \<comment> \<open>\<^verbatim>\<open>remove\<close>, then \<^verbatim>\<open>Resume\<close>\<close>
  | SReconnect \<comment> \<open>the connection was lost: \<^verbatim>\<open>ReconnectToServer\<close>\<close>
  | SDone

datatype tid = Watcher | FromClient | User

record cthreads =
  w_pc :: wpc
  f_pc :: fpc
  u_pc :: upc
  s_pc :: spc
  holder :: "tid option"   \<comment> \<open>of \<^verbatim>\<open>collection_mutex_\<close>\<close>
  stop_w :: bool
  stop_f :: bool
  stop_s :: bool
  dwatch :: watcher

definition init_client :: cthreads where
  "init_client = \<lparr>w_pc = WStart, f_pc = FStart, u_pc = UReady, s_pc = STest, holder = None,
     stop_w = False, stop_f = False, stop_s = False, dwatch = Inotify\<rparr>"

section \<open>Their steps\<close>

text \<open>\<^verbatim>\<open>notify_one\<close>: only \<^verbatim>\<open>SyncFromClient\<close> ever waits; a notification of nobody is lost.\<close>

definition notify_one :: "cthreads \<Rightarrow> cthreads" where
  "notify_one s = (if f_pc s = FAsleep then s\<lparr>f_pc := FWoken\<rparr> else s)"

text \<open>What is done under the mutex, whatever the pause flag has become since it was tested.\<close>

definition push_batch :: "watcher \<Rightarrow> watcher" where
  "push_batch w = (case batch w of
     None \<Rightarrow> w
   | Some es \<Rightarrow> w\<lparr>batch := None, vector := vector w @ parse_events (concat (map encode_event es)) 0\<rparr>)"

text \<open>\<open>None\<close>: the thread is blocked, or has ended. \<open>n\<close> is how many more events than one a read returns.\<close>

definition w_do :: "nat \<Rightarrow> cthreads \<Rightarrow> cthreads option" where
  "w_do n s = (case w_pc s of
     WStart \<Rightarrow> Some (s\<lparr>w_pc := WTest, dwatch := Watch_Start (dwatch s)\<rparr>)
   | WTest \<Rightarrow> Some (s\<lparr>w_pc := if stop_w s then WLast else WRead\<rparr>)
   | WRead \<Rightarrow> Some (if queue (dwatch s) = [] then s\<lparr>w_pc := WTest\<rparr>
       else s\<lparr>w_pc := WCheck, dwatch := read_batch (Suc n) (dwatch s)\<rparr>)
   | WCheck \<Rightarrow> Some (if pause (dwatch s) then s\<lparr>w_pc := WTest, dwatch := (dwatch s)\<lparr>batch := None\<rparr>\<rparr>
       else s\<lparr>w_pc := WLock\<rparr>)
   | WLock \<Rightarrow> (if holder s = None then Some (s\<lparr>w_pc := WStore, holder := Some Watcher\<rparr>) else None)
   | WStore \<Rightarrow> Some (s\<lparr>w_pc := WNotify, holder := None, dwatch := push_batch (dwatch s)\<rparr>)
   | WNotify \<Rightarrow> Some ((notify_one s)\<lparr>w_pc := WTest\<rparr>)
   | WLast \<Rightarrow> Some ((notify_one s)\<lparr>w_pc := WDone\<rparr>)
   | WDone \<Rightarrow> None)"

definition f_do :: "cthreads \<Rightarrow> cthreads option" where
  "f_do s = (case f_pc s of
     FStart \<Rightarrow> Some (s\<lparr>f_pc := FLock\<rparr>)
   | FLock \<Rightarrow> (if holder s = None then Some (s\<lparr>f_pc := FEval, holder := Some FromClient\<rparr>) else None)
   | FEval \<Rightarrow> Some (s\<lparr>f_pc := if HasActions (dwatch s) \<or> stop_f s then FStop else FSleep\<rparr>)
   | FSleep \<Rightarrow> Some (s\<lparr>f_pc := FAsleep, holder := None\<rparr>)
   | FAsleep \<Rightarrow> None
   | FWoken \<Rightarrow> (if holder s = None then Some (s\<lparr>f_pc := FEval, holder := Some FromClient\<rparr>) else None)
   | FStop \<Rightarrow> Some (if stop_f s then s\<lparr>f_pc := FDone, holder := None\<rparr> else s\<lparr>f_pc := FSend\<rparr>)
   | FSend \<Rightarrow> Some (s\<lparr>f_pc := FNotify, holder := None, dwatch := take_actions (dwatch s)\<rparr>)
   | FNotify \<Rightarrow> Some ((notify_one s)\<lparr>f_pc := FLock\<rparr>)
   | FDone \<Rightarrow> None)"

text \<open>A line of the user, and whether an operation of a command succeeds.\<close>

datatype uchoice = LineUpload | LineDelete | LineOther | LineExit | Works | Breaks

definition u_do :: "uchoice \<Rightarrow> cthreads \<Rightarrow> cthreads option" where
  "u_do a s = (case u_pc s of
     UReady \<Rightarrow> Some (s\<lparr>u_pc := if a = LineUpload then UUpLock else if a = LineDelete then UDelSend
       else if a = LineExit then UStopS else UReady\<rparr>)
   | UUpLock \<Rightarrow> (if holder s = None then Some (s\<lparr>u_pc := UUpSend, holder := Some User\<rparr>) else None)
   | UUpSend \<Rightarrow> Some (if a = Breaks then s\<lparr>u_pc := UUpEnd\<rparr>
       else s\<lparr>u_pc := UUpCopy, dwatch := Pause (dwatch s)\<rparr>)
   | UUpCopy \<Rightarrow> Some (if a = Breaks then s\<lparr>u_pc := UUpEnd\<rparr>
       else s\<lparr>u_pc := UUpEnd, dwatch := Resume (dwatch s)\<rparr>)
   | UUpEnd \<Rightarrow> Some (s\<lparr>u_pc := UReady, holder := None\<rparr>)
   | UDelSend \<Rightarrow> Some (if a = Breaks then s\<lparr>u_pc := UReady\<rparr>
       else s\<lparr>u_pc := UDelRemove, dwatch := Pause (dwatch s)\<rparr>)
   | UDelRemove \<Rightarrow> Some (if a = Breaks then s\<lparr>u_pc := UReady\<rparr>
       else s\<lparr>u_pc := UReady, dwatch := Resume (dwatch s)\<rparr>)
   | UStopS \<Rightarrow> Some (s\<lparr>u_pc := UStopF, stop_s := True\<rparr>)
   | UStopF \<Rightarrow> Some (s\<lparr>u_pc := UStopW, stop_f := True\<rparr>)
   | UStopW \<Rightarrow> Some (s\<lparr>u_pc := UJoinS, stop_w := True\<rparr>)
   | UJoinS \<Rightarrow> (if s_pc s = SDone then Some (s\<lparr>u_pc := UJoinF\<rparr>) else None)
   | UJoinF \<Rightarrow> (if f_pc s = FDone then Some (s\<lparr>u_pc := UJoinW\<rparr>) else None)
   | UJoinW \<Rightarrow> (if w_pc s = WDone then Some (s\<lparr>u_pc := UDone\<rparr>) else None)
   | UDone \<Rightarrow> None)"

text \<open>What the server or the network does to \<^verbatim>\<open>SyncFromServer\<close>.\<close>

datatype schoice = GotUpload | GotDelete | GotOther | Closed | Accepted

definition s_do :: "schoice \<Rightarrow> cthreads \<Rightarrow> cthreads option" where
  "s_do a s = (case s_pc s of
     STest \<Rightarrow> Some (s\<lparr>s_pc := if stop_s s then SDone else SReceive\<rparr>)
   | SReceive \<Rightarrow> Some (s\<lparr>s_pc := if a = GotUpload then SUpload else if a = GotDelete then SDelete
       else if a = Closed then SReconnect else STest\<rparr>)
   | SUpload \<Rightarrow> Some (s\<lparr>s_pc := SStoring, dwatch := Pause (dwatch s)\<rparr>)
   | SStoring \<Rightarrow> Some (s\<lparr>s_pc := STest, dwatch := Resume (dwatch s)\<rparr>)
   | SDelete \<Rightarrow> Some (if a = GotDelete then s\<lparr>s_pc := SRemoving, dwatch := Pause (dwatch s)\<rparr> else s\<lparr>s_pc := STest\<rparr>)
   | SRemoving \<Rightarrow> Some (s\<lparr>s_pc := STest, dwatch := Resume (dwatch s)\<rparr>)
   | SReconnect \<Rightarrow> Some (if a = Accepted then s\<lparr>s_pc := STest\<rparr> else s)
   | SDone \<Rightarrow> None)"

text \<open>
  \<open>spurious\<close>: whether the condition variable may wake a thread that nobody notified, which
  the standard allows.
\<close>

inductive ct_step :: "bool \<Rightarrow> cthreads \<Rightarrow> cthreads \<Rightarrow> bool" for spurious where
  watcher: "w_do n s = Some s' \<Longrightarrow> ct_step spurious s s'"
| from_client: "f_do s = Some s' \<Longrightarrow> ct_step spurious s s'"
| user: "u_do a s = Some s' \<Longrightarrow> ct_step spurious s s'"
| from_server: "s_do b s = Some s' \<Longrightarrow> ct_step spurious s s'"
| directory: "event_ok e \<Longrightarrow> ct_step spurious s (s\<lparr>dwatch := fs_event e (dwatch s)\<rparr>)"
| wake: "spurious \<Longrightarrow> f_pc s = FAsleep \<Longrightarrow> ct_step spurious s (s\<lparr>f_pc := FWoken\<rparr>)"

section \<open>The invariant\<close>

definition f_holds :: "fpc \<Rightarrow> bool" where
  "f_holds p = (p \<in> {FEval, FSleep, FStop, FSend})"

definition u_holds :: "upc \<Rightarrow> bool" where
  "u_holds p = (p \<in> {UUpSend, UUpCopy, UUpEnd})"

lemma holds_simps [simp]:
  "f_holds FEval" "f_holds FSleep" "f_holds FStop" "f_holds FSend" "\<not> f_holds FStart" "\<not> f_holds FLock"
  "\<not> f_holds FAsleep" "\<not> f_holds FWoken" "\<not> f_holds FNotify" "\<not> f_holds FDone"
  "u_holds UUpSend" "u_holds UUpCopy" "u_holds UUpEnd" "\<not> u_holds UReady" "\<not> u_holds UUpLock"
  "\<not> u_holds UDelSend" "\<not> u_holds UDelRemove" "\<not> u_holds UStopS" "\<not> u_holds UStopF" "\<not> u_holds UStopW"
  "\<not> u_holds UJoinS" "\<not> u_holds UJoinF" "\<not> u_holds UJoinW" "\<not> u_holds UDone"
  by (simp_all add: f_holds_def u_holds_def)

definition mutex_ok :: "cthreads \<Rightarrow> bool" where
  "mutex_ok s = ((holder s = Some Watcher \<longleftrightarrow> w_pc s = WStore)
     \<and> (holder s = Some FromClient \<longleftrightarrow> f_holds (f_pc s))
     \<and> (holder s = Some User \<longleftrightarrow> u_holds (u_pc s)))"

definition wakes_ok :: "cthreads \<Rightarrow> bool" where
  "wakes_ok s = ((f_pc s = FSleep \<longrightarrow> vector (dwatch s) = [])
     \<and> (f_pc s = FAsleep \<longrightarrow> vector (dwatch s) = [] \<or> w_pc s = WNotify))"

text \<open>How far the main thread is with the end of the program.\<close>

fun stage :: "upc \<Rightarrow> nat" where
  "stage UStopF = 1"
| "stage UStopW = 2"
| "stage UJoinS = 3"
| "stage UJoinF = 4"
| "stage UJoinW = 5"
| "stage UDone = 6"
| "stage _ = 0"

definition ending_ok :: "cthreads \<Rightarrow> bool" where
  "ending_ok s = ((stop_s s \<longleftrightarrow> 1 \<le> stage (u_pc s)) \<and> (stop_f s \<longleftrightarrow> 2 \<le> stage (u_pc s))
     \<and> (stop_w s \<longleftrightarrow> 3 \<le> stage (u_pc s))
     \<and> (s_pc s = SDone \<longrightarrow> stop_s s) \<and> (f_pc s = FDone \<longrightarrow> stop_f s)
     \<and> (w_pc s = WLast \<longrightarrow> stop_w s) \<and> (w_pc s = WDone \<longrightarrow> stop_w s)
     \<and> (4 \<le> stage (u_pc s) \<longrightarrow> s_pc s = SDone) \<and> (5 \<le> stage (u_pc s) \<longrightarrow> f_pc s = FDone)
     \<and> (6 \<le> stage (u_pc s) \<longrightarrow> w_pc s = WDone))"

definition batch_ok :: "cthreads \<Rightarrow> bool" where
  "batch_ok s = (watch_inv (dwatch s) \<and> (batch (dwatch s) \<noteq> None \<longleftrightarrow> w_pc s \<in> {WCheck, WLock, WStore}))"

lemma notify_simps [simp]:
  "w_pc (notify_one s) = w_pc s" "u_pc (notify_one s) = u_pc s" "s_pc (notify_one s) = s_pc s"
  "holder (notify_one s) = holder s" "dwatch (notify_one s) = dwatch s" "stop_w (notify_one s) = stop_w s"
  "stop_f (notify_one s) = stop_f s" "stop_s (notify_one s) = stop_s s"
  "f_pc (notify_one s) = (if f_pc s = FAsleep then FWoken else f_pc s)"
  by (simp_all add: notify_one_def)

lemma watch_simps [simp]:
  "vector (Pause w) = vector w" "vector (Resume w) = vector w" "vector (Watch_Start w) = vector w"
  "vector (read_batch n w) = vector w" "vector (fs_event e w) = vector w" "vector (take_actions w) = []"
  "batch (Pause w) = batch w" "batch (Resume w) = batch w" "batch (Watch_Start w) = batch w"
  "batch (fs_event e w) = batch w" "batch (take_actions w) = batch w"
  "batch (read_batch n w) = Some (take n (queue w))" "batch (push_batch w) = None"
  by (simp_all add: Pause_def Resume_def Watch_Start_def read_batch_def fs_event_def take_actions_def
      push_batch_def split: option.split)

lemmas do_defs = w_do_def f_do_def u_do_def s_do_def

text \<open>What is shown of each thread holds of every step.\<close>

lemma ct_step_keeps:
  assumes "ct_step sp s s'" and "P s"
    and "\<And>n. w_do n s = Some s' \<Longrightarrow> P s'" and "f_do s = Some s' \<Longrightarrow> P s'"
    and "\<And>a. u_do a s = Some s' \<Longrightarrow> P s'" and "\<And>b. s_do b s = Some s' \<Longrightarrow> P s'"
    and "\<And>e. event_ok e \<Longrightarrow> P (s\<lparr>dwatch := fs_event e (dwatch s)\<rparr>)"
    and "f_pc s = FAsleep \<Longrightarrow> P (s\<lparr>f_pc := FWoken\<rparr>)"
  shows "P s'"
  using assms(1) by cases (use assms(2-) in auto)

text \<open>
  A thread either leaves the mutex alone, or takes it when nobody has it, or releases its own:
  \<open>h\<close> and \<open>h'\<close> say whether it is in its critical section before and after the step.
\<close>

definition lock_move :: "tid \<Rightarrow> bool \<Rightarrow> bool \<Rightarrow> cthreads \<Rightarrow> cthreads \<Rightarrow> bool" where
  "lock_move t h h' s s' = ((h' = h \<and> holder s' = holder s) \<or> (\<not> h \<and> h' \<and> holder s = None \<and> holder s' = Some t)
     \<or> (h \<and> \<not> h' \<and> holder s' = None))"

lemma lock_move_owner:
  assumes "lock_move t h h' s s'" and "holder s = Some t \<longleftrightarrow> h"
  shows "holder s' = Some t \<longleftrightarrow> h'" and "t' \<noteq> t \<Longrightarrow> holder s' = Some t' \<longleftrightarrow> holder s = Some t'"
  using assms by (auto simp: lock_move_def)

lemma w_frame:
  assumes "w_do n s = Some s'"
  shows "u_pc s' = u_pc s" and "s_pc s' = s_pc s" and "f_holds (f_pc s') = f_holds (f_pc s)"
    and "lock_move Watcher (w_pc s = WStore) (w_pc s' = WStore) s s'"
  using assms by (cases "w_pc s"; force simp: w_do_def lock_move_def split: if_splits)+

lemma f_frame:
  assumes "f_do s = Some s'"
  shows "u_pc s' = u_pc s" and "s_pc s' = s_pc s" and "w_pc s' = w_pc s"
    and "lock_move FromClient (f_holds (f_pc s)) (f_holds (f_pc s')) s s'"
  using assms by (cases "f_pc s"; force simp: f_do_def lock_move_def split: if_splits)+

lemma u_frame:
  assumes "u_do a s = Some s'"
  shows "f_pc s' = f_pc s" and "s_pc s' = s_pc s" and "w_pc s' = w_pc s" and "vector (dwatch s') = vector (dwatch s)"
    and "lock_move User (u_holds (u_pc s)) (u_holds (u_pc s')) s s'"
  using assms by (cases "u_pc s"; force simp: u_do_def lock_move_def split: if_splits)+

lemma s_frame:
  assumes "s_do b s = Some s'"
  shows "f_pc s' = f_pc s" and "u_pc s' = u_pc s" and "w_pc s' = w_pc s" and "vector (dwatch s') = vector (dwatch s)"
    and "holder s' = holder s"
  using assms by (cases "s_pc s"; force simp: s_do_def split: if_splits)+

lemma mutex_step: "ct_step sp s s' \<Longrightarrow> mutex_ok s \<Longrightarrow> mutex_ok s'"
proof (erule ct_step_keeps [where P = mutex_ok], goal_cases)
  case (2 n)
  then show ?case
    using w_frame [OF 2(2)] lock_move_owner [OF w_frame(4) [OF 2(2)]] by (simp add: mutex_ok_def)
next
  case 3
  then show ?case
    using f_frame [OF 3(2)] lock_move_owner [OF f_frame(4) [OF 3(2)]] by (simp add: mutex_ok_def)
next
  case (4 a)
  then show ?case
    using u_frame [OF 4(2)] lock_move_owner [OF u_frame(5) [OF 4(2)]] by (simp add: mutex_ok_def)
next
  case (5 b)
  then show ?case
    using s_frame [OF 5(2)] by (simp add: mutex_ok_def)
qed (simp_all add: mutex_ok_def)

lemma mutex_excludes: "mutex_ok s \<Longrightarrow> f_pc s = FSleep \<Longrightarrow> w_pc s \<noteq> WStore"
  unfolding mutex_ok_def by (metis holds_simps(2) option.inject tid.distinct(1))

lemma wakes_step: "ct_step sp s s' \<Longrightarrow> mutex_ok s \<and> wakes_ok s \<Longrightarrow> wakes_ok s'"
proof (erule ct_step_keeps [where P = wakes_ok], goal_cases)
  case (2 n)
  then have "f_pc s = FSleep \<Longrightarrow> w_pc s \<noteq> WStore"
    using mutex_excludes by blast
  with 2 show ?case
    by (cases "w_pc s"; clarsimp simp: wakes_ok_def w_do_def split: if_splits)
next
  case 3
  then show ?case
    by (cases "f_pc s"; clarsimp simp: wakes_ok_def f_do_def HasActions_def split: if_splits)
next
  case (4 a)
  then show ?case
    using u_frame [OF 4(2)] by (simp add: wakes_ok_def)
next
  case (5 b)
  then show ?case
    using s_frame [OF 5(2)] by (simp add: wakes_ok_def)
qed (auto simp: wakes_ok_def)

lemma ending_step: "ct_step sp s s' \<Longrightarrow> ending_ok s \<Longrightarrow> ending_ok s'"
proof (erule ct_step_keeps [where P = ending_ok], goal_cases)
  case (2 n)
  then show ?case
    by (cases "w_pc s"; clarsimp simp: ending_ok_def w_do_def split: if_splits)
next
  case 3
  then show ?case
    by (cases "f_pc s"; clarsimp simp: ending_ok_def f_do_def split: if_splits)
next
  case (4 a)
  then show ?case
    by (cases "u_pc s"; clarsimp simp: ending_ok_def u_do_def split: if_splits)
next
  case (5 b)
  then show ?case
    by (cases "s_pc s"; clarsimp simp: ending_ok_def s_do_def split: if_splits)
qed (auto simp: ending_ok_def)

text \<open>The watcher's own invariant: the flag plays no part in it.\<close>

lemma watch_inv_pause: "watch_inv (w\<lparr>pause := b\<rparr>) = watch_inv w"
  by (simp add: watch_inv_def unread_events_def)

lemma watch_inv_push:
  assumes "watch_inv w"
  shows "watch_inv (push_batch w)"
proof (cases "batch w")
  case (Some es)
  let ?w = "w\<lparr>pause := False\<rparr>"
  have "watch_inv (store_batch es ?w)"
    using watch_inv_step [OF store [of ?w es]] assms Some by (simp add: watch_inv_pause)
  moreover have "push_batch w = (store_batch es ?w)\<lparr>pause := pause w\<rparr>"
    using Some by (simp add: push_batch_def store_batch_def)
  ultimately show ?thesis
    by (simp add: watch_inv_pause)
qed (simp add: push_batch_def assms)

lemma watch_inv_drop:
  assumes "watch_inv w" and "batch w \<noteq> None"
  shows "watch_inv (w\<lparr>batch := None\<rparr>)"
proof -
  obtain es where es: "batch w = Some es"
    using assms(2) by auto
  let ?w = "w\<lparr>pause := True\<rparr>"
  have "watch_inv (store_batch es ?w)"
    using watch_inv_step [OF store [of ?w es]] assms(1) es by (simp add: watch_inv_pause)
  moreover have "w\<lparr>batch := None\<rparr> = (store_batch es ?w)\<lparr>pause := pause w\<rparr>"
    by (simp add: store_batch_def)
  ultimately show ?thesis
    by (simp add: watch_inv_pause)
qed

lemma watch_inv_ops:
  assumes "watch_inv w"
  shows "watch_inv (Pause w)" "watch_inv (Resume w)" "watch_inv (Watch_Start w)" "watch_inv (take_actions w)"
    "event_ok e \<Longrightarrow> watch_inv (fs_event e w)" "batch w = None \<Longrightarrow> watch_inv (read_batch n w)"
  using watch_inv_step [OF _ assms] by (auto intro: wstep.intros simp: Watch_Start_def watch_inv_pause assms)

lemma batch_step: "ct_step sp s s' \<Longrightarrow> batch_ok s \<Longrightarrow> batch_ok s'"
proof (erule ct_step_keeps [where P = batch_ok], goal_cases)
  case (2 n)
  then show ?case
    by (cases "w_pc s"; clarsimp simp: batch_ok_def w_do_def watch_inv_ops watch_inv_push watch_inv_drop
        split: if_splits)
next
  case 3
  then show ?case
    by (cases "f_pc s"; clarsimp simp: batch_ok_def f_do_def watch_inv_ops split: if_splits)
next
  case (4 a)
  then show ?case
    by (cases "u_pc s"; clarsimp simp: batch_ok_def u_do_def watch_inv_ops split: if_splits)
next
  case (5 b)
  then show ?case
    by (cases "s_pc s"; clarsimp simp: batch_ok_def s_do_def watch_inv_ops split: if_splits)
qed (auto simp: batch_ok_def watch_inv_ops)

lemma init_ok:
  "mutex_ok init_client" "wakes_ok init_client" "ending_ok init_client" "batch_ok init_client"
proof -
  have "watch_inv Inotify"
    by (simp add: Inotify_def watch_inv_def unread_events_def)
  then show "batch_ok init_client"
    by (simp add: batch_ok_def init_client_def) (simp add: Inotify_def)
qed (simp_all add: mutex_ok_def wakes_ok_def ending_ok_def init_client_def Inotify_def)

interpretation client_inv: invariant_of "ct_step sp"
    "\<lambda>s. mutex_ok s \<and> wakes_ok s \<and> ending_ok s \<and> batch_ok s" init_client for sp
proof unfold_locales
  show "mutex_ok init_client \<and> wakes_ok init_client \<and> ending_ok init_client \<and> batch_ok init_client"
    by (intro conjI init_ok)
next
  fix s s'
  assume "mutex_ok s \<and> wakes_ok s \<and> ending_ok s \<and> batch_ok s" and st: "ct_step sp s s'"
  then show "mutex_ok s' \<and> wakes_ok s' \<and> ending_ok s' \<and> batch_ok s'"
    using mutex_step [OF st] wakes_step [OF st] ending_step [OF st] batch_step [OF st] by blast
qed

section \<open>The end of the program\<close>

definition quiet :: "cthreads \<Rightarrow> bool" where
  "quiet s = ((\<forall>n. w_do n s = None) \<and> f_do s = None \<and> (\<forall>a. u_do a s = None) \<and> (\<forall>b. s_do b s = None))"

text \<open>\<^verbatim>\<open>SyncFromClient\<close> is blocked, and everybody who could notify it is gone.\<close>

definition forgotten :: "cthreads \<Rightarrow> bool" where
  "forgotten s = (f_pc s = FAsleep \<and> w_pc s = WDone \<and> u_pc s = UJoinF \<and> s_pc s = SDone)"

interpretation forgotten: stable "ct_step False" forgotten
proof unfold_locales
  fix s s'
  assume "forgotten s" and "ct_step False s s'"
  from this(2,1) show "forgotten s'"
    by (cases rule: ct_step.cases) (auto simp: forgotten_def do_defs)
qed

lemma quiet_watcher:
  assumes "quiet s" and "mutex_ok s"
  shows "w_pc s = WDone" and "holder s = None"
proof -
  have f: "\<not> f_holds (f_pc s)"
    using assms(1) by (cases "f_pc s") (auto simp: quiet_def f_do_def)
  have u: "\<not> u_holds (u_pc s)"
    using assms(1) by (cases "u_pc s") (auto simp: quiet_def u_do_def)
  have w: "w_pc s = WLock \<or> w_pc s = WDone"
    using assms(1) by (cases "w_pc s") (auto simp: quiet_def w_do_def)
  have "w_pc s \<noteq> WStore"
    using w by auto
  then have "holder s \<noteq> Some t" for t
    using assms(2) f u by (cases t) (auto simp: mutex_ok_def)
  then show "holder s = None"
    by (cases "holder s") auto
  then show "w_pc s = WDone"
    using w assms(1) by (auto simp: quiet_def w_do_def)
qed

section \<open>Schedules\<close>

datatype act = ActW nat | ActF | ActU uchoice | ActS schoice

fun act_do :: "act \<Rightarrow> cthreads \<Rightarrow> cthreads option" where
  "act_do (ActW n) s = w_do n s"
| "act_do ActF s = f_do s"
| "act_do (ActU a) s = u_do a s"
| "act_do (ActS b) s = s_do b s"

fun schedule :: "act list \<Rightarrow> cthreads \<Rightarrow> cthreads option" where
  "schedule [] s = Some s"
| "schedule (a # as) s = (case act_do a s of None \<Rightarrow> None | Some s' \<Rightarrow> schedule as s')"

lemma act_step: "act_do a s = Some s' \<Longrightarrow> ct_step sp s s'"
  by (cases a) (auto intro: ct_step.intros)

lemma schedule_reaches: "schedule as s = Some t \<Longrightarrow> reaches s0 (ct_step sp) s \<Longrightarrow> reaches s0 (ct_step sp) t"
proof (induction as arbitrary: s)
  case (Cons a as)
  then obtain s' where "act_do a s = Some s'" "schedule as s' = Some t"
    by (auto split: option.splits)
  then show ?case
    using Cons.IH reaches_step [OF Cons.prems(2) act_step] by blast
qed simp

lemma schedule_from_start: "schedule as init_client = Some t \<Longrightarrow> reaches init_client (ct_step sp) t"
  by (erule schedule_reaches) (rule reaches_init)

text \<open>The user leaves while \<^verbatim>\<open>SyncFromClient\<close> is about to wait.\<close>

definition forgotten_end :: cthreads where
  "forgotten_end = \<lparr>w_pc = WDone, f_pc = FAsleep, u_pc = UJoinF, s_pc = SDone, holder = None,
     stop_w = True, stop_f = True, stop_s = True, dwatch = Watch_Start Inotify\<rparr>"

lemma forgotten_run: "reaches init_client (ct_step sp) forgotten_end"
proof (rule schedule_from_start)
  show "schedule [ActW 0, ActF, ActF, ActF, ActU LineExit, ActU Works, ActU Works, ActU Works, ActW 0, ActW 0,
      ActF, ActS Closed, ActU Works] init_client = Some forgotten_end"
    by (simp add: do_defs init_client_def notify_one_def HasActions_def Inotify_def Watch_Start_def forgotten_end_def)
qed

text \<open>The client works, the user uploads, and the server's command ends while the user's file is copied.\<close>

definition unpaused_copy :: cthreads where
  "unpaused_copy = init_client\<lparr>u_pc := UUpCopy, s_pc := STest, holder := Some User, w_pc := WTest,
     dwatch := Resume (Watch_Start Inotify)\<rparr>"

lemma unpaused_run: "reaches init_client (ct_step sp) unpaused_copy"
proof (rule schedule_from_start)
  show "schedule [ActW 0, ActS GotUpload, ActS GotUpload, ActS GotUpload, ActU LineUpload, ActU Works, ActU Works,
      ActS GotUpload] init_client = Some unpaused_copy"
    by (simp add: do_defs init_client_def unpaused_copy_def Inotify_def Watch_Start_def Pause_def Resume_def)
qed

section \<open>Properties\<close>

text \<open>
  C12. While the client runs, whatever the interleaving and whether or not the condition
  variable wakes its thread without reason: at most one of the watcher, \<^verbatim>\<open>SyncFromClient\<close>
  and \<^verbatim>\<open>Upload\<close> is where the mutex protects it; \<^verbatim>\<open>SyncFromClient\<close> is never asleep
  over actions that are not about to be announced; and the actions sent and collected are those
  of events that did happen, in their order.
\<close>

theorem client_threads_exclude:
  assumes "reaches init_client (ct_step sp) s"
  shows "\<not> (w_pc s = WStore \<and> f_holds (f_pc s)) \<and> \<not> (w_pc s = WStore \<and> u_holds (u_pc s))
    \<and> \<not> (f_holds (f_pc s) \<and> u_holds (u_pc s))
    \<and> \<not> (f_pc s = FAsleep \<and> HasActions (dwatch s) \<and> w_pc s \<noteq> WNotify)
    \<and> (\<exists>seen. history (dwatch s) = seen @ unread_events (dwatch s)
        \<and> subseq (taken (dwatch s) @ vector (dwatch s)) (concat (map event_actions seen)))"
proof -
  have inv: "mutex_ok s" "wakes_ok s" "batch_ok s"
    using client_inv.holds [OF assms] by simp_all
  have "\<not> (w_pc s = WStore \<and> f_holds (f_pc s))" "\<not> (w_pc s = WStore \<and> u_holds (u_pc s))"
    "\<not> (f_holds (f_pc s) \<and> u_holds (u_pc s))"
    using inv(1) unfolding mutex_ok_def by (metis option.inject tid.distinct)+
  then show ?thesis
    using inv(2,3) by (auto simp: wakes_ok_def batch_ok_def watch_inv_def HasActions_def)
qed

theorem client_threads_exclude_witness: "\<not> (f_holds (f_pc unpaused_copy) \<and> u_holds (u_pc unpaused_copy))"
  using client_threads_exclude [OF unpaused_run] by blast

text \<open>
  C13. The threads of a client never block each other but in one way. Where no thread can take
  a step, either the program has ended, every thread of it, or \<^verbatim>\<open>SyncFromClient\<close> was
  forgotten: it tested the stop flag before the flag was set and slept after the watcher's
  last notification, and then the program never ends.
\<close>

theorem client_ends_or_forgets:
  assumes "reaches init_client (ct_step False) s" and "quiet s"
  shows "(u_pc s = UDone \<and> w_pc s = WDone \<and> f_pc s = FDone \<and> s_pc s = SDone) \<or>
    (forgotten s \<and> stop_f s \<and> {t. reaches s (ct_step False) t} \<subseteq> {t. u_pc t = UJoinF})"
proof -
  have inv: "mutex_ok s" "ending_ok s"
    using client_inv.holds [OF assms(1)] by simp_all
  have w: "w_pc s = WDone" "holder s = None"
    using quiet_watcher [OF assms(2) inv(1)] by simp_all
  then have stop: "stop_w s" "3 \<le> stage (u_pc s)"
    using inv(2) by (auto simp: ending_ok_def)
  have f: "f_pc s = FAsleep \<or> f_pc s = FDone"
    using assms(2) w(2) by (cases "f_pc s") (auto simp: quiet_def f_do_def)
  have sv: "s_pc s = SDone"
    using assms(2) by (cases "s_pc s") (auto simp: quiet_def s_do_def)
  have "u_pc s = UJoinF \<and> f_pc s \<noteq> FDone \<or> u_pc s = UDone"
    using assms(2) stop(2) sv w(1) by (cases "u_pc s") (auto simp: quiet_def u_do_def split: if_splits)
  then show ?thesis
  proof
    assume u: "u_pc s = UJoinF \<and> f_pc s \<noteq> FDone"
    then have "forgotten s"
      using f w(1) sv by (simp add: forgotten_def)
    moreover have "{t. reaches s (ct_step False) t} \<subseteq> {t. u_pc t = UJoinF}"
      using forgotten.holds_from [OF _ \<open>forgotten s\<close>] by (auto simp: forgotten_def)
    ultimately show ?thesis
      using inv(2) u by (simp add: ending_ok_def)
  next
    assume "u_pc s = UDone"
    then show ?thesis
      using inv(2) w(1) sv by (simp add: ending_ok_def)
  qed
qed

theorem client_ends_or_forgets_witness:
  "u_pc forgotten_end = UJoinF \<and> {t. reaches forgotten_end (ct_step False) t} \<subseteq> {t. u_pc t = UJoinF}"
proof -
  have "quiet forgotten_end"
    by (simp add: quiet_def do_defs forgotten_end_def)
  then show ?thesis
    using client_ends_or_forgets [OF forgotten_run] by (simp add: forgotten_end_def)
qed

text \<open>
  C32. A stop request can be lost: there is a run of the client in which the user leaves and
  the program hangs in the destructor of the thread of \<^verbatim>\<open>SyncFromClient\<close> for good, because
  neither the request nor anything after the watcher's last notification wakes that thread.
\<close>

theorem stop_request_lost:
  "\<exists>s. reaches init_client (ct_step False) s \<and> stop_f s \<and> f_pc s = FAsleep
    \<and> {t. reaches s (ct_step False) t} \<subseteq> {t. f_pc t = FAsleep \<and> u_pc t = UJoinF}"
proof (intro exI conjI)
  show "reaches init_client (ct_step False) forgotten_end"
    by (rule forgotten_run)
  have "forgotten forgotten_end"
    by (simp add: forgotten_def forgotten_end_def)
  then show "{t. reaches forgotten_end (ct_step False) t} \<subseteq> {t. f_pc t = FAsleep \<and> u_pc t = UJoinF}"
    using forgotten.holds_from by (auto simp: forgotten_def)
qed (simp_all add: forgotten_end_def)

text \<open>
  The pause is a flag and not a count: a run in which the user's upload is
  copying its file into the watched directory, which it has paused the watcher for, and the
  watcher is not paused, as \<^verbatim>\<open>SyncFromServer\<close> has resumed it.
\<close>

theorem pause_is_shared:
  "\<exists>s. reaches init_client (ct_step sp) s \<and> u_pc s = UUpCopy \<and> \<not> pause (dwatch s)"
proof (intro exI conjI)
  show "reaches init_client (ct_step sp) unpaused_copy"
    by (rule unpaused_run)
qed (simp_all add: unpaused_copy_def Resume_def)

end
