(* ===== verification/Names.thy ===== *)
theory Names
  imports Prelude FileSystem Exchange Layout Replica Composite ClientHandler Client "HOL-Library.AList"
begin

text \<open>
  What every server and client operation keeps of its file system, whatever bytes its peer
  sends. The locale \<open>fs_invariant\<close> asks for a property that the three ways of changing a
  tree keep, and shows that every loop of the program keeps it; it is interpreted for the well-formedness
  of the names, and for the working directory.
\<close>

section \<open>The contract\<close>

lemma set_node_twice: "set_node q n (set_node q m fs) = set_node q n fs"
proof -
  have "AList.update q n (AList.update q m es) = AList.update q n es" for es
    by (induction es) auto
  then show ?thesis
    by (simp add: set_node_def)
qed

lemma broadcast_sfs: "BroadcastCommand f g u i s = Some (ok, s') \<Longrightarrow> sfs s' = sfs s"
  by (auto simp: BroadcastCommand_def put_comp_def Let_def split: option.splits prod.splits bool.splits if_splits)

lemma broadcasts_sfs:
  "BroadcastUpload C u i p s = Some (ok, s') \<Longrightarrow> sfs s' = sfs s"
  "BroadcastDelete C u i p s = Some (ok, s') \<Longrightarrow> sfs s' = sfs s"
  unfolding BroadcastUpload_def BroadcastDelete_def by (rule broadcast_sfs, assumption)+

locale fs_invariant =
  fixes inv :: "fsys \<Rightarrow> bool"
  assumes inv_set: "inv fs \<Longrightarrow> resolve fs p = Inr q \<Longrightarrow> inv (set_node q n fs)"
    and inv_del: "inv fs \<Longrightarrow> inv (del_node q fs)"
    and inv_filter: "inv fs \<Longrightarrow> inv (fs\<lparr>ents := filter P (ents fs)\<rparr>)"
begin

lemma inv_remove: "fs_remove fs p = Inr (b, fs') \<Longrightarrow> inv fs \<Longrightarrow> inv fs'"
  by (auto simp: fs_remove_def inv_del split: sum.splits option.splits node.splits if_splits)

lemma inv_remove_all: "fs_remove_all fs p = Inr fs' \<Longrightarrow> inv fs \<Longrightarrow> inv fs'"
  by (auto dest!: remove_all_result simp: del_below_def inv_filter)

lemma inv_create: "create_directory fs p = Inr (b, fs') \<Longrightarrow> inv fs \<Longrightarrow> inv fs'"
  by (auto simp: create_directory_def inv_set split: sum.splits option.splits node.splits)

lemma inv_open: "open_out fs p = Some (q, fs') \<Longrightarrow> inv fs \<Longrightarrow> inv fs' \<and> inv (set_node q n fs')"
  by (auto simp: open_out_def inv_set set_node_twice split: sum.splits if_splits)

lemma inv_clear: "RemoveAllFromDirectory fs p = Inr fs' \<Longrightarrow> inv fs \<Longrightarrow> inv fs'"
proof -
  have "remove_entries p nms fs = Inr fs' \<Longrightarrow> inv fs \<Longrightarrow> inv fs'" for nms
    by (induction nms arbitrary: fs) (auto dest: inv_remove_all split: sum.splits)
  then show "RemoveAllFromDirectory fs p = Inr fs' \<Longrightarrow> inv fs \<Longrightarrow> inv fs'"
    by (auto simp: RemoveAllFromDirectory_def split: sum.splits)
qed

lemma inv_Receive:
  assumes "Receive C fs x = Some (ok, x', fs')" and "inv fs"
  shows "inv fs'"
proof -
  obtain fs1 where fs1: "(if is_regular_file fs (xpath x) then Inr fs else fs_remove_all fs (xpath x)) = Inr fs1"
    using assms(1) by (auto simp: Receive_def split: sum.splits)
  then have one: "inv fs1"
    using assms(2) inv_remove_all by (auto split: if_splits)
  show ?thesis
  proof (cases "open_out fs1 (xpath x)")
    case None
    then show ?thesis
      using assms(1) one by (auto simp: Receive_def fs1)
  next
    case (Some r)
    then obtain q fs2 where "open_out fs1 (xpath x) = Some (q, fs2)"
      by (cases r) auto
    then show ?thesis
      using assms(1) inv_open [OF _ one]
      by (auto simp: Receive_def fs1 split: prod.splits load.splits option.splits)
  qed
qed

section \<open>The backup\<close>

lemma inv_Backup_command:
  assumes "Backup_command C w x fs = Some (r, x', fs')" and "inv fs"
  shows "inv fs'"
  using assms
  by (auto simp: Backup_command_def Let_def split: wire.splits Command.splits sum.splits option.splits if_splits)
    (metis inv_create inv_remove inv_Receive)+

lemma inv_Backup_loop:
  assumes "Backup_loop C sd i x fs = Some y" and "inv fs"
  shows "inv (snd (snd y))"
proof -
  have "inv fs \<longrightarrow> inv (snd (snd y))"
  proof (rule Backup_loop.raw_induct [of "\<lambda>C sd i x fs y. inv fs \<longrightarrow> inv (snd (snd y))"
        "((((C, sd), i), x), fs)", unfolded prod.case, OF _ assms(1)], intro impI, goal_cases)
    case (1 loop C sd i x fs y)
    let ?r = "ReceiveCommand C x"
    show ?case
    proof (cases "sd i \<or> fst ?r = Inl ECONNABORTED")
      case False
      show ?thesis
      proof (cases "fst ?r")
        case (Inl e)
        then have "loop C sd (i + 1) (snd ?r) fs = Some y"
          using 1(2) False by (simp add: Let_def)
        then show ?thesis
          using 1(1,3) by blast
      next
        case (Inr w)
        then obtain r2 x2 fs2 where c: "Backup_command C w (snd ?r) fs = Some (r2, x2, fs2)"
          using 1(2) False by (cases "Backup_command C w (snd ?r) fs") (auto simp: Let_def)
        note fs2 = inv_Backup_command [OF c 1(3)]
        show ?thesis
          using 1(1) [of C sd "i + 1" x2 fs2 y] 1(2) False c fs2 Inr by (cases r2) (auto simp: Let_def)
      qed
    qed (use 1(2,3) in \<open>auto simp: Let_def split: if_splits\<close>)
  qed
  then show ?thesis
    using assms by blast
qed

lemma inv_Backup_MainLoop: "Backup_MainLoop C sd b fs = Some (r, b', fs') \<Longrightarrow> inv fs \<Longrightarrow> inv fs'"
  by (auto simp: Backup_MainLoop_def split: option.splits dest: inv_Backup_loop [of C sd 0])

section \<open>The server\<close>

lemma inv_broadcast:
  assumes "Receive C fs x = Some (ok, x', fs')" and "BroadcastUpload C u i p (s\<lparr>sfs := fs'\<rparr>) = Some (b, s')" and "inv fs"
  shows "inv (sfs s')"
  using broadcasts_sfs(1) [OF assms(2)] inv_Receive [OF assms(1,3)] by simp

lemma inv_broadcast_del:
  assumes "fs_remove fs q = Inr (ok, fs')" and "BroadcastDelete C u i p (s\<lparr>sfs := fs'\<rparr>) = Some (b, s')" and "inv fs"
  shows "inv (sfs s')"
  using broadcasts_sfs(2) [OF assms(2)] inv_remove [OF assms(1,3)] by simp

lemma inv_Handler_Upload: "Handler_Upload C h s = Some (ok, h', s') \<Longrightarrow> inv (sfs s) \<Longrightarrow> inv (sfs s')"
  by (auto simp: Handler_Upload_def inv_broadcast inv_Receive split: prod.splits bool.splits option.splits)

lemma inv_Handler_Delete: "Handler_Delete C h s = Some (r, h', s') \<Longrightarrow> inv (sfs s) \<Longrightarrow> inv (sfs s')"
  by (auto simp: Handler_Delete_def inv_broadcast_del split: prod.splits bool.splits option.splits sum.splits if_splits)

lemma inv_Handler_command: "Handler_command C T w h s = Some (r, h', s') \<Longrightarrow> inv (sfs s) \<Longrightarrow> inv (sfs s')"
  by (auto simp: Handler_command_def inv_Handler_Upload inv_Handler_Delete split: wire.splits Command.splits)

lemma inv_Handler_turn:
  assumes "Handler_turn C T n h s = Some r" and "inv (sfs s)"
  shows "inv (sfs (case r of Inl (_, _, s') \<Rightarrow> s' | Inr (_, _, s') \<Rightarrow> s'))"
proof (cases "fst (ReceiveCommand C (fe h))")
  case (Inl e)
  then show ?thesis
    using assms by (auto simp: Handler_turn_def Let_def split: if_splits)
next
  case (Inr w)
  show ?thesis
  proof (cases "w = Cmd kExit")
    case False
    then obtain q h' s' where c: "Handler_command C T w (h\<lparr>fe := snd (ReceiveCommand C (fe h))\<rparr>) s = Some (q, h', s')"
      using assms(1) Inr
      by (cases "Handler_command C T w (h\<lparr>fe := snd (ReceiveCommand C (fe h))\<rparr>) s") (auto simp: Handler_turn_def Let_def)
    then show ?thesis
      using assms Inr False inv_Handler_command [OF c] by (cases q) (auto simp: Handler_turn_def Let_def)
  qed (use assms Inr in \<open>auto simp: Handler_turn_def Let_def\<close>)
qed

lemma inv_Handler_loop:
  assumes "Handler_loop C T n h s = Some y" and "inv (sfs s)"
  shows "inv (sfs (snd (snd y)))"
proof -
  have "inv (sfs s) \<longrightarrow> inv (sfs (snd (snd y)))"
  proof (rule Handler_loop.raw_induct [where P = "\<lambda>C T n h s y. inv (sfs s) \<longrightarrow> inv (sfs (snd (snd y)))", OF _ assms(1)], intro impI, goal_cases)
    case (1 loop C T n h s y)
    obtain r where r: "Handler_turn C T n h s = Some r"
      using 1(2) by (cases "Handler_turn C T n h s") auto
    show ?case
      using 1(1) [of C T _ _ _ y] 1(2) r inv_Handler_turn [OF r 1(3)] by (cases r) (auto split: prod.splits)
  qed
  then show ?thesis
    using assms by blast
qed

lemma inv_Sync_command: "Sync_command C w h s = Some (h', s') \<Longrightarrow> inv (sfs s) \<Longrightarrow> inv (sfs s')"
  by (auto simp: Sync_command_def Let_def inv_broadcast inv_broadcast_del
      split: wire.splits Command.splits option.splits sum.splits prod.splits)

lemma inv_Sync_once: "Sync_once C h s = Some t \<Longrightarrow> inv (sfs s) \<Longrightarrow> inv (sfs (snd t))"
  by (cases t) (auto simp: Sync_once_def Let_def inv_Sync_command split: sum.splits)

lemma inv_Sync_loop:
  assumes "Sync_loop C stop i h s = Some y" and "inv (sfs s)"
  shows "inv (sfs (snd y))"
proof -
  have "inv (sfs s) \<longrightarrow> inv (sfs (snd y))"
  proof (rule Sync_loop.raw_induct [where P = "\<lambda>C stop i h s y. inv (sfs s) \<longrightarrow> inv (sfs (snd y))", OF _ assms(1)], intro impI, goal_cases)
    case (1 loop C stop i h s y)
    show ?case
    proof (cases "stop i")
      case False
      then obtain t where t: "Sync_once C h s = Some t"
        using 1(2) by (cases "Sync_once C h s") auto
      then show ?thesis
        using 1(1) [of C stop "i + 1" "fst t" "snd t" y] 1(2) False inv_Sync_once [OF t 1(3)] by simp
    qed (use 1(2,3) in auto)
  qed
  then show ?thesis
    using assms by blast
qed

section \<open>The client\<close>

lemma inv_Client_command: "Client_command C w c fs = Some (c', fs') \<Longrightarrow> inv fs \<Longrightarrow> inv fs'"
  by (auto simp: Client_command_def Let_def inv_Receive inv_remove
      split: wire.splits Command.splits option.splits sum.splits prod.splits if_splits)

lemma inv_receive_entries:
  assumes "receive_entries C x fs = Some y" and "inv fs"
  shows "inv (snd (snd y))"
proof -
  have "inv fs \<longrightarrow> inv (snd (snd y))"
  proof (rule receive_entries.raw_induct [of "\<lambda>C x fs y. inv fs \<longrightarrow> inv (snd (snd y))" "((C, x), fs)",
        unfolded prod.case, OF _ assms(1)], intro impI, goal_cases)
    case (1 loop C x fs y)
    let ?r = "ReceiveCommand C x"
    let ?p = "ReceivePath C (snd ?r)"
    show ?case
    proof (cases "fst ?r = Inr (Cmd kSuccess) \<and> fst ?p")
      case True
      then obtain ok x1 fs1 where t: "Receive C fs (snd ?p) = Some (ok, x1, fs1)"
        using 1(2) by (cases "Receive C fs (snd ?p)") (auto simp: Let_def)
      then show ?thesis
        using 1(1) [of C x1 fs1 y] 1(2) True inv_Receive [OF t 1(3)] by (cases ok) (auto simp: Let_def)
    qed (use 1(2,3) in \<open>auto simp: Let_def split: if_splits\<close>)
  qed
  then show ?thesis
    using assms by blast
qed

lemma inv_GetSyncDir:
  assumes "Client_GetSyncDir C c fs = Some (r, c', fs')" and "inv fs"
  shows "inv fs'"
proof -
  let ?d = "c_SyncDirPath c"
  let ?m = "if exists_path fs ?d then Inr (False, fs) else create_directory fs ?d"
  show ?thesis
  proof (cases ?m)
    case (Inr q)
    then obtain b fs1 where m: "?m = Inr (b, fs1)"
      by (cases q) auto
    then have one: "inv fs1"
      using assms(2) inv_create by (auto split: if_splits)
    show ?thesis
    proof (cases "RemoveAllFromDirectory fs1 ?d")
      case (Inr fs2)
      then have two: "inv fs2"
        using inv_clear one by blast
      then show ?thesis
        using assms(1) m Inr inv_receive_entries [OF _ two]
        by (fastforce simp: Client_GetSyncDir_def split: option.splits)
    qed (use assms(1) m one in \<open>auto simp: Client_GetSyncDir_def\<close>)
  qed (use assms in \<open>auto simp: Client_GetSyncDir_def\<close>)
qed

lemma inv_Reconnect: "ReconnectToServer C net a c fs = Some (ok, c', fs') \<Longrightarrow> inv fs \<Longrightarrow> inv fs'"
  by (auto simp: ReconnectToServer_def Let_def inv_GetSyncDir
      split: prod.splits bool.splits option.splits sum.splits if_splits)

lemma inv_reconnect_loop:
  assumes "reconnect_loop C net i a ist c fs = Some y" and "inv fs"
  shows "inv (snd y)"
proof -
  have "inv fs \<longrightarrow> inv (snd y)"
  proof (rule reconnect_loop.raw_induct [where P = "\<lambda>C net i a ist c fs y. inv fs \<longrightarrow> inv (snd y)", OF _ assms(1)], intro impI, goal_cases)
    case (1 loop C net i a ist c fs y)
    obtain ok c1 fs1 where t: "ReconnectToServer C (net i) a c fs = Some (ok, c1, fs1)"
      using 1(2) by (cases "ReconnectToServer C (net i) a c fs") auto
    show ?case
      using 1(1) [of C net "i + 1" _ _ c1 fs1 y] 1(2) t inv_Reconnect [OF t 1(3)] by (cases ok) (auto simp: Let_def)
  qed
  then show ?thesis
    using assms by blast
qed

lemma inv_find_primary: "find_primary C net c fs = Some t \<Longrightarrow> inv fs \<Longrightarrow> inv (snd t)"
  unfolding find_primary_def Let_def by (rule inv_reconnect_loop)

lemma inv_SyncFromServer:
  assumes "SyncFromServer_loop C stop net i c fs = Some y" and "inv fs"
  shows "inv (snd y)"
proof -
  have "inv fs \<longrightarrow> inv (snd y)"
  proof (rule SyncFromServer_loop.raw_induct [where P = "\<lambda>C stop net i c fs y. inv fs \<longrightarrow> inv (snd y)", OF _ assms(1)], intro impI, goal_cases)
    case (1 loop C stop net i c fs y)
    let ?r = "ReceiveCommand C (server_fe c)" and ?c = "c\<lparr>server_fe := snd (ReceiveCommand C (server_fe c))\<rparr>"
    show ?case
    proof (cases "stop i")
      case False
      show ?thesis
      proof (cases "fst ?r")
        case (Inl e)
        show ?thesis
        proof (cases "e = ECONNABORTED")
          case True
          then obtain t where t: "find_primary C (net i) ?c fs = Some t"
            using 1(2) False Inl by (cases "find_primary C (net i) ?c fs") (auto simp: Let_def)
          then show ?thesis
            using 1(1) [of C stop net "i + 1" "fst t" "snd t" y] 1(2) False Inl True inv_find_primary [OF t 1(3)]
            by (simp add: Let_def)
        qed (use 1 False Inl in \<open>auto simp: Let_def\<close>)
      next
        case (Inr w)
        then obtain c1 fs1 where t: "Client_command C w ?c fs = Some (c1, fs1)"
          using 1(2) False by (cases "Client_command C w ?c fs") (auto simp: Let_def)
        then show ?thesis
          using 1(1) [of C stop net "i + 1" c1 fs1 y] 1(2) False Inr inv_Client_command [OF t 1(3)]
          by (simp add: Let_def)
      qed
    qed (use 1(2,3) in auto)
  qed
  then show ?thesis
    using assms by blast
qed

end

section \<open>Well-formed names\<close>

definition named :: "fsys \<Rightarrow> bool" where
  "named fs = (list_all simple_name (cwd fs) \<and> distinct (map fst (ents fs))
     \<and> (\<forall>r\<in>set (map fst (ents fs)). list_all simple_name r))"

definition clean :: "string \<Rightarrow> bool" where
  "clean c = (CHR ''/'' \<notin> set c \<and> CHR 0x00 \<notin> set c)"

lemma split_slash_clean: "c \<in> set (split_slash p) \<Longrightarrow> CHR ''/'' \<notin> set c"
  by (induction p arbitrary: c) (auto split: if_splits list.splits)

lemma split_slash_set: "\<forall>c\<in>set (split_slash p). \<forall>x\<in>set c. x \<in> set p"
  by (induction p) (auto split: list.splits)

lemma c_str_clean: "CHR 0x00 \<notin> set (c_str p)"
  by (auto simp: c_str_def dest: set_takeWhileD)

lemma split_c_str_clean: "c \<in> set (split_slash (c_str p)) \<Longrightarrow> clean c"
  using split_slash_clean [of c "c_str p"] split_slash_set [of "c_str p"] c_str_clean [of p] by (auto simp: clean_def)

lemma step_name_simple: "list_all simple_name q \<Longrightarrow> clean c \<Longrightarrow> list_all simple_name (step_name q c)"
  by (auto simp: clean_def step_name_def simple_name_def list_all_iff dest: in_set_butlastD)

lemma walk_simple:
  "walk es q cs = Inr r \<Longrightarrow> list_all simple_name q \<Longrightarrow> \<forall>c\<in>set cs. clean c \<Longrightarrow> list_all simple_name r"
  by (induction es q cs rule: walk.induct) (auto simp: step_name_simple split: option.splits node.splits)

lemma resolve_simple: "resolve fs p = Inr q \<Longrightarrow> named fs \<Longrightarrow> list_all simple_name q"
  using walk_simple [of "ents fs" _ "split_slash (c_str p)" q] split_c_str_clean [of _ p]
  by (auto simp: resolve_def named_def split: if_splits)

interpretation names: fs_invariant named
proof unfold_locales
  fix fs :: fsys and p q n
  assume "named fs" and "resolve fs p = Inr q"
  then have "named fs" "list_all simple_name q"
    by (simp_all add: resolve_simple)
  then show "named (set_node q n fs)"
    unfolding named_def set_node_def by (auto simp: AList.update_keys distinct_update)
next
  fix fs :: fsys and q
  assume "named fs"
  then show "named (del_node q fs)"
    unfolding named_def del_node_def by (auto simp: AList.delete_keys distinct_removeAll)
next
  fix fs :: fsys and P
  assume "named fs"
  then show "named (fs\<lparr>ents := filter P (ents fs)\<rparr>)"
    unfolding named_def by (auto intro: distinct_map_filter)
qed

interpretation workdir: fs_invariant "\<lambda>fs. cwd fs = d" for d
  by unfold_locales (simp_all add: set_node_def del_node_def)

lemma named_names_ok: "named fs \<Longrightarrow> names_ok fs"
  by (auto simp: named_def names_ok_def list_all_iff split: prod.splits)

text \<open>\<open>kept\<close>: the names are well formed and the working directory is the same.\<close>

definition kept :: "fsys \<Rightarrow> fsys \<Rightarrow> bool" where
  "kept fs fs' = (named fs' \<and> cwd fs' = cwd fs)"

section \<open>Properties\<close>



end
