(* ===== verification/Tenants.thy ===== *)
theory Tenants
  imports Prelude Commands SocketStream FileSystem Exchange Layout Replica Composite ClientHandler Client ClientSync
    Sessions Failover Names
begin

text \<open>
  The whole server at work: any number of users with any number of devices, both threads of
  every handler of \<^verbatim>\<open>server/ClientHandler.cpp\<close>, one turn at a time in any order, on
  one server state with the backups shared by all users; and what a failover to one of these
  backups gives a client.
\<close>

section \<open>Schedules of both threads\<close>

text \<open>\<^verbatim>\<open>MainLoop\<close> reads the commands of the user, \<^verbatim>\<open>SyncFromClient\<close> what the client's watcher saw.\<close>

datatype channel = Payload | Watched

definition channel_turn :: "codec \<Rightarrow> tables \<Rightarrow> channel \<Rightarrow> handler \<Rightarrow> srv \<Rightarrow> (handler \<times> srv) option" where
  "channel_turn C T ch h s = (case ch of
     Payload \<Rightarrow> (case Handler_turn C T kAttemptAmount h s of Some (Inr (_, t)) \<Rightarrow> Some t | _ \<Rightarrow> None)
   | Watched \<Rightarrow> Sync_once C h s)"

fun run_channels :: "codec \<Rightarrow> tables \<Rightarrow> (nat \<times> channel) list \<Rightarrow> handler list \<Rightarrow> srv \<Rightarrow> (handler list \<times> srv) option" where
  "run_channels C T [] hs s = Some (hs, s)"
| "run_channels C T ((k, ch) # ks) hs s = (case channel_turn C T ch (hs ! k) s of
     None \<Rightarrow> None
   | Some (h', s') \<Rightarrow> run_channels C T ks (hs[k := h']) s')"

text \<open>The operations still to be read on each channel of each handler, and those performed, in order.\<close>

fun next_op :: "nat \<Rightarrow> channel \<Rightarrow> (channel \<Rightarrow> op list) list \<Rightarrow> (channel \<Rightarrow> op list) list" where
  "next_op k ch qs = qs[k := (qs ! k)(ch := tl ((qs ! k) ch))]"

fun channels_ok :: "(nat \<times> channel) list \<Rightarrow> (channel \<Rightarrow> op list) list \<Rightarrow> bool" where
  "channels_ok [] qs = True"
| "channels_ok ((k, ch) # ks) qs = (k < length qs \<and> (qs ! k) ch \<noteq> [] \<and> channels_ok ks (next_op k ch qs))"

fun performed :: "(nat \<times> channel) list \<Rightarrow> int list \<Rightarrow> (channel \<Rightarrow> op list) list \<Rightarrow> (channel \<times> int \<times> op) list" where
  "performed [] ids qs = []"
| "performed ((k, ch) # ks) ids qs = (ch, ids ! k, hd ((qs ! k) ch)) # performed ks ids (next_op k ch qs)"

text \<open>
  What is broadcast of them: \<^verbatim>\<open>MainLoop\<close> does not broadcast the deletion of a file that is not
  there, \<^verbatim>\<open>SyncFromClient\<close> does.
\<close>

fun broadcasts :: "(channel \<times> int \<times> op) list \<Rightarrow> (string \<Rightarrow> string \<Rightarrow> byte list option) \<Rightarrow> (int \<times> op) list" where
  "broadcasts [] m = []"
| "broadcasts ((ch, i, a) # l) m =
     map (Pair i) (if ch = Payload then effective [a] m else [a]) @ broadcasts l (apply_op a m)"

abbreviation ops_of :: "(channel \<times> int \<times> op) list \<Rightarrow> op list" where
  "ops_of l \<equiv> map (snd \<circ> snd) l"

definition of_user :: "string \<Rightarrow> (int \<times> op) list \<Rightarrow> (int \<times> op) list" where
  "of_user u l = filter (\<lambda>t. op_user (snd t) = u) l"

lemma fold_broadcasts: "fold apply_op (map snd (broadcasts l m)) m = fold apply_op (ops_of l) m"
proof (induction l m rule: broadcasts.induct)
  case (2 ch i a l m)
  have "fold apply_op (if ch = Payload then effective [a] m else [a]) m = apply_op a m"
    using effective_same [of "[a]" m] by (simp del: effective.simps apply_op.simps)
  moreover have "fold apply_op (map snd (broadcasts ((ch, i, a) # l) m)) m
    = fold apply_op (map snd (broadcasts l (apply_op a m))) (fold apply_op (if ch = Payload then effective [a] m else [a]) m)"
    by (simp only: broadcasts.simps map_append map_snd_Pair fold_append comp_apply)
  ultimately show ?case
    using 2 by simp
qed simp

section \<open>The state all users share\<close>

definition open_for :: "string set \<Rightarrow> srv \<Rightarrow> bool" where
  "open_for U s = (\<forall>u\<in>U. srv_ready u s \<and> has_dir (sfs s) u)"

definition reached :: "codec \<Rightarrow> string set \<Rightarrow> (int \<times> op) list \<Rightarrow> srv \<Rightarrow> srv \<Rightarrow> bool" where
  "reached C U l s s' = (list_all2 (bak_sent (op_msgs C (map snd l))) (backups s) (backups s')
     \<and> (\<forall>u\<in>U. \<exists>c c'. clients s u = Some c \<and> clients s' u = Some c'
          \<and> list_all2 (\<lambda>d d'. dev_id d' = dev_id d
               \<and> tx (ep (strm (sync_out d'))) = tx (ep (strm (sync_out d))) @ op_msgs C (foreign (dev_id d) (of_user u l)))
              (devices c) (devices c')))"

lemma of_user_simps [simp]:
  "of_user u [] = []" "of_user u (as @ bs) = of_user u as @ of_user u bs"
  by (simp_all add: of_user_def)

lemma of_user_Pair: "list_all (\<lambda>a. op_user a = v) ops \<Longrightarrow> of_user u (map (Pair i) ops) = (if u = v then map (Pair i) ops else [])"
  by (auto simp: of_user_def list_all_iff filter_empty_conv)

lemma reached_refl: "open_for U s \<Longrightarrow> u \<in> U \<Longrightarrow> reached C U [] s s"
  unfolding reached_def open_for_def
  by (auto simp: srv_ready_def unlocked_def bak_sent_def list_all_iff intro!: list.rel_refl_strong)

lemma reached_trans:
  assumes "reached C U as s t" and "reached C U bs t r"
  shows "reached C U (as @ bs) s r"
proof -
  have "list_all2 (bak_sent (op_msgs C (map snd (as @ bs)))) (backups s) (backups r)"
    by (rule list_all2_trans [of "bak_sent (op_msgs C (map snd as))" "bak_sent (op_msgs C (map snd bs))" _ _ "backups t"])
      (use assms in \<open>auto simp: reached_def bak_sent_def\<close>)
  moreover have "\<exists>c c'. clients s u = Some c \<and> clients r u = Some c'
      \<and> list_all2 (\<lambda>d d'. dev_id d' = dev_id d \<and> tx (ep (strm (sync_out d')))
          = tx (ep (strm (sync_out d))) @ op_msgs C (foreign (dev_id d) (of_user u (as @ bs)))) (devices c) (devices c')"
    if u: "u \<in> U" for u
  proof -
    obtain c c1 where c: "clients s u = Some c" "clients t u = Some c1"
      "list_all2 (\<lambda>d d'. dev_id d' = dev_id d \<and> tx (ep (strm (sync_out d')))
          = tx (ep (strm (sync_out d))) @ op_msgs C (foreign (dev_id d) (of_user u as))) (devices c) (devices c1)"
      using assms(1) u by (auto simp: reached_def)
    obtain c2 where c2: "clients r u = Some c2"
      "list_all2 (\<lambda>d d'. dev_id d' = dev_id d \<and> tx (ep (strm (sync_out d')))
          = tx (ep (strm (sync_out d))) @ op_msgs C (foreign (dev_id d) (of_user u bs))) (devices c1) (devices c2)"
      using assms(2) u c(2) by (auto simp: reached_def)
    have "list_all2 (\<lambda>d d'. dev_id d' = dev_id d \<and> tx (ep (strm (sync_out d')))
        = tx (ep (strm (sync_out d))) @ op_msgs C (foreign (dev_id d) (of_user u (as @ bs)))) (devices c) (devices c2)"
      by (rule list_all2_trans [OF _ c(3) c2(2)]) simp
    then show ?thesis
      using c(1) c2(1) by blast
  qed
  ultimately show ?thesis
    by (simp add: reached_def)
qed

text \<open>A command of one user leaves the others' devices and their readiness alone.\<close>

lemma delivered_reached:
  assumes "delivered C u i ops s s'" and "open_for U s" and "u \<in> U" and "list_all (\<lambda>a. op_user a = u) ops"
    and "\<And>v. has_dir (sfs s) v \<Longrightarrow> has_dir (sfs s') v"
  shows "reached C U (map (Pair i) ops) s s'" and "open_for U s'"
proof -
  note d = assms(1) [unfolded delivered_def]
  have ready: "srv_ready v s" if "v \<in> U" for v
    using assms(2) that by (simp add: open_for_def)
  have same: "clients s' v = clients s v" if "v \<noteq> u" for v
    using d that by simp
  have "\<exists>c c'. clients s v = Some c \<and> clients s' v = Some c'
      \<and> list_all2 (\<lambda>d d'. dev_id d' = dev_id d \<and> tx (ep (strm (sync_out d')))
          = tx (ep (strm (sync_out d))) @ op_msgs C (foreign (dev_id d) (of_user v (map (Pair i) ops)))) (devices c) (devices c')"
    if v: "v \<in> U" for v
  proof (cases "v = u")
    case True
    then obtain c c' where c: "clients s v = Some c" "clients s' v = Some c'"
      "list_all2 (dev_sent i (op_msgs C ops)) (devices c) (devices c')"
      using d by auto
    have "list_all2 (\<lambda>d d'. dev_id d' = dev_id d \<and> tx (ep (strm (sync_out d')))
          = tx (ep (strm (sync_out d))) @ op_msgs C (foreign (dev_id d) (of_user v (map (Pair i) ops)))) (devices c) (devices c')"
      using c(3) by (rule list.rel_mono_strong)
        (auto simp: dev_sent_def of_user_Pair [OF assms(4)] foreign_origin True split: if_splits)
    then show ?thesis
      using c(1,2) by blast
  next
    case False
    obtain c where "clients s v = Some c"
      using ready [OF v] by (auto simp: srv_ready_def unlocked_def)
    then show ?thesis
      using same [OF False] False by (auto simp: of_user_Pair [OF assms(4)] intro!: list.rel_refl_strong)
  qed
  moreover have "list_all2 (bak_sent (op_msgs C (map snd (map (Pair i) ops)))) (backups s) (backups s')"
    unfolding map_snd_Pair using d by blast
  ultimately show "reached C U (map (Pair i) ops) s s'"
    unfolding reached_def by blast
  have "srv_ready v s'" if v: "v \<in> U" for v
  proof (cases "v = u")
    case False
    then show ?thesis
      using d ready [OF v] same [OF False] by (auto simp: srv_ready_def unlocked_def)
  qed (use d in simp)
  then show "open_for U s'"
    using assms(2,5) by (simp add: open_for_def)
qed

section \<open>A turn of either thread\<close>

definition attended :: "codec \<Rightarrow> string set \<Rightarrow> (channel \<Rightarrow> op list) \<Rightarrow> handler \<Rightarrow> bool" where
  "attended C U q h = (h_user h \<in> U \<and> sound (strm (fe h)) \<and> sound (strm (csfe h))
     \<and> (\<forall>ch. list_all (session_op C (h_user h)) (q ch))
     \<and> (\<exists>rest. incoming (strm (fe h)) = op_msgs C (q Payload) @ rest)
     \<and> (\<exists>rest. incoming (strm (csfe h)) = op_msgs C (q Watched) @ rest))"

text \<open>\<^verbatim>\<open>MainLoop\<close> does not touch the stream of the other thread.\<close>

lemma handler_parts_csfe:
  "Handler_Upload C h s = Some (ok, h', s') \<Longrightarrow> csfe h' = csfe h"
  "Handler_Delete C h s = Some (r, h', s') \<Longrightarrow> csfe h' = csfe h"
  "Handler_Download C fs h = Some (ok, h') \<Longrightarrow> csfe h' = csfe h"
  "ListServer C T fs h = Some (ok, h') \<Longrightarrow> csfe h' = csfe h"
  by (auto simp: Handler_Upload_def Handler_Delete_def Handler_Download_def ListServer_def Let_def
      split: option.splits prod.splits sum.splits bool.splits if_splits)

lemma Handler_command_csfe: "Handler_command C T w h s = Some (r, h', s') \<Longrightarrow> csfe h' = csfe h"
  by (auto simp: Handler_command_def handler_parts_csfe split: wire.splits Command.splits)

lemma Handler_turn_csfe:
  assumes "Handler_turn C T n h s = Some (Inr (m, h', s'))"
  shows "csfe h' = csfe h"
proof (cases "fst (ReceiveCommand C (fe h))")
  case (Inl e)
  then show ?thesis
    using assms by (auto simp: Handler_turn_def Let_def split: if_splits)
next
  case (Inr w)
  let ?c = "Handler_command C T w (h\<lparr>fe := snd (ReceiveCommand C (fe h))\<rparr>) s"
  have ne: "w \<noteq> Cmd kExit"
    using assms Inr by (auto simp: Handler_turn_def Let_def)
  then obtain r h1 s1 where c: "?c = Some (r, h1, s1)"
    using assms Inr by (cases ?c) (auto simp: Handler_turn_def Let_def)
  then show ?thesis
    using assms Inr ne Handler_command_csfe [OF c]
    by (cases r) (auto simp: Handler_turn_def Let_def flush_payload_def)
qed

lemma attended_first:
  assumes "open_for U s" and "attended C U q h" and "q ch = a # r"
  shows "h_user h \<in> U" "srv_ready (h_user h) s" "has_dir (sfs s) (h_user h)"
    and "session_op C (h_user h) a" "op_ok a" "op_user a = h_user h" "length (op_msg C a) \<le> kBufferSize"
    and "\<forall>ch'. list_all (session_op C (h_user h)) ((q(ch := r)) ch')"
  using assms by (auto simp: attended_def open_for_def session_op_def dest!: spec [of _ ch])

lemma payload_turn_performs:
  assumes "codec_ok C" and "open_for U s" and "attended C U q h" and "q Payload = a # r"
  obtains h' s' where "Handler_turn C T kAttemptAmount h s = Some (Inr (kAttemptAmount, h', s'))"
    and "attended C U (q(Payload := r)) h'" and "h_id h' = h_id h" and "follows (sfs s) (sfs s') [a]" and "open_for U s'"
    and "reached C U (map (Pair (h_id h)) (effective [a] (contents (sfs s)))) s s'"
proof -
  let ?u = "h_user h" and ?m = "contents (sfs s)"
  note att = assms(3) [unfolded attended_def]
  note u = attended_first(1-3) [OF assms(2-4)] and a = attended_first(4-7) [OF assms(2-4)]
    and queues = attended_first(8) [OF assms(2-4)]
  obtain rest where inc: "incoming (strm (fe h)) = op_msg C a @ op_msgs C r @ rest"
    using att assms(4) by auto
  obtain h' s' where t: "Handler_turn C T kAttemptAmount h s = Some (Inr (kAttemptAmount, h', s'))"
    "session_step C ?u (h_id h) [a] (effective [a] ?m) (op_msgs C r @ rest) h s h' s'"
    by (rule Handler_turn_op [where n = kAttemptAmount and T = T, OF assms(1) u(2,3) a(2-4) _ inc])
      (use att that in blast)+
  note st = t(2) [unfolded session_step_def]
  have users: "list_all (\<lambda>a. op_user a = ?u) (effective [a] ?m)"
    by (rule effective_ok) (use a(3) in simp)
  have del: "delivered C ?u (h_id h) (effective [a] ?m) s s'"
    using st by blast
  have dirs: "has_dir (sfs s) v \<Longrightarrow> has_dir (sfs s') v" for v
    using st by (simp add: follows_def)
  have "took (op_msgs C r @ rest) (strm (fe h)) (strm (fe h'))"
    using st by blast
  then have "attended C U (q(Payload := r)) h'"
    using att st queues Handler_turn_csfe [OF t(1)] took_sound [of "op_msgs C r @ rest"]
    by (auto simp: attended_def)
  then show thesis
    using that [OF t(1)] st delivered_reached [OF del assms(2) u(1) users dirs]
    by simp
qed

lemma watched_turn_performs:
  assumes "codec_ok C" and "open_for U s" and "attended C U q h" and "q Watched = a # r"
  obtains h' s' where "Sync_once C h s = Some (h', s')"
    and "attended C U (q(Watched := r)) h'" and "h_id h' = h_id h" and "follows (sfs s) (sfs s') [a]" and "open_for U s'"
    and "reached C U (map (Pair (h_id h)) [a]) s s'"
proof -
  let ?u = "h_user h"
  note att = assms(3) [unfolded attended_def]
  note u = attended_first(1-3) [OF assms(2-4)] and a = attended_first(4-7) [OF assms(2-4)]
    and queues = attended_first(8) [OF assms(2-4)]
  obtain rest where inc: "incoming (strm (csfe h)) = op_msg C a @ op_msgs C r @ rest"
    using att assms(4) by auto
  have inv: "sync_inv (h, s)" "sync_admits C (h, s) a" "sound (strm (csfe h))"
    using u att a(1) by (simp_all add: sync_inv_def sync_admits_def)
  obtain h' s' where t: "Sync_once C h s = Some (h', s')"
    "took (op_msgs C r @ rest) (strm (csfe h)) (strm (csfe h'))" "sync_effect C [a] (h, s) (h', s')"
    using Sync_once_op [OF assms(1) inv inc] by auto
  note st = t(3) [unfolded sync_effect_def fst_conv snd_conv]
  have users: "list_all (\<lambda>a. op_user a = ?u) [a]"
    using a(3) by simp
  have del: "delivered C ?u (h_id h) [a] s s'"
    using st by blast
  have dirs: "has_dir (sfs s) v \<Longrightarrow> has_dir (sfs s') v" for v
    using st by (simp add: follows_def)
  have "attended C U (q(Watched := r)) h'"
    using att st queues took_sound [OF t(2)] by (auto simp: attended_def)
  then show thesis
    using that [OF t(1)] st delivered_reached [OF del assms(2) u(1) users dirs]
    by simp
qed

lemma channel_turn_performs:
  assumes "codec_ok C" and "open_for U s" and "attended C U q h" and "q ch = a # r"
  obtains h' s' where "channel_turn C T ch h s = Some (h', s')" and "attended C U (q(ch := r)) h'"
    and "h_id h' = h_id h" and "follows (sfs s) (sfs s') [a]" and "open_for U s'"
    and "reached C U (map (Pair (h_id h)) (if ch = Payload then effective [a] (contents (sfs s)) else [a])) s s'"
proof (cases ch)
  case Payload
  obtain h' s' where "Handler_turn C T kAttemptAmount h s = Some (Inr (kAttemptAmount, h', s'))"
    "attended C U (q(Payload := r)) h'" "h_id h' = h_id h" "follows (sfs s) (sfs s') [a]" "open_for U s'"
    "reached C U (map (Pair (h_id h)) (effective [a] (contents (sfs s)))) s s'"
    by (rule payload_turn_performs [OF assms(1-3) assms(4) [unfolded Payload], of T]) (rule that; assumption)
  then show thesis
    using that [of h' s'] Payload by (simp add: channel_turn_def)
next
  case Watched
  obtain h' s' where "Sync_once C h s = Some (h', s')"
    "attended C U (q(Watched := r)) h'" "h_id h' = h_id h" "follows (sfs s) (sfs s') [a]" "open_for U s'"
    "reached C U (map (Pair (h_id h)) [a]) s s'"
    by (rule watched_turn_performs [OF assms(1-3) assms(4) [unfolded Watched]]) (rule that; assumption)
  then show thesis
    using that [of h' s'] Watched by (simp add: channel_turn_def)
qed

section \<open>Any schedule\<close>

lemma channels_perform:
  assumes "codec_ok C" and "open_for U s" and "u \<in> U" and "layout (sfs s)"
    and "list_all2 (attended C U) qs hs" and "channels_ok ks qs"
  shows "\<exists>hs' s'. run_channels C T ks hs s = Some (hs', s') \<and> open_for U s'
    \<and> follows (sfs s) (sfs s') (ops_of (performed ks (map h_id hs) qs))
    \<and> reached C U (broadcasts (performed ks (map h_id hs) qs) (contents (sfs s))) s s'"
  using assms(2,4-)
proof (induction ks arbitrary: qs hs s)
  case Nil
  then show ?case
    using follows_refl reached_refl assms(3) by auto
next
  case (Cons kch ks)
  obtain k ch where kch: "kch = (k, ch)"
    by fastforce
  let ?m = "contents (sfs s)"
  obtain a r where q: "(qs ! k) ch = a # r"
    using Cons.prems(4) kch by (cases "(qs ! k) ch") auto
  have k: "k < length qs" "length hs = length qs" "attended C U (qs ! k) (hs ! k)"
    using Cons.prems(3,4) kch by (auto simp: list_all2_conv_all_nth)
  obtain h' s1 where t: "channel_turn C T ch (hs ! k) s = Some (h', s1)" "attended C U ((qs ! k)(ch := r)) h'"
    "h_id h' = h_id (hs ! k)" "follows (sfs s) (sfs s1) [a]" "open_for U s1"
    "reached C U (map (Pair (h_id (hs ! k))) (if ch = Payload then effective [a] ?m else [a])) s s1"
    by (rule channel_turn_performs [where T = T, OF assms(1) Cons.prems(1) k(3) q]) (rule that; assumption)
  have ids: "map h_id (hs[k := h']) = map h_id hs"
    using k t(3) by (simp add: map_update list_update_same_conv)
  let ?qs = "next_op k ch qs"
  have qs: "?qs = qs[k := (qs ! k)(ch := r)]"
    using q by simp
  have upd: "list_all2 (attended C U) (qs[k := (qs ! k)(ch := r)]) (hs[k := h'])"
    by (rule list_all2_update_cong [where P = "attended C U"]) (fact Cons.prems(3), fact t(2))
  have pre: "layout (sfs s1)" "list_all2 (attended C U) ?qs (hs[k := h'])" "channels_ok ks ?qs"
    using followsD(1) [OF t(4)] upd Cons.prems(4) q kch
    by (simp_all add: qs del: next_op.simps)
  have m1: "contents (sfs s1) = apply_op a ?m"
    using t(4) by (simp add: follows_def)
  obtain hs' s' where r: "run_channels C T ks (hs[k := h']) s1 = Some (hs', s')" "open_for U s'"
    "follows (sfs s1) (sfs s') (ops_of (performed ks (map h_id hs) ?qs))"
    "reached C U (broadcasts (performed ks (map h_id hs) ?qs) (apply_op a ?m)) s1 s'"
    using Cons.IH [OF t(5) pre] unfolding ids m1 by blast
  show ?case
    using r(1,2) t(1) follows_trans [OF t(4) r(3)] reached_trans [OF t(6) r(4)] k(1,2) q kch
    by (simp add: nth_map comp_def del: next_op.simps effective.simps)
qed

section \<open>What a backup makes of it\<close>

lemma performed_ok:
  assumes "list_all2 (attended C U) qs hs" and "channels_ok ks qs"
  shows "list_all op_ok (ops_of (performed ks ids qs))"
proof -
  have "list_all (\<lambda>q. \<forall>ch. list_all op_ok (q ch)) qs"
    using assms(1) by (induction rule: list_all2_induct) (auto simp: attended_def session_op_def list_all_iff)
  then show ?thesis
    using assms(2)
  proof (induction ks arbitrary: qs)
    case (Cons kch ks)
    obtain k ch where kch: "kch = (k, ch)"
      by fastforce
    obtain a r where q: "(qs ! k) ch = a # r"
      using Cons.prems(2) kch by (cases "(qs ! k) ch") auto
    have k: "\<forall>ch. list_all op_ok ((qs ! k) ch)" "k < length qs"
      using Cons.prems kch by (auto simp: list_all_length)
    have "list_all op_ok (((qs ! k)(ch := r)) ch')" for ch'
      using k(1) [rule_format, of ch'] k(1) [rule_format, of ch] q by simp
    then have "list_all (\<lambda>q. \<forall>ch. list_all op_ok (q ch)) (qs[k := (qs ! k)(ch := r)])"
      using Cons.prems(1) by (auto simp: list_all_iff simp del: fun_upd_apply dest!: set_update_subset_insert [THEN subsetD])
    then show ?case
      using Cons.IH [of "next_op k ch qs"] Cons.prems(2) q k(1) kch by (auto dest: spec [of _ ch])
  qed simp
qed

lemma broadcasts_ok: "list_all P (ops_of l) \<Longrightarrow> list_all P (map snd (broadcasts l m))"
proof (induction l m rule: broadcasts.induct)
  case (2 ch i a l m)
  have "list_all P (if ch = Payload then effective [a] m else [a])"
    using 2(2) effective_ok [of P "[a]" m] by simp
  then show ?case
    using 2 unfolding broadcasts.simps map_append map_snd_Pair by (simp add: comp_def)
qed simp

text \<open>A backup that is sent what the server broadcasts has the server's files.\<close>

lemma backup_has_files:
  assumes "codec_ok C" and "open_for U s" and "u \<in> U" and "layout (sfs s)"
    and "list_all2 (attended C U) qs hs" and "channels_ok ks qs" and "l = performed ks (map h_id hs) qs"
    and "layout bfs" and "contents bfs = contents (sfs s)" and "\<And>j. \<not> sd j" and "sound (strm (exchange_s b))"
    and "incoming (strm (exchange_s b)) = op_msgs C (map snd (broadcasts l (contents (sfs s))))"
  obtains b' bfs' where "Backup_MainLoop C sd b bfs = Some (Inr kLostConnectionToPrimary, b', bfs')"
    and "follows bfs bfs' (map snd (broadcasts l (contents (sfs s))))"
    and "contents bfs' = fold apply_op (ops_of l) (contents (sfs s))"
proof -
  have ok: "list_all op_ok (map snd (broadcasts l (contents (sfs s))))"
    unfolding assms(7) by (rule broadcasts_ok [OF performed_ok [OF assms(5,6)]])
  obtain x bfs' where "Backup_loop C sd 0 (exchange_s b) bfs = Some (Inr kLostConnectionToPrimary, x, bfs')"
    "follows bfs bfs' (map snd (broadcasts l (contents (sfs s))))"
    using Backup_loop_ops [where sd = sd and i = 0, OF assms(1,8) ok assms(11,10,12)] by blast
  then show thesis
    using that [of "b\<lparr>exchange_s := x\<rparr>" bfs'] assms(9) by (simp add: Backup_MainLoop_def follows_def fold_broadcasts)
qed

text \<open>What is stored can be sent: the paths and sizes fit the messages.\<close>

definition stored_ok :: "(string \<Rightarrow> string \<Rightarrow> byte list option) \<Rightarrow> bool" where
  "stored_ok m = (\<forall>u f bs. m u f = Some bs \<longrightarrow> str_ok (user_path u f) \<and> size_ok bs)"

lemma stored_ok_apply: "op_ok a \<Longrightarrow> stored_ok m \<Longrightarrow> stored_ok (apply_op a m)"
  by (cases a) (auto simp: stored_ok_def)

lemma stored_ok_fold: "list_all op_ok ops \<Longrightarrow> stored_ok m \<Longrightarrow> stored_ok (fold apply_op ops m)"
  by (induction ops arbitrary: m) (simp_all add: stored_ok_apply)

lemma stored_files_ok:
  assumes "layout fs" and "has_dir fs u" and "user_name u" and "names_ok fs" and "stored_ok (contents fs)"
  shows "files_ok fs u"
  using names_of_user(2) [OF assms(1-4)] assms(5) by (fastforce simp: files_ok_def list_all_iff stored_ok_def)

section \<open>A sample\<close>

text \<open>One device, whose user uploads a file and deletes another one in its directory.\<close>

definition busy_handler :: handler where
  "busy_handler = (sample_handler (op_msgs pb_codec [Put ''u'' ''g'' [7]]))
     \<lparr>csfe := \<lparr>xpath = [], strm = fresh (op_msgs pb_codec [Del ''u'' ''f''])\<rparr>\<rparr>"

definition busy_queue :: "channel \<Rightarrow> op list" where
  "busy_queue ch = (case ch of Payload \<Rightarrow> [Put ''u'' ''g'' [7]] | Watched \<Rightarrow> [Del ''u'' ''f''])"

definition busy_sched :: "(nat \<times> channel) list" where
  "busy_sched = [(0, Watched), (0, Payload)]"

definition busy_ops :: "(channel \<times> int \<times> op) list" where
  "busy_ops = [(Watched, 4, Del ''u'' ''f''), (Payload, 4, Put ''u'' ''g'' [7])]"

lemma busy_attended: "list_all2 (attended pb_codec {''u''}) [busy_queue] [busy_handler]"
proof -
  have ops: "list_all (session_op pb_codec ''u'') (busy_queue ch)" for ch
    by (cases ch) (simp_all add: busy_queue_def session_op_def user_name_def simple_name_def
      str_ok_def size_ok_def upload_msg_def path_msg_def file_msg_def pb_codec_def kBufferSize_val)
  have inc: "incoming (strm (fe busy_handler)) = op_msgs pb_codec (busy_queue Payload) @ []"
    "incoming (strm (csfe busy_handler)) = op_msgs pb_codec (busy_queue Watched) @ []"
    by (simp_all add: busy_handler_def sample_handler_def busy_queue_def)
  have "attended pb_codec {''u''} busy_queue busy_handler"
    unfolding attended_def
    by (intro conjI allI exI, goal_cases)
      (simp_all add: inc ops, simp_all add: busy_handler_def sample_handler_def ops)
  then show ?thesis
    by simp
qed

lemma busy_performed: "performed busy_sched (map h_id [busy_handler]) [busy_queue] = busy_ops"
  by (simp add: busy_sched_def busy_ops_def busy_handler_def sample_handler_def busy_queue_def)

lemma busy_channels: "channels_ok busy_sched [busy_queue]"
  by (simp add: busy_sched_def busy_queue_def)

lemma busy_open: "open_for {''u''} sample_srv" "layout (sfs sample_srv)" "0 < length (backups sample_srv)"
    "contents sample_fs = contents (sfs sample_srv)"
  using sample_srv_ready sample_has_dir sample_layout by (simp_all add: open_for_def sample_srv_def)

definition busy_backup :: backup where
  "busy_backup = sample_backup (op_msgs pb_codec (map snd (broadcasts busy_ops (contents sample_fs))))"

lemma busy_backup_reads:
  "sound (strm (exchange_s busy_backup))"
  "incoming (strm (exchange_s busy_backup)) = op_msgs pb_codec (map snd (broadcasts busy_ops (contents (sfs sample_srv))))"
  by (simp_all add: busy_backup_def sample_backup_def sample_srv_def)

section \<open>Properties\<close>

text \<open>
  C2. The server as a whole is a sequence of operations, and so is every backup of it: in
  whatever order the main loops and the sync threads of all users' handlers take their turns, all of them
  succeed, the server's files are those that performing the operations in that order gives, a
  device is sent the broadcasts of its user's other devices and nothing else, and each backup
  is sent all broadcasts in that order, from which it gets exactly the server's files.
\<close>

theorem server_serves_everyone:
  assumes "codec_ok C" and "open_for U s" and "u \<in> U" and "layout (sfs s)"
    and "list_all2 (attended C U) qs hs" and "channels_ok ks qs" and "l = performed ks (map h_id hs) qs"
    and "sent = broadcasts l (contents (sfs s))"
    and "i < length (backups s)" and "layout bfs" and "contents bfs = contents (sfs s)" and "\<And>j. \<not> sd j"
    and "sound (strm (exchange_s b))" and "incoming (strm (exchange_s b)) = op_msgs C (map snd sent)"
  shows "\<exists>hs' s' k k'. run_channels C T ks hs s = Some (hs', s')
    \<and> contents (sfs s') = fold apply_op (ops_of l) (contents (sfs s))
    \<and> clients s u = Some k \<and> clients s' u = Some k'
    \<and> list_all2 (\<lambda>d d'. tx (ep (strm (sync_out d')))
        = tx (ep (strm (sync_out d))) @ op_msgs C (foreign (dev_id d) (of_user u sent))) (devices k) (devices k')
    \<and> tx (ep (strm (sender (backups s' ! i)))) = tx (ep (strm (sender (backups s ! i)))) @ incoming (strm (exchange_s b))
    \<and> (\<exists>b' bfs'. Backup_MainLoop C sd b bfs = Some (Inr kLostConnectionToPrimary, b', bfs')
        \<and> contents bfs' = contents (sfs s'))"
proof -
  obtain hs' s' where run: "run_channels C T ks hs s = Some (hs', s')" "follows (sfs s) (sfs s') (ops_of l)"
    "reached C U sent s s'"
    using channels_perform [OF assms(1-6), of T] assms(7,8) by blast
  obtain k k' where k: "clients s u = Some k" "clients s' u = Some k'"
    "list_all2 (\<lambda>d d'. dev_id d' = dev_id d \<and> tx (ep (strm (sync_out d')))
        = tx (ep (strm (sync_out d))) @ op_msgs C (foreign (dev_id d) (of_user u sent))) (devices k) (devices k')"
    using run(3) assms(3) by (auto simp: reached_def)
  have "tx (ep (strm (sender (backups s' ! i)))) = tx (ep (strm (sender (backups s ! i)))) @ op_msgs C (map snd sent)"
    using run(3) assms(9) by (auto simp: reached_def bak_sent_def list_all2_conv_all_nth)
  moreover have "list_all2 (\<lambda>d d'. tx (ep (strm (sync_out d')))
        = tx (ep (strm (sync_out d))) @ op_msgs C (foreign (dev_id d) (of_user u sent))) (devices k) (devices k')"
    using k(3) by (rule list_all2_mono) simp
  moreover obtain b' bfs' where "Backup_MainLoop C sd b bfs = Some (Inr kLostConnectionToPrimary, b', bfs')"
    "contents bfs' = fold apply_op (ops_of l) (contents (sfs s))"
    by (rule backup_has_files [where sd = sd and b = b and bfs = bfs, OF assms(1-7,10-13)]) (use assms(8,14) that in auto)
  ultimately show ?thesis
    using run(1) followsD(3) [OF run(2)] k(1,2) assms(14) by auto
qed

theorem server_serves_everyone_witness:
  "\<exists>hs' s' b' bfs'. run_channels pb_codec sample_tables busy_sched [busy_handler] sample_srv = Some (hs', s')
    \<and> Backup_MainLoop pb_codec (\<lambda>_. False) busy_backup sample_fs = Some (Inr kLostConnectionToPrimary, b', bfs')
    \<and> contents bfs' = contents (sfs s') \<and> contents bfs' ''u'' ''g'' = Some [7] \<and> contents bfs' ''u'' ''f'' = None"
  using server_serves_everyone [OF pb_codec_ok busy_open(1) _ busy_open(2) busy_attended busy_channels
      busy_performed [symmetric] refl busy_open(3) sample_layout busy_open(4) _ busy_backup_reads,
      of "''u''" "\<lambda>_. False" sample_tables]
  by (auto simp: busy_ops_def)

text \<open>
  C4. A failover loses nothing: when the server is gone after any such history, and a backup
  that was sent all of it is the first to accept the client that looks for a new primary, the client's
  directory ends up with exactly the files of its user that the lost server had.
\<close>

theorem failover_keeps_files:
  assumes "codec_ok C" and "open_for U s" and "u \<in> U" and "layout (sfs s)"
    and "list_all2 (attended C U) qs hs" and "channels_ok ks qs"
    and "run_channels C T ks hs s = Some (hs', s')"
    and "layout bfs" and "named bfs" and "has_dir bfs u" and "stored_ok (contents bfs)"
    and "contents bfs = contents (sfs s)" and "\<And>j. \<not> sd j" and "sound (strm (exchange_s b))"
    and "incoming (strm (exchange_s b))
      = op_msgs C (map snd (broadcasts (performed ks (map h_id hs) qs) (contents (sfs s))))"
    and "Backup_MainLoop C sd b bfs = Some (r, b', bfs')"
    and "c_servers c = server_list (Primary_SetServers (a # as) s0)" and "server_list s0 = []"
    and "plain_ips (a # as)" and "k \<le> length as" and "\<forall>j<k. net j (ip ((a # as) ! j)) 0 = None"
    and "net k (ip ((a # as) ! k)) 0 = Some p" and "net k (ip ((a # as) ! k)) 1 = Some q1"
    and "net k (ip ((a # as) ! k)) 2 = Some q2"
    and "reusable (strm (payload_fe c))" and "pending (strm (payload_fe c)) = []" and "answers p"
    and "rx_bytes (rx p) = sync_dir_msg C bfs' u @ rest" and "length (enc_str C u) \<le> kBufferSize"
    and "c_user c = u" and "user_name u" and "layout cl" and "names_ok cl"
  shows "\<exists>c' cl'. find_primary C net c cl = Some (c', cl') \<and> contents cl' = (contents cl)(u := contents (sfs s') u)"
proof -
  let ?l = "performed ks (map h_id hs) qs"
  have srv: "contents (sfs s') = fold apply_op (ops_of ?l) (contents (sfs s))"
    using channels_perform [OF assms(1-6), of T] assms(7) by (auto simp: follows_def)
  obtain b1 bfs1 where "Backup_MainLoop C sd b bfs = Some (Inr kLostConnectionToPrimary, b1, bfs1)"
    "follows bfs bfs1 (map snd (broadcasts ?l (contents (sfs s))))"
    "contents bfs1 = fold apply_op (ops_of ?l) (contents (sfs s))"
    by (rule backup_has_files [where sd = sd and b = b and bfs = bfs, OF assms(1-6) refl assms(8,12,13,14,15)])
      (rule that; assumption)
  then have bak: "follows bfs bfs' (map snd (broadcasts ?l (contents (sfs s))))"
    "contents bfs' = fold apply_op (ops_of ?l) (contents (sfs s))"
    using assms(16) by simp_all
  have lay: "layout bfs'" "has_dir bfs' u"
    using followsD [OF bak(1)] assms(10) by simp_all
  have names: "names_ok bfs'"
    using names.inv_Backup_MainLoop [OF assms(16,9)] named_names_ok by blast
  have "stored_ok (contents bfs')"
    unfolding bak(2) using stored_ok_fold [OF performed_ok [OF assms(5,6)]] assms(11,12) by simp
  then have files: "files_ok bfs' u"
    using stored_files_ok [OF lay assms(31) names] by simp
  show ?thesis
    using failover_resyncs [where net = net and k = k and p = p and c = c and sv = bfs' and cl = cl, OF assms(1,17-31) lay names files assms(32,33)] bak(2) srv by auto
qed

theorem failover_keeps_files_witness:
  "\<exists>hs' s' b' bfs' net c' cl'. run_channels pb_codec sample_tables busy_sched [busy_handler] sample_srv = Some (hs', s')
    \<and> Backup_MainLoop pb_codec (\<lambda>_. False) busy_backup sample_fs = Some (Inr kLostConnectionToPrimary, b', bfs')
    \<and> find_primary pb_codec net
        ((sample_client [] [])\<lparr>c_servers := server_list (Primary_SetServers sample_addrs empty_srv)\<rparr>) sample_client_fs
      = Some (c', cl')
    \<and> contents cl' ''u'' = contents (sfs s') ''u''"
proof -
  let ?c = "(sample_client [] [])\<lparr>c_servers := server_list (Primary_SetServers sample_addrs empty_srv)\<rparr>"
  let ?as = "[Addr 1 ''10.0.0.2'' 9]"
  obtain hs' s' where run: "run_channels pb_codec sample_tables busy_sched [busy_handler] sample_srv = Some (hs', s')"
    using channels_perform [OF pb_codec_ok busy_open(1) _ busy_open(2) busy_attended busy_channels, of "''u''" sample_tables] by auto
  obtain b' bfs' where bak: "Backup_MainLoop pb_codec (\<lambda>_. False) busy_backup sample_fs
      = Some (Inr kLostConnectionToPrimary, b', bfs')"
    by (rule backup_has_files [where sd = "\<lambda>_. False" and b = busy_backup and bfs = sample_fs, OF pb_codec_ok busy_open(1)
          _ busy_open(2) busy_attended busy_channels busy_performed [symmetric] sample_layout busy_open(4)
          _ busy_backup_reads, of "''u''"]) (use that in auto)
  let ?m = "sync_dir_msg pb_codec bfs' ''u''"
  let ?p = "\<lparr>rx = [RdData ?m], wr = [], tx = []\<rparr>"
  let ?net = "\<lambda>(i :: nat) (a :: string) (j :: nat). if a \<noteq> ''10.0.0.2'' then None else if j = 0 then Some ?p else Some silent"
  have ne: "?m \<noteq> []"
    by (simp add: sync_dir_msg_def entries_msg_def pb_codec_def)
  have "named sample_fs" "stored_ok (contents sample_fs)"
    by (simp add: named_def sample_fs_def simple_name_def)
      (simp add: stored_ok_def sample_contents str_ok_def size_ok_def)
  then have fs: "named sample_fs" "has_dir sample_fs ''u''" "stored_ok (contents sample_fs)"
    using sample_has_dir by simp_all
  have net: "plain_ips (Addr 0 ''10.0.0.1'' 9 # ?as)" "1 \<le> length ?as"
    "\<forall>j<1. ?net j (ip ((Addr 0 ''10.0.0.1'' 9 # ?as) ! j)) 0 = None"
    "?net 1 (ip ((Addr 0 ''10.0.0.1'' 9 # ?as) ! 1)) 0 = Some ?p"
    "?net 1 (ip ((Addr 0 ''10.0.0.1'' 9 # ?as) ! 1)) 1 = Some silent"
    "?net 1 (ip ((Addr 0 ''10.0.0.1'' 9 # ?as) ! 1)) 2 = Some silent"
    by (simp_all add: plain_ips_def Addr_def)
  have c: "reusable (strm (payload_fe ?c))" "pending (strm (payload_fe ?c)) = []"
    by (simp_all add: sample_client_def reusable_def)
  have p: "answers ?p" "rx_bytes (rx ?p) = ?m @ []" "length (enc_str pb_codec ''u'') \<le> kBufferSize"
    using ne rx_bytes_one [OF ne] by (simp_all add: answers_def pb_codec_def kBufferSize_val)
  have l: "c_servers ?c = server_list (Primary_SetServers (Addr 0 ''10.0.0.1'' 9 # ?as) empty_srv)"
    "server_list empty_srv = []"
    by (simp_all add: sample_addrs_def empty_srv_def)
  have u: "c_user ?c = ''u''" "user_name ''u''"
    by (simp_all add: sample_client_def user_name_def)
  have inc: "incoming (strm (exchange_s busy_backup)) = op_msgs pb_codec
      (map snd (broadcasts (performed busy_sched (map h_id [busy_handler]) [busy_queue]) (contents (sfs sample_srv))))"
    unfolding busy_performed by (rule busy_backup_reads(2))
  have "\<exists>c' cl'. find_primary pb_codec ?net ?c sample_client_fs = Some (c', cl')
      \<and> contents cl' = (contents sample_client_fs)(''u'' := contents (sfs s') ''u'')"
    by (rule failover_keeps_files [where k = 1 and net = ?net and rest = "[]" and p = ?p and u = "''u''" and U = "{''u''}"
          and sd = "\<lambda>_. False", OF pb_codec_ok busy_open(1) _ busy_open(2) busy_attended busy_channels run sample_layout
          fs busy_open(4) _ busy_backup_reads(1) inc bak l net c p u sample_client_layout sample_names(2)]) simp_all
  then show ?thesis
    using run bak by fastforce
qed

end
