(* ===== verification/Messages.thy ===== *)
theory Messages
  imports Prelude Commands Sockets Election Composite Inotify Server
begin

text \<open>
  What the program says when something goes wrong: the texts of the exceptions of
  \<^verbatim>\<open>common/exceptions.hpp\<close> and \<^verbatim>\<open>Socket.hpp\<close>, the formatters of the enumerations, and the end
  of the two \<^verbatim>\<open>main\<close> functions, which turns an exception into a line of output and a
  status. Also \<^verbatim>\<open>common/connections.hpp\<close>, two helpers that nothing calls.
\<close>

section \<open>Texts\<close>

definition Listening_what :: string where
  "Listening_what = ''Failure when listening''"

definition SetTimeout_what :: string where
  "SetTimeout_what = ''Error in setting timeout''"

fun ring_what :: "ring_exn \<Rightarrow> string" where
  "ring_what SocketCreation = ''Failure when creating sockets''"
| "ring_what Binding = ''Failure when binding to socket''"
| "ring_what Listening = Listening_what"
| "ring_what SetTimeoutException = SetTimeout_what"

definition Connecting_what :: string where
  "Connecting_what = ''Failure when connecting to address''"

definition Username_what :: string where
  "Username_what = ''Failure when exchanging username''"

text \<open>An exception of the constructor is described by its own text: \<open>msg\<close>.\<close>

fun emplace_what :: "(int \<Rightarrow> string) \<Rightarrow> emplace_exn \<Rightarrow> string" where
  "emplace_what msg FullList = ''Client list is full of devices''"
| "emplace_what msg (CtorThrew e) = msg e"

fun KeepAliveError_name :: "KeepAliveError \<Rightarrow> string" where
  "KeepAliveError_name kIdleTime = ''kIdleTime''"
| "KeepAliveError_name kMaxProbes = ''kMaxProbes''"
| "KeepAliveError_name kTimeBetween = ''kTimeBetween''"
| "KeepAliveError_name kEnable = ''kEnable''"

definition KeepAlive_what :: "(int \<Rightarrow> string) \<Rightarrow> KeepAliveError \<Rightarrow> int \<Rightarrow> string" where
  "KeepAlive_what msg k e = ''SetKeepAlive::'' @ KeepAliveError_name k @ '' '' @ msg e"

fun Error_text :: "Error \<Rightarrow> string" where
  "Error_text kPreviousBroken = ''Previous connection in ring is broken''"
| "Error_text kNextBroken = ''Next connection in the ring is broken''"

definition format_Command :: "wire \<Rightarrow> string" where
  "format_Command = StrFromCommand"

section \<open>The end of main\<close>

text \<open>
  \<open>msg\<close> is the text of an error code, \<open>variant\<close> that of the library's
  \<^verbatim>\<open>bad_variant_access\<close>. The result is what is printed and the exit status.
\<close>

fun server_what :: "(int \<Rightarrow> string) \<Rightarrow> string \<Rightarrow> server_exn \<Rightarrow> string" where
  "server_what msg variant (PrimaryThrew e) = ring_what e"
| "server_what msg variant (KeepAliveThrew k e) = KeepAlive_what msg k e"
| "server_what msg variant (BackupThrew e) = msg e"
| "server_what msg variant BadVariant = variant"

definition EXIT_SUCCESS :: int where "EXIT_SUCCESS = 0"

definition server_exit :: "(int \<Rightarrow> string) \<Rightarrow> string \<Rightarrow> turn_end \<Rightarrow> string option \<times> int" where
  "server_exit msg variant t = (case t of
     Exception e \<Rightarrow> (Some (server_what msg variant e), EXIT_SUCCESS)
   | _ \<Rightarrow> (None, EXIT_SUCCESS))"

definition client_exit :: "string option \<Rightarrow> string option \<times> int" where
  "client_exit thrown = (thrown, EXIT_SUCCESS)"

section \<open>Connection helpers\<close>

text \<open>
  \<open>conn s\<close> is what \<^verbatim>\<open>connect\<close> returns for the socket \<open>s\<close>. The result is \<open>Inl\<close> when
  \<^verbatim>\<open>Connecting\<close> is thrown, with the sockets on which a connection was attempted.
\<close>

definition kInvalidConnect :: int where
  "kInvalidConnect = -1"

fun MultipleConnect :: "(int \<Rightarrow> int) \<Rightarrow> int list \<Rightarrow> (string + unit) \<times> int list" where
  "MultipleConnect conn [] = (Inr (), [])"
| "MultipleConnect conn (s # ss) =
     (if conn s = kInvalidConnect then (Inl Connecting_what, [s])
      else apsnd (Cons s) (MultipleConnect conn ss))"

fun InvalidDescriptors :: "int list \<Rightarrow> bool" where
  "InvalidDescriptors [] = False"
| "InvalidDescriptors (s # ss) = (s = kInvalidSocket \<or> InvalidDescriptors ss)"

section \<open>Facts\<close>

text \<open>The text of the exception tells which option could not be set.\<close>

lemma KeepAlive_what_inject: "KeepAlive_what msg k e = KeepAlive_what msg k' e' \<longleftrightarrow> k = k' \<and> msg e = msg e'"
  by (cases k; cases k') (simp_all add: KeepAlive_what_def)

lemma ring_what_inject: "ring_what e = ring_what e' \<longleftrightarrow> e = e'"
  by (cases e; cases e') (simp_all add: Listening_what_def SetTimeout_what_def)

lemma Error_text_inject: "Error_text e = Error_text e' \<longleftrightarrow> e = e'"
  by (cases e; cases e') simp_all

text \<open>
  The helper stops at the first socket that cannot be connected: the ones before it stay
  connected and the ones after it are not tried.
\<close>

theorem MultipleConnect_attempts:
  "MultipleConnect conn ss = (case dropWhile (\<lambda>s. conn s \<noteq> kInvalidConnect) ss of
     [] \<Rightarrow> (Inr (), ss)
   | s # _ \<Rightarrow> (Inl Connecting_what, takeWhile (\<lambda>s. conn s \<noteq> kInvalidConnect) ss @ [s]))"
proof (induction ss)
  case (Cons a ss)
  show ?case
  proof (cases "conn a = kInvalidConnect")
    case False
    then show ?thesis
      using Cons by (cases "dropWhile (\<lambda>s. conn s \<noteq> kInvalidConnect) ss") (simp_all del: dropWhile_eq_Nil_conv)
  qed simp
qed simp

theorem InvalidDescriptors_iff: "InvalidDescriptors ss \<longleftrightarrow> kInvalidSocket \<in> set ss"
  by (induction ss) auto

text \<open>
  The status of a process does not tell a failure: a server that is left by an exception
  prints its text and ends with the status of one that was shut down, and the client does
  the same.
\<close>

theorem failure_exits_with_success:
  "snd (server_exit msg variant t) = snd (server_exit msg variant Leave)
   \<and> snd (client_exit thrown) = snd (client_exit None)
   \<and> fst (server_exit msg variant (Exception e)) = Some (server_what msg variant e)"
  by (simp add: server_exit_def client_exit_def split: turn_end.split)

end
