(* ===== verification/Bystanders.thy ===== *)
theory Bystanders
  imports Prelude Exchange Composite ClientHandler Isolation Primary
begin

text \<open>
  The registry of devices over admissions, sessions and removals: the limit and the ids, and
  what a whole session of \<^verbatim>\<open>NewClient\<close> leaves as it was. The lemmas rest on the interface of
  the theory \<open>Isolation\<close>.
\<close>

lemma known_isolated: "isolated u i s s' \<Longrightarrow> known s' u = known s u"
proof -
  assume "isolated u i s s'"
  then have "map_option (seen_by i) (clients s' u) = map_option (seen_by i) (clients s u)"
    by (simp add: isolated_def)
  then have "map_option (map fst \<circ> snd) (map_option (seen_by i) (clients s' u))
      = map_option (map fst \<circ> snd) (map_option (seen_by i) (clients s u))"
    by simp
  then have "ids_of s' u = ids_of s u"
    by (simp add: option.map_comp comp_def seen_by_def ids_of_def)
  then show "known s' u = known s u"
    by (simp add: known_def)
qed

text \<open>The composites of all users but one, the pool's lock, the list of servers and the number of backups.\<close>

definition bystanders :: "string \<Rightarrow> srv \<Rightarrow> (string \<Rightarrow> composite option) \<times> bool \<times> string \<times> nat" where
  "bystanders u s = ((clients s)(u := None), pool_locked s, server_list s, length (backups s))"

lemma isolated_bystanders: "isolated u i s s' \<Longrightarrow> bystanders u s' = bystanders u s"
  by (auto simp: isolated_def bystanders_def)

lemma ClientHandler_frame:
  assumes "ClientHandler C u i st cs ss s = Some (r, s')"
  shows "\<exists>fs. s' = s\<lparr>sfs := fs\<rparr>" and "r = Inr (d, h) \<Longrightarrow> dev_id d = i \<and> h_id h = i \<and> h_user h = u"
  using assms by (auto simp: ClientHandler_def Let_def split: sum.splits option.splits intro: exI [of _ "sfs s"])

lemma Pool_Emplace_frame:
  assumes "Pool_Emplace (ClientHandler C u i st cs ss) u s = Some (r, s')"
  shows "bystanders u s' = bystanders u s"
    and "known s' u = known s u @ (case r of Inl _ \<Rightarrow> [] | Inr _ \<Rightarrow> [i])"
    and "users s' = users s \<and> backups s' = backups s" and "r = Inr h \<Longrightarrow> h_id h = i \<and> h_user h = u"
proof -
  let ?t = "try_emplace u s"
  have t: "bystanders u ?t = bystanders u s" "known ?t u = known s u" "users ?t = users s" "backups ?t = backups s"
    by (auto simp: try_emplace_def put_comp_def bystanders_def known_def ids_of_def ClientComposite_def split: option.split)
  obtain c where c: "clients ?t u = Some c"
    by (cases "clients s u") (auto simp: try_emplace_def put_comp_def)
  have e: "Composite_Emplace (ClientHandler C u i st cs ss) u ?t = Some (r, s')" "\<not> locked c"
    using assms c by (auto simp: Pool_Emplace_def Composite_Emplace_def split: if_splits)
  consider (full) "r = Inl FullList" "s' = ?t"
    | (threw) e fs where "r = Inl (CtorThrew e)" "s' = ?t\<lparr>sfs := fs\<rparr>"
    | (new) d h' fs where "r = Inr h'" "s' = put_comp u (c\<lparr>devices := devices c @ [d]\<rparr>) (?t\<lparr>sfs := fs\<rparr>)"
        "dev_id d = i" "h_id h' = i" "h_user h' = u"
    using e c ClientHandler_frame [of C u i st cs ss ?t]
    by (fastforce simp: Composite_Emplace_def split: if_splits option.splits sum.splits)
  note shape = this
  show "bystanders u s' = bystanders u s" "known s' u = known s u @ (case r of Inl _ \<Rightarrow> [] | Inr _ \<Rightarrow> [i])"
    by (cases rule: shape; use t c in \<open>auto simp: bystanders_def known_def ids_of_def put_comp_def\<close>)+
  show "users s' = users s \<and> backups s' = backups s"
    by (cases rule: shape; use t in \<open>auto simp: put_comp_def\<close>)
  show "r = Inr h \<Longrightarrow> h_id h = i \<and> h_user h = u"
    by (cases rule: shape) auto
qed

lemma Remove_frame:
  assumes "Composite_Remove u i s = Some s'"
  shows "bystanders u s' = bystanders u s" and "known s' u = filter (\<lambda>j. j \<noteq> i) (known s u)"
  using assms by (auto simp: Composite_Remove_def bystanders_def known_def ids_of_def put_comp_def filter_map comp_def
      split: option.splits if_splits)

lemma ClientHandler_ctor_ok:
  assumes "i \<notin> set (known s u)"
  shows "ctor_ok (ids_of s u) (ClientHandler C u i st cs ss)"
  unfolding ctor_ok_def
proof (intro allI impI)
  fix t r t'
  assume run: "ClientHandler C u i st cs ss t = Some (r, t')"
  have "clients t' = clients t"
    using ClientHandler_frame(1) [OF run] by auto
  then show "clients t' = clients t \<and> (case r of Inl _ \<Rightarrow> True
      | Inr (d, _) \<Rightarrow> (case ids_of s u of None \<Rightarrow> True | Some is \<Rightarrow> dev_id d \<notin> set is))"
    using ClientHandler_frame(2) [OF run] assms by (auto simp: known_def split: sum.splits option.splits)
qed

lemma admission_ok:
  assumes "devices_ok s" and "i \<notin> set (known s u)" and "Pool_Emplace (ClientHandler C u i st cs ss) u s = Some (r, s')"
  shows "devices_ok s'"
  by (rule devices_ok_emplace [OF assms(1,3) ClientHandler_ctor_ok [OF assms(2)]])

lemma admission_full:
  assumes "Pool_Emplace ctor u s = Some (r, s')" and "kDeviceLimit \<le> length (known s u)"
  shows "r = Inl FullList \<and> s' = s"
proof (cases "clients s u")
  case None
  then show ?thesis
    using assms(2) by (simp add: known_def ids_of_def kDeviceLimit_def)
next
  case (Some c)
  then show ?thesis
    using assms by (auto simp: known_def ids_of_def Pool_Emplace_def try_emplace_def Composite_Emplace_def split: if_splits)
qed

lemma session_devices_ok:
  assumes "devices_ok s" and "\<And>u. i \<notin> set (known s u)" and "NewClient C T i payload cs ss s = Some (e, s')"
  shows "devices_ok s'"
proof (cases "load (rd_str C) (SocketStream payload)")
  case (Pair l st)
  show ?thesis
  proof (cases l)
    case (Loaded u)
    obtain r s1 where em: "Pool_Emplace (ClientHandler C u i st cs ss) u s = Some (r, s1)"
      using assms(3) Pair Loaded by (auto simp: NewClient_def split: option.splits)
    have s1: "devices_ok s1"
      by (rule admission_ok [OF assms(1,2) em])
    show ?thesis
    proof (cases r)
      case (Inl x)
      then show ?thesis
        using assms(3) Pair Loaded em s1 by (auto simp: NewClient_def)
    next
      case (Inr h)
      obtain q h' s2 where run: "Handler_MainLoop C T (SetServers (GetServers s1) h) s1 = Some (q, h', s2)"
        using assms(3) Pair Loaded em Inr by (auto simp: NewClient_def split: option.splits)
      have "ids_of s2 = ids_of s1"
        using ids.stays_loop [of C T kAttemptAmount _ s1 "(q, h', s2)"] run by (simp add: Handler_MainLoop_def ids.stays_def)
      then have s2: "devices_ok s2"
        using s1 by (simp add: devices_ok_def)
      then show ?thesis
        using assms(3) Pair Loaded em Inr run devices_ok_remove [OF s2]
        by (auto simp: NewClient_def split: sum.splits option.splits)
    qed
  qed (use assms(1,3) Pair in \<open>auto simp: NewClient_def\<close>)
qed

section \<open>Properties\<close>

text \<open>
  C24. No user ever has more than two devices, and the ids of the devices stay distinct:
  admitting a device, which constructs its handler, whole sessions, removing a device and
  broadcasting all keep both, and a connection of a user who has two devices is refused with
  \<^verbatim>\<open>FullList\<close> and changes nothing. The one thing taken from the operating system is that
  the descriptor of a new connection is none of those still in the lists.
\<close>

theorem device_limit_kept:
  assumes "devices_ok s"
  shows "(\<forall>C u i st cs ss r s'. i \<notin> set (known s u) \<longrightarrow> Pool_Emplace (ClientHandler C u i st cs ss) u s = Some (r, s')
      \<longrightarrow> devices_ok s' \<and> (kDeviceLimit \<le> length (known s u) \<longrightarrow> r = Inl FullList \<and> s' = s))
    \<and> (\<forall>C T i payload cs ss e s'. (\<forall>u. i \<notin> set (known s u)) \<longrightarrow> NewClient C T i payload cs ss s = Some (e, s')
      \<longrightarrow> devices_ok s')
    \<and> (\<forall>u i s'. Composite_Remove u i s = Some s' \<longrightarrow> devices_ok s')
    \<and> (\<forall>C u o' p ok s'. BroadcastUpload C u o' p s = Some (ok, s') \<longrightarrow> devices_ok s')
    \<and> (\<forall>C u o' p ok s'. BroadcastDelete C u o' p s = Some (ok, s') \<longrightarrow> devices_ok s')"
  by (intro conjI allI impI)
    (auto intro: admission_ok [OF assms] session_devices_ok [OF assms] devices_ok_remove [OF assms]
      devices_ok_changes [OF assms] dest: admission_full)

theorem device_limit_kept_witness:
  "\<exists>s'. NewClient pb_codec sample_tables 4 (sample_payload (path_msg pb_codec kDelete ''sync_dir_u'')) silent silent
      empty_srv = Some (Threw, s') \<and> known s' ''u'' = [4] \<and> devices_ok s'
    \<and> Pool_Emplace (ClientHandler pb_codec ''u'' 9 (fresh []) silent silent) ''u'' sample_srv = Some (Inl FullList, sample_srv)"
proof -
  have ok: "devices_ok empty_srv" "devices_ok sample_srv" "known empty_srv u = []" "known sample_srv ''u'' = [4, 7]" for u
    by (auto simp: devices_ok_def ids_of_def known_def empty_srv_def sample_srv_def sample_device_def kDeviceLimit_def)
  obtain s' where run: "NewClient pb_codec sample_tables 4 (sample_payload (path_msg pb_codec kDelete ''sync_dir_u''))
      silent silent empty_srv = Some (Threw, s')" "known s' ''u'' = [4]"
    using session_exception_leaks_slot_witness by blast
  have "devices_ok s'"
    by (rule device_limit_kept [OF ok(1), THEN conjunct2, THEN conjunct1, rule_format, OF _ run(1)]) (simp add: ok(3))
  moreover obtain r t where full: "Pool_Emplace (ClientHandler pb_codec ''u'' 9 (fresh []) silent silent) ''u'' sample_srv = Some (r, t)"
    by (auto simp: Pool_Emplace_def try_emplace_def Composite_Emplace_def sample_srv_def kDeviceLimit_def)
  moreover have "r = Inl FullList \<and> t = sample_srv"
    using device_limit_kept [OF ok(2), THEN conjunct1, rule_format, OF _ full] ok(4) by (simp add: kDeviceLimit_def)
  ultimately show ?thesis
    using run by blast
qed

text \<open>
  C21. A session leaves the registry of devices as it was, but for at most one place: when it is
  over, whatever the client has sent, the composites of the other users, the pool, the list
  of servers and the number of backups are as before, and the user's devices have the ids
  they had, with the new one still among them just when an exception ended the main loop. A
  session that is rejected has not touched the counter of broadcasts or any backup either.
  (The files a session changes, and the counter and mutex a failed broadcast keeps, are no
  part of the registry: \<open>upload_not_confined\<close>, \<open>broadcast_failure_leaks\<close>.)
\<close>

theorem session_isolated:
  assumes "load (rd_str C) (SocketStream payload) = (Loaded u, st)" and "i \<notin> set (known s u)"
    and "NewClient C T i payload client_sync server_sync s = Some (e, s')"
  shows "(\<forall>v. v \<noteq> u \<longrightarrow> clients s' v = clients s v) \<and> pool_locked s' = pool_locked s \<and> server_list s' = server_list s
    \<and> length (backups s') = length (backups s) \<and> known s' u = known s u @ (if e = Threw then [i] else [])
    \<and> (e = Rejected \<longrightarrow> users s' = users s \<and> backups s' = backups s)"
proof -
  obtain r s1 where em: "Pool_Emplace (ClientHandler C u i st client_sync server_sync) u s = Some (r, s1)"
    using assms(1,3) by (auto simp: NewClient_def split: option.splits)
  note emplaced = Pool_Emplace_frame [OF em]
  have "bystanders u s' = bystanders u s \<and> known s' u = known s u @ (if e = Threw then [i] else [])
      \<and> (e = Rejected \<longrightarrow> users s' = users s \<and> backups s' = backups s)"
  proof (cases r)
    case (Inl x)
    then show ?thesis
      using assms(1,3) em emplaced(1-3) by (auto simp: NewClient_def)
  next
    case (Inr h)
    let ?h = "SetServers (GetServers s1) h"
    have h: "h_id ?h = i" "h_user ?h = u"
      using emplaced(4) [OF Inr] by (simp_all add: SetServers_def)
    obtain q h' s2 where run: "Handler_MainLoop C T ?h s1 = Some (q, h', s2)"
      using assms(1,3) em Inr by (auto simp: NewClient_def split: option.splits)
    then have "frame.stays ?h s1 h' s2"
      using frame.stays_loop [of C T kAttemptAmount ?h s1 "(q, h', s2)"] by (simp add: Handler_MainLoop_def)
    then have s2: "isolated u i s1 s2" "h_user h' = u" "h_id h' = i"
      using h by (simp_all add: frame.stays_def)
    have mid: "bystanders u s2 = bystanders u s" "known s2 u = known s u @ [i]"
      using isolated_bystanders [OF s2(1)] known_isolated [OF s2(1)] emplaced(1,2) Inr by simp_all
    show ?thesis
    proof (cases q)
      case (Inl x)
      then show ?thesis
        using assms(1,3) em Inr run mid by (auto simp: NewClient_def)
    next
      case (Inr y)
      then obtain s3 where "Composite_Remove u i s2 = Some s3" "e = Ended" "s' = s3"
        using assms(1,3) em \<open>r = Inr h\<close> run s2(2,3) by (auto simp: NewClient_def split: option.splits)
      then show ?thesis
        using Remove_frame [of u i s2 s3] mid assms(2) by (auto simp: filter_id_conv)
    qed
  qed
  then show ?thesis
    by (auto simp: bystanders_def fun_eq_iff split: if_splits)
qed

theorem session_isolated_witness:
  "\<exists>s'. NewClient pb_codec sample_tables 4 (sample_payload (path_msg pb_codec kDelete ''sync_dir_u'')) silent silent
      empty_srv = Some (Threw, s') \<and> known s' ''u'' = [4] \<and> clients s' ''v'' = None"
proof -
  obtain s' where run: "NewClient pb_codec sample_tables 4 (sample_payload (path_msg pb_codec kDelete ''sync_dir_u''))
      silent silent empty_srv = Some (Threw, s')"
    using session_exception_leaks_slot_witness by blast
  obtain st where "load (rd_str pb_codec) (SocketStream (sample_payload (path_msg pb_codec kDelete ''sync_dir_u'')))
      = (Loaded ''u'', st)"
    by (rule load_username [OF pb_codec_ok sample_greets [OF session_msg_nonempty(2)]])
  then show ?thesis
    using session_isolated [OF _ _ run, of "''u''" st] run sample_admitting(3) by (simp add: empty_srv_def)
qed

end
