(* ===== verification/CommandLine.thy ===== *)
theory CommandLine
  imports Prelude Commands SocketStream FileSystem Exchange Layout Replica Composite ClientHandler Client Transfers
    ClientSync UserInput
begin

text \<open>
  From the keyboard to the server's files: a user who types uploads and deletions and then
  \<^verbatim>\<open>exit\<close> (\<^verbatim>\<open>client/user_input.cpp\<close>), the client that performs them
  (\<^verbatim>\<open>client/client.cpp\<close>), and the main loop of the handler on the server
  (\<^verbatim>\<open>server/ClientHandler.cpp\<close>) that reads what the client has sent.
\<close>

section \<open>Lines\<close>

definition line_text :: "Command \<times> string \<Rightarrow> string" where
  "line_text l = StrFromCommand (Cmd (fst l)) @ '' '' @ snd l"

definition file_at :: "fsys \<Rightarrow> string \<Rightarrow> byte list" where
  "file_at cl p = (case status cl p of Some (File bs) \<Rightarrow> bs | _ \<Rightarrow> [])"

text \<open>The operation a line asks for: the name is the last component of the path that was typed.\<close>

definition meant :: "string \<Rightarrow> fsys \<Rightarrow> Command \<times> string \<Rightarrow> op" where
  "meant u cl l = (if fst l = kUpload then Put u (filename (snd l)) (file_at cl (snd l)) else Del u (filename (snd l)))"

text \<open>A path to a file that is not in the user's synchronised directory.\<close>

definition outside :: "string \<Rightarrow> fsys \<Rightarrow> string \<Rightarrow> bool" where
  "outside u cl p = (case resolve cl p of
     Inl _ \<Rightarrow> False
   | Inr q \<Rightarrow> take (length (dir_of cl u)) q \<noteq> dir_of cl u
       \<and> (case node_at cl q of Some (File _) \<Rightarrow> True | _ \<Rightarrow> False))"

definition typed_ok :: "codec \<Rightarrow> string \<Rightarrow> fsys \<Rightarrow> Command \<times> string \<Rightarrow> bool" where
  "typed_ok C u cl l = (word (snd l) \<and> session_op C u (meant u cl l)
     \<and> (fst l = kDelete \<or> fst l = kUpload \<and> outside u cl (snd l)))"

section \<open>What a line leaves alone\<close>

definition elsewhere :: "string \<Rightarrow> fsys \<Rightarrow> fsys \<Rightarrow> bool" where
  "elsewhere u cl cl' = (cwd cl' = cwd cl
     \<and> (\<forall>q. node_at cl q = Some Directory \<longrightarrow> node_at cl' q = Some Directory)
     \<and> (\<forall>q. take (length (dir_of cl u)) q \<noteq> dir_of cl u \<longrightarrow> node_at cl' q = node_at cl q))"

lemma elsewhere_refl: "elsewhere u cl cl"
  by (simp add: elsewhere_def)

lemma elsewhere_file:
  assumes "layout cl" and "user_name u" and "simple_name f" and "cwd cl' = cwd cl"
    and "node_at cl' = (node_at cl)(dir_of cl u @ [f] := n)"
  shows "elsewhere u cl cl'"
  using layoutD(4) [OF assms(1-3)] assms(4,5) by (auto simp: elsewhere_def)

lemma walk_directories:
  assumes "\<forall>q. node_at cl q = Some Directory \<longrightarrow> node_at cl' q = Some Directory"
  shows "walk (ents cl) q cs = Inr r \<Longrightarrow> walk (ents cl') q cs = Inr r"
  by (induction cs arbitrary: q) (use assms in \<open>auto simp: node_at_def split: option.splits node.splits\<close>)

lemma elsewhere_outside:
  assumes "elsewhere u cl cl'" and "outside u cl p"
  shows "outside u cl' p" and "file_at cl' p = file_at cl p"
proof -
  obtain q where q: "resolve cl p = Inr q" "take (length (dir_of cl u)) q \<noteq> dir_of cl u"
    "case node_at cl q of Some (File _) \<Rightarrow> True | _ \<Rightarrow> False"
    using assms(2) by (auto simp: outside_def split: sum.splits)
  have e: "dir_of cl' u = dir_of cl u" "node_at cl' q = node_at cl q" "cwd cl' = cwd cl"
    using assms(1) q(2) by (auto simp: elsewhere_def dir_of_def)
  have "resolve cl' p = Inr q"
    using q(1) walk_directories [of cl cl'] assms(1) e(3) by (auto simp: resolve_def elsewhere_def split: if_splits)
  then show "outside u cl' p" "file_at cl' p = file_at cl p"
    using q e by (simp_all add: outside_def file_at_def status_node)
qed

lemma typed_elsewhere:
  assumes "typed_ok C u cl l" and "elsewhere u cl cl'"
  shows "typed_ok C u cl' l" and "meant u cl' l = meant u cl l"
proof -
  show eq: "meant u cl' l = meant u cl l"
    using assms elsewhere_outside(2) [OF assms(2), of "snd l"] by (auto simp: typed_ok_def meant_def)
  show "typed_ok C u cl' l"
    using assms elsewhere_outside(1) [OF assms(2)] eq by (auto simp: typed_ok_def)
qed

section \<open>A line\<close>

text \<open>What both commands do with a path: success, its message behind what was written, and the operation.\<close>

definition performs :: "codec \<Rightarrow> string \<Rightarrow> op \<Rightarrow> client \<Rightarrow> fsys \<Rightarrow> client \<Rightarrow> fsys \<Rightarrow> bool" where
  "performs C u a c cl c' cl' = (wrote (op_msg C a) (strm (payload_fe c)) (strm (payload_fe c'))
     \<and> client_fe c' = client_fe c \<and> c_user c' = c_user c \<and> \<not> pause (watch c')
     \<and> layout cl' \<and> has_dir cl' u \<and> contents cl' = apply_op a (contents cl) \<and> elsewhere u cl cl')"

lemma Client_Upload_performs:
  assumes "ready (payload_fe c)" and "c_user c = u" and "layout cl" and "has_dir cl u"
    and "session_op C u (Put u f (file_at cl p))" and "filename p = f" and "outside u cl p"
    and "length (op_msg C (Put u f (file_at cl p))) \<le> room (strm (payload_fe c))"
  shows "\<exists>c' cl'. Client_Upload C p c cl = Some (True, c', cl') \<and> performs C u (Put u f (file_at cl p)) c cl c' cl'"
proof -
  let ?r = "dir_of cl u @ [f]" and ?bs = "file_at cl p"
  have names: "user_name u" "simple_name f"
    using assms(5) by (simp_all add: session_op_def)
  obtain q where q: "resolve cl p = Inr q" "take (length (dir_of cl u)) q \<noteq> dir_of cl u" "node_at cl q = Some (File ?bs)"
    using assms(7) by (auto simp: outside_def file_at_def status_node split: sum.splits option.splits node.splits)
  obtain x where x: "Client_Upload C p c cl =
      (let c1 = c\<lparr>payload_fe := x, watch := Pause (watch c)\<rparr> in
       case copy_file cl p (user_path u f) of
         Inl _ \<Rightarrow> Some (False, c1, cl)
       | Inr fs' \<Rightarrow> Some (True, c1\<lparr>watch := Resume (watch c1)\<rparr>, fs'))"
    "wrote (op_msg C (Put u f ?bs)) (strm (payload_fe c)) (strm x)"
    by (rule Client_Upload_sends [OF assms(1,2) names assms(6) _ assms(8)]) (use q in \<open>auto simp: status_node intro: that\<close>)
  have "q \<noteq> ?r"
    using q(2) by auto
  then have "copy_file cl p (user_path u f) = Inr (set_node ?r (File ?bs) cl)"
    using copied [OF q(1,3) resolve_user_path [OF assms(3,4) names]] layoutD(4) [OF assms(3) names] by blast
  moreover have "node_at (set_node ?r (File ?bs) cl) = (node_at cl)(?r \<mapsto> File ?bs)" "cwd (set_node ?r (File ?bs) cl) = cwd cl"
    by simp_all
  ultimately show ?thesis
    using x put_user_file [OF assms(3,4) names] elsewhere_file [OF assms(3) names] assms(4)
    by (simp add: performs_def Resume_def)
qed

lemma remove_elsewhere:
  assumes "layout cl" and "has_dir cl u" and "user_name u" and "simple_name f"
    and "fs_remove cl (user_path u f) = Inr (b, cl')"
  shows "elsewhere u cl cl'"
proof (cases "node_at cl (dir_of cl u @ [f])")
  case None
  then show ?thesis
    using assms(5) resolve_user_path [OF assms(1-4)] by (simp add: fs_remove_def elsewhere_refl flip: node_at_def)
next
  case (Some n)
  then obtain bs where "n = File bs"
    using layoutD(4) [OF assms(1,3,4)] by (cases n) auto
  then have "cl' = del_node (dir_of cl u @ [f]) cl"
    using Some assms(5) resolve_user_path [OF assms(1-4)] by (simp add: fs_remove_def flip: node_at_def)
  then show ?thesis
    by (intro elsewhere_file [OF assms(1,3,4)]) simp_all
qed

lemma Client_Delete_performs:
  assumes "ready (payload_fe c)" and "c_user c = u" and "layout cl" and "has_dir cl u"
    and "session_op C u (Del u f)" and "filename p = f"
    and "length (op_msg C (Del u f)) \<le> room (strm (payload_fe c))"
  shows "\<exists>c' cl'. Client_Delete C p c cl = Some (True, c', cl') \<and> performs C u (Del u f) c cl c' cl'"
proof -
  let ?x = "payload_fe c" and ?d = "user_path u f"
  have names: "user_name u" "simple_name f"
    using assms(5) by (simp_all add: session_op_def)
  obtain s1 s2 where s: "SendCommand C kDelete ?x = Some (?x\<lparr>strm := s1\<rparr>)"
    "SendPath C (SetPath ?d (?x\<lparr>strm := s1\<rparr>)) = (True, ?x\<lparr>xpath := ?d, strm := s2\<rparr>)"
    "wrote (path_msg C kDelete ?d) (strm ?x) s2"
    by (rule path_msg_ready [OF assms(1), of C kDelete ?d]) (use assms(7) in \<open>auto intro: that\<close>)
  obtain b cl' where cl': "fs_remove cl ?d = Inr (b, cl')" "follows cl cl' [Del u f]"
    by (rule remove_any [OF assms(3,4) names]) (rule that; assumption)
  have "path_append (c_SyncDirPath c) (filename p) = ?d"
    by (simp add: c_SyncDirPath_def user_path_def assms(2,6))
  then have "Client_Delete C p c cl = Some (True, c\<lparr>payload_fe := ?x\<lparr>xpath := ?d, strm := s2\<rparr>,
      watch := Resume (Pause (watch c))\<rparr>, cl')"
    using s(1,2) cl'(1) by (simp add: Client_Delete_def Let_def)
  then show ?thesis
    using s(3) followsD [OF cl'(2)] remove_elsewhere [OF assms(3,4) names cl'(1)] assms(4)
    by (simp add: performs_def Resume_def)
qed

lemma handle_line_text:
  assumes "word p"
  shows "handle_line C T (line_text (k, p)) i c cl = HandleCommand C T k (i\<lparr>input_path := p\<rparr>) c cl"
  using word_name [of k] assms by (simp add: line_text_def handle_line_def parse_line_two parsed_name)

lemma line_performs:
  assumes "typed_ok C u cl l" and "ready (payload_fe c)" and "pending (strm (payload_fe c)) = []" and "c_user c = u"
    and "layout cl" and "has_dir cl u"
  obtains c' cl' where "handle_line C T (line_text l) i c cl = Some (Inr [Success], i\<lparr>input_path := snd l\<rparr>, Client_Flush c', cl')"
    and "performs C u (meant u cl l) c cl c' cl'"
proof -
  obtain k p where l: "l = (k, p)"
    by (cases l)
  let ?i = "i\<lparr>input_path := p\<rparr>"
  have ok: "word p" "p \<noteq> []" "session_op C u (meant u cl l)"
    using assms(1) by (auto simp: typed_ok_def word_def l)
  have "pnext (strm (payload_fe c)) = 0"
    using arg_cong [OF assms(3), where f = length] by simp
  then have "room (strm (payload_fe c)) = kBufferSize"
    by (simp add: room_def)
  then have fits: "length (op_msg C (meant u cl l)) \<le> room (strm (payload_fe c))"
    using ok(3) by (simp add: session_op_def)
  have "\<exists>c' cl'. HandleCommand C T k ?i c cl = Some (Inr [Success], ?i, Client_Flush c', cl')
      \<and> performs C u (meant u cl l) c cl c' cl'"
  proof (cases "k = kUpload")
    case True
    then have m: "meant u cl l = Put u (filename p) (file_at cl p)" "outside u cl p"
      using assms(1) by (simp_all add: meant_def typed_ok_def l)
    have "is_regular_file cl p"
      using m(2) by (auto simp: outside_def is_regular_file_def status_node split: sum.splits option.splits node.splits)
    then show ?thesis
      using Client_Upload_performs [OF assms(2,4-6) ok(3) [unfolded m(1)] refl m(2) fits [unfolded m(1)]] True ok(2) m(1)
      by (auto simp: HandleCommand_def do_and_report_def report_def)
  next
    case False
    then have k: "k = kDelete"
      using assms(1) by (simp add: typed_ok_def l)
    have m: "meant u cl l = Del u (filename p)"
      using False by (simp add: meant_def l)
    show ?thesis
      using Client_Delete_performs [OF assms(2,4-6) ok(3) [unfolded m] refl fits [unfolded m]] k ok(2) m
      by (auto simp: HandleCommand_def do_and_report_def report_def)
  qed
  then show thesis
    using that handle_line_text [OF ok(1)] l by auto
qed

lemma performs_flushed:
  assumes "performs C u a c cl c' cl'" and "pending (strm (payload_fe c)) = []"
  shows "ready (payload_fe (Client_Flush c'))" and "pending (strm (payload_fe (Client_Flush c'))) = []"
    and "tx (ep (strm (payload_fe (Client_Flush c')))) = tx (ep (strm (payload_fe c))) @ op_msg C a"
proof -
  have r: "ready (payload_fe c')" "outgoing (strm (payload_fe c')) = outgoing (strm (payload_fe c)) @ op_msg C a"
    using assms(1) by (simp_all add: performs_def wrote_def ready_def)
  then show "ready (payload_fe (Client_Flush c'))" "pending (strm (payload_fe (Client_Flush c'))) = []"
    "tx (ep (strm (payload_fe (Client_Flush c')))) = tx (ep (strm (payload_fe c))) @ op_msg C a"
    using Flush_ready [OF r(1)] flushed_pending [OF r(1)] assms(2) by (simp_all add: Client_Flush_def outgoing_def)
qed

section \<open>All lines\<close>

text \<open>\<^verbatim>\<open>exit\<close> tells both connections and ends the loop.\<close>

lemma exit_line:
  assumes "ready (payload_fe c)" and "pending (strm (payload_fe c)) = []" and "ready (client_fe c)"
    and "length (enc_cmd C (cmd_code kExit)) \<le> room (strm (client_fe c))"
    and "length (enc_cmd C (cmd_code kExit)) \<le> kBufferSize"
  obtains c' where "handle_line C T ''exit'' i c cl = Some (Inr [], Stop i, c', cl)"
    and "tx (ep (strm (payload_fe c'))) = tx (ep (strm (payload_fe c))) @ enc_cmd C (cmd_code kExit)"
    and "tx (ep (strm (client_fe c'))) = outgoing (strm (client_fe c)) @ enc_cmd C (cmd_code kExit)"
    and "watch c' = watch c"
proof -
  have "pnext (strm (payload_fe c)) = 0"
    using arg_cong [OF assms(2), where f = length] by simp
  then have room: "length (enc_cmd C (cmd_code kExit)) \<le> room (strm (payload_fe c))"
    using assms(5) by (simp add: room_def)
  obtain s1 where s1: "SendCommand C kExit (client_fe c) = Some (client_fe c\<lparr>strm := s1\<rparr>)"
    "wrote (enc_cmd C (cmd_code kExit)) (strm (client_fe c)) s1"
    by (rule SendCommand_ready [OF assms(3,4)]) (rule that; assumption)
  obtain s2 where s2: "SendCommand C kExit (payload_fe c) = Some (payload_fe c\<lparr>strm := s2\<rparr>)"
    "wrote (enc_cmd C (cmd_code kExit)) (strm (payload_fe c)) s2"
    by (rule SendCommand_ready [OF assms(1) room]) (rule that; assumption)
  let ?c = "c\<lparr>client_fe := Flush (client_fe c\<lparr>strm := s1\<rparr>), payload_fe := payload_fe c\<lparr>strm := s2\<rparr>\<rparr>"
  have "word ''exit''" "CommandFromStr ''exit'' = Some kExit"
    by (simp_all add: word_def isspace_def CommandFromStr_def kCommandMap_def)
  then have "handle_line C T ''exit'' i c cl = Some (Inr [], Stop i, Client_Flush ?c, cl)"
    using s1(1) s2(1) by (simp add: handle_line_def parse_line_one HandleCommand_def Client_Exit_def report_def)
  moreover have r: "ready (client_fe c\<lparr>strm := s1\<rparr>)" "ready (payload_fe c\<lparr>strm := s2\<rparr>)"
    using s1(2) s2(2) by (simp_all add: wrote_def ready_def)
  ultimately show thesis
    using that [of "Client_Flush ?c"] Flush_ready(4) [OF r(1)] Flush_ready(4) [OF r(2)] s1(2) s2(2) assms(2)
    by (simp add: Client_Flush_def wrote_def outgoing_def)
qed

lemma Start_loop_line:
  "reading i \<Longrightarrow> handle_line C T l i c cl = Some (Inr ms, i', c', cl')
    \<Longrightarrow> Start_loop C T (l # ls) i c cl out = Start_loop C T ls i' c' cl' (out @ ms)"
  by (subst Start_loop.simps) (simp add: next_line_def)

lemma Start_loop_stopped: "\<not> reading i \<Longrightarrow> Start_loop C T ls i c cl out = Some (Inr (), out, c, cl)"
  by (subst Start_loop.simps) simp

lemma lines_performed:
  assumes "list_all (typed_ok C u cl) ls" and "ready (payload_fe c)" and "pending (strm (payload_fe c)) = []"
    and "c_user c = u" and "layout cl" and "has_dir cl u" and "ready (client_fe c)"
    and "length (enc_cmd C (cmd_code kExit)) \<le> room (strm (client_fe c))"
    and "length (enc_cmd C (cmd_code kExit)) \<le> kBufferSize" and "reading i"
  shows "\<exists>c' cl'. Start_loop C T (map line_text ls @ [''exit'']) i c cl out
      = Some (Inr (), out @ replicate (length ls) Success, c', cl')
    \<and> tx (ep (strm (payload_fe c'))) = tx (ep (strm (payload_fe c))) @ op_msgs C (map (meant u cl) ls) @ enc_cmd C (cmd_code kExit)
    \<and> tx (ep (strm (client_fe c'))) = outgoing (strm (client_fe c)) @ enc_cmd C (cmd_code kExit)
    \<and> contents cl' = fold apply_op (map (meant u cl) ls) (contents cl)"
  using assms(1-8,10)
proof (induction ls arbitrary: c cl i out)
  case Nil
  obtain c' where "handle_line C T ''exit'' i c cl = Some (Inr [], Stop i, c', cl)"
    "tx (ep (strm (payload_fe c'))) = tx (ep (strm (payload_fe c))) @ enc_cmd C (cmd_code kExit)"
    "tx (ep (strm (client_fe c'))) = outgoing (strm (client_fe c)) @ enc_cmd C (cmd_code kExit)"
    by (rule exit_line [OF Nil.prems(2,3,7,8) assms(9), of T i cl]) (rule that; assumption)
  then show ?case
    using Nil.prems(9) by (simp add: Start_loop_line Start_loop_stopped Stop_def)
next
  case (Cons l ls)
  have l: "typed_ok C u cl l"
    using Cons.prems(1) by simp
  obtain c1 cl1 where one: "handle_line C T (line_text l) i c cl
      = Some (Inr [Success], i\<lparr>input_path := snd l\<rparr>, Client_Flush c1, cl1)" "performs C u (meant u cl l) c cl c1 cl1"
    by (rule line_performs [OF l Cons.prems(2-6), of T i]) (rule that; assumption)
  note fl = performs_flushed [OF one(2) Cons.prems(3)]
  have st: "elsewhere u cl cl1" "c_user (Client_Flush c1) = u" "client_fe (Client_Flush c1) = client_fe c"
    "layout cl1" "has_dir cl1 u" "contents cl1 = apply_op (meant u cl l) (contents cl)"
    using one(2) Cons.prems(4) by (simp_all add: performs_def Client_Flush_def)
  have all: "list_all (typed_ok C u cl1) ls" "map (meant u cl1) ls = map (meant u cl) ls"
    using Cons.prems(1) typed_elsewhere [OF _ st(1)] by (auto simp: list_all_iff)
  have rd: "reading (i\<lparr>input_path := snd l\<rparr>)"
    using Cons.prems(9) by simp
  show ?case
    using Cons.IH [OF all(1) fl(1,2) st(2,4,5) _ _ rd, of "out @ [Success]"] Cons.prems(7-9) one(1) st(3,6) fl(3) all(2)
    by (simp add: Start_loop_line)
qed

section \<open>Properties\<close>

text \<open>
  C5. What the user types is what happens, on both sides. When every line is an upload of a
  file from outside of the synchronised directory or a deletion, and \<^verbatim>\<open>exit\<close> is the last
  line, the loop ends after one success for each line, the client's directory holds what
  performing the lines in order gives, and the handler that reads what the client has sent
  returns after having performed the same operations on the server's files and broadcast those that
  changed something: directories that were equal before are equal afterwards.
\<close>

theorem typed_lines_reach_server:
  assumes "codec_ok C" and "list_all (typed_ok C u cl) ls" and "ops = map (meant u cl) ls"
    and "ready (payload_fe c)" and "pending (strm (payload_fe c)) = []" and "c_user c = u"
    and "layout cl" and "has_dir cl u" and "ready (client_fe c)"
    and "length (enc_cmd C (cmd_code kExit)) \<le> room (strm (client_fe c))"
    and "srv_ready u s" and "has_dir (sfs s) u" and "h_user h = u" and "sound (strm (fe h))"
    and "incoming (strm (fe h)) = op_msgs C ops @ enc_cmd C (cmd_code kExit)"
  shows "\<exists>c' cl' h' s'. Start C T (map line_text ls @ [''exit'']) i c cl
        = Some (Inr (), replicate (length ls) Success, c', cl')
    \<and> tx (ep (strm (payload_fe c'))) = tx (ep (strm (payload_fe c))) @ incoming (strm (fe h))
    \<and> contents cl' = fold apply_op ops (contents cl)
    \<and> Handler_MainLoop C T h s = Some (Inr (), h', s')
    \<and> contents (sfs s') = fold apply_op ops (contents (sfs s))
    \<and> delivered C u (h_id h) (effective ops (contents (sfs s))) s s'
    \<and> (contents cl u = contents (sfs s) u \<longrightarrow> contents cl' u = contents (sfs s') u)"
proof -
  have "room (strm (client_fe c)) \<le> kBufferSize"
    by (simp add: room_def)
  then have fits: "length (enc_cmd C (cmd_code kExit)) \<le> kBufferSize"
    using assms(10) by (rule le_trans [rotated])
  obtain c' cl' where client: "Start_loop C T (map line_text ls @ [''exit'']) (i\<lparr>reading := True\<rparr>) c cl []
      = Some (Inr (), replicate (length ls) Success, c', cl')"
    "tx (ep (strm (payload_fe c'))) = tx (ep (strm (payload_fe c))) @ op_msgs C ops @ enc_cmd C (cmd_code kExit)"
    "contents cl' = fold apply_op ops (contents cl)"
    using lines_performed [OF assms(2,4-10) fits, of "i\<lparr>reading := True\<rparr>" T "[]"] assms(3) by auto
  have ops: "list_all (session_op C u) ops"
    using assms(2,3) by (auto simp: list_all_iff typed_ok_def)
  obtain h' s' where server: "Handler_loop C T kAttemptAmount h s = Some (Inr (), h', s')"
    "follows (sfs s) (sfs s') ops" "delivered C u (h_id h) (effective ops (contents (sfs s))) s s'"
    using Handler_loop_session [OF assms(1), of h s ops "[]" T kAttemptAmount] assms(11-15) ops by auto
  have "contents cl' u = contents (sfs s') u" if "contents cl u = contents (sfs s) u"
    using fold_same_user [of u ops "contents cl" "contents (sfs s)"] that ops client(3) followsD(3) [OF server(2)]
    by (simp add: list_all_iff session_op_def)
  then show ?thesis
    using client server assms(15) by (auto simp: Start_def Handler_MainLoop_def follows_def)
qed

definition sample_lines :: "(Command \<times> string) list" where
  "sample_lines = [(kUpload, ''f''), (kDelete, ''g'')]"

definition sample_typed :: "op list" where
  "sample_typed = [Put ''u'' ''f'' [4, 5], Del ''u'' ''g'']"

lemma sample_lines_ok:
  "list_all (typed_ok pb_codec ''u'' sample_upload_fs) sample_lines"
  "sample_typed = map (meant ''u'' sample_upload_fs) sample_lines"
proof -
  have f: "filename ''f'' = ''f''" "filename ''g'' = ''g''"
    by (simp_all add: filename_def)
  have at: "file_at sample_upload_fs ''f'' = [4, 5]"
    using sample_upload_fs_ok(3,4) by (simp add: file_at_def status_node)
  have m: "meant ''u'' sample_upload_fs (kUpload, ''f'') = Put ''u'' ''f'' [4, 5]"
    "meant ''u'' sample_upload_fs (kDelete, ''g'') = Del ''u'' ''g''"
    by (simp_all add: meant_def f at)
  then show "sample_typed = map (meant ''u'' sample_upload_fs) sample_lines"
    by (simp add: sample_typed_def sample_lines_def)
  have "outside ''u'' sample_upload_fs ''f''"
    using sample_upload_fs_ok(3-5)
    by (simp add: outside_def dir_of_def SyncDirWithPrefix_def kSyncDirPrefix_def)
  then show "list_all (typed_ok pb_codec ''u'' sample_upload_fs) sample_lines"
    using m by (simp add: sample_lines_def typed_ok_def word_def isspace_def session_op_def user_name_def simple_name_def
        str_ok_def size_ok_def upload_msg_def path_msg_def file_msg_def pb_codec_def kBufferSize_val)
qed

theorem typed_lines_reach_server_witness:
  "\<exists>c' cl' h' s'. Start pb_codec sample_tables [''upload f'', ''delete g'', ''exit''] UserInput (sample_client [] []) sample_upload_fs
      = Some (Inr (), [Success, Success], c', cl')
    \<and> Handler_MainLoop pb_codec sample_tables (sample_handler (session_msg sample_typed)) sample_srv = Some (Inr (), h', s')
    \<and> contents cl' ''u'' ''f'' = Some [4, 5] \<and> contents (sfs s') ''u'' ''f'' = Some [4, 5]"
proof -
  have c: "ready (payload_fe (sample_client [] []))" "pending (strm (payload_fe (sample_client [] []))) = []"
    "c_user (sample_client [] []) = ''u''" "ready (client_fe (sample_client [] []))"
    "length (enc_cmd pb_codec (cmd_code kExit)) \<le> room (strm (client_fe (sample_client [] [])))"
    by (simp_all add: sample_client_def pb_codec_def kBufferSize_val)
  let ?h = "sample_handler (session_msg sample_typed)"
  have h: "h_user ?h = ''u''" "sound (strm (fe ?h))"
    "incoming (strm (fe ?h)) = op_msgs pb_codec sample_typed @ enc_cmd pb_codec (cmd_code kExit)"
    by (simp_all add: sample_handler_def session_msg_def)
  have s: "srv_ready ''u'' sample_srv" "has_dir (sfs sample_srv) ''u''"
    using sample_srv_ready sample_has_dir by (simp_all add: sample_srv_def)
  have "map line_text sample_lines @ [''exit''] = [''upload f'', ''delete g'', ''exit'']" "length sample_lines = 2"
    by (simp_all add: sample_lines_def line_text_def)
  then show ?thesis
    using typed_lines_reach_server [OF pb_codec_ok sample_lines_ok c(1-3) sample_upload_fs_ok(1,2) c(4,5) s h,
        of sample_tables UserInput]
    by (auto simp: sample_typed_def numeral_2_eq_2)
qed

end
