(* ===== verification/BroadcastAlone.thy ===== *)
theory BroadcastAlone
  imports Prelude Composite BroadcastThreads
begin

text \<open>
  The two models of \<^verbatim>\<open>ClientComposite::BroadcastCommand\<close>, the sequential one of
  \<open>Composite\<close>, which has its loops and all it sends, and the steps of \<open>BroadcastThreads\<close>,
  which has the counter and the mutexes of many threads, tied together: a sequential call is
  what the thread that makes it does when no other thread moves.
\<close>

section \<open>The call as the sequential model has it\<close>

lemma broadcast_counts:
  assumes "BroadcastCommand f g u i s = Some (ok, s')" and "clients s u = Some c"
  obtains c' where "clients s' u = Some c'" and "\<not> (users s + 1 = 1 \<and> locked c)"
    and "locked c' = locked_after ok c s" and "users s' = users_after ok s"
proof -
  obtain ok1 ds bs where "s' = put_comp u (c\<lparr>locked := locked_after ok c s, devices := ds\<rparr>)
      (s\<lparr>users := users_after ok s, backups := bs\<rparr>)"
    by (rule broadcast_shape [OF assms]) blast
  then show thesis
    using that [of "c\<lparr>locked := locked_after ok c s, devices := ds\<rparr>"] broadcast_free [OF assms]
    by (simp add: put_comp_def)
qed

text \<open>
  C18. The two models of a broadcast agree: a call of the sequential model, whatever its
  loops do and however it ends, is a run of the one thread that makes it in the model of the
  threads. From states with the same counter and the same state of the user's mutex, that
  thread's own steps, from its first to its last, lead to states with the same counter and
  the same state of the mutex, with the thread returned when the call returns true and
  aborted, and counted as a failure, when it returns false, and no other thread has moved.
\<close>

theorem broadcast_alone:
  assumes "t < n" and "pc_of s t = Start" and "clients S u = Some c" and "users_cnt s = users S"
    and "owner s (grp t) \<noteq> None \<longleftrightarrow> locked c" and "BroadcastCommand f g u i S = Some (ok, S')"
  shows "\<exists>s' c'. (bstep grp n)\<^sup>*\<^sup>* s s' \<and> pc_of s' = (pc_of s)(t := if ok then Returned else Aborted)
    \<and> failures s' = failures s + (if ok then 0 else 1)
    \<and> users_cnt s' = users S' \<and> clients S' u = Some c' \<and> (owner s' (grp t) \<noteq> None \<longleftrightarrow> locked c')"
proof -
  obtain c' where c': "clients S' u = Some c'" "\<not> (users S + 1 = 1 \<and> locked c)"
    "locked c' = locked_after ok c S" "users S' = users_after ok S"
    by (rule broadcast_counts [OF assms(6,3)]) (rule that; assumption)
  define m where "m = goto t Sending (s\<lparr>users_cnt := users_cnt s + 1,
    owner := if users_cnt s + 1 = 1 then (owner s)(grp t \<mapsto> t) else owner s\<rparr>)"
  have m: "(bstep grp n)\<^sup>*\<^sup>* s m" "pc_of m = (pc_of s)(t := Sending)" "failures m = failures s" "users_cnt m = users S + 1"
    "owner m (grp t) \<noteq> None \<longleftrightarrow> locked c \<or> users S + 1 = 1"
    using runs_to_loops [OF assms(1,2), of grp] assms(4,5) c'(2) by (auto simp: m_def goto_def)
  note to_end = runs_to_end [OF assms(1), of m grp]
  show ?thesis
  proof (cases ok)
    case True
    let ?e = "goto t Returned (if users_cnt m - 1 = 0 then unlock_mutex grp t (m\<lparr>users_cnt := users_cnt m - 1\<rparr>)
      else m\<lparr>users_cnt := users_cnt m - 1\<rparr>)"
    have "(bstep grp n)\<^sup>*\<^sup>* s ?e"
      using rtranclp_trans [OF m(1) to_end(2)] m(2) by simp
    then show ?thesis
      using m(2-5) c'(1,3,4) True by (intro exI [of _ ?e] exI [of _ c']) (auto simp: goto_def unlock_mutex_def users_after_def locked_after_def)
  next
    case False
    have "(bstep grp n)\<^sup>*\<^sup>* s (goto t Aborted (m\<lparr>failures := failures m + 1\<rparr>))"
      using rtranclp_trans [OF m(1) to_end(1)] m(2) by simp
    then show ?thesis
      using m(2-5) c'(1,3,4) False by (intro exI [of _ "goto t Aborted (m\<lparr>failures := failures m + 1\<rparr>)"] exI [of _ c']) (auto simp: goto_def users_after_def locked_after_def)
  qed
qed

theorem broadcast_alone_witness:
  "\<exists>s'. (bstep (\<lambda>_. 0) 1)\<^sup>*\<^sup>* init_threads s' \<and> pc_of s' 0 = Returned \<and> users_cnt s' = 0 \<and> owner s' 0 = None"
proof -
  obtain S' where S': "broadcast_op pb_codec 4 (Put ''u'' ''f'' [1, 2, 3]) sample_srv = Some (True, S')"
    using broadcast_delivers_witness by blast
  obtain f g where fg: "broadcast_op pb_codec 4 (Put ''u'' ''f'' [1, 2, 3]) sample_srv = BroadcastCommand f g ''u'' 4 sample_srv"
    by (simp add: broadcast_op_command)
  obtain c where c: "clients sample_srv ''u'' = Some c" "\<not> locked c" "users sample_srv = 0"
    by (simp add: sample_srv_def)
  obtain c' where "clients S' ''u'' = Some c'" "locked c' = locked_after True c sample_srv" "users S' = users_after True sample_srv"
    using broadcast_counts [OF S' [unfolded fg] c(1)] by metis
  then show ?thesis
    using broadcast_alone [of 0 1 init_threads sample_srv "''u''" c "\<lambda>_. 0" f g 4 True S'] S' fg c
    by (auto simp: init_threads_def locked_after_def users_after_def)
qed

end
