(* ===== verification/Spec2Isabelle.thy ===== *)
theory Spec2Isabelle
  imports Prelude Commands Archives SocketStream FileSystem Exchange Election RingElection Sockets Layout
    Replica Composite ClientHandler BroadcastThreads Inotify Client Transfers ClientSync Sessions Primary
    Failover Server UserInput Wiring Startup Transitions Cluster ClientThreads Names Tenants Messages
    Isolation Bystanders CommandLine BroadcastAlone
begin

text \<open>
  A verification library of a file synchronisation service: a replicated server
  (\<^verbatim>\<open>src/server\<close>), its clients (\<^verbatim>\<open>src/client\<close>) and the protocol between them
  (\<^verbatim>\<open>src/common\<close>).

  \<^bold>\<open>The program.\<close> A user connects from up to two devices. A device has three TCP
  connections to the primary: one for the commands of the user (payload), one on which it
  sends the changes its directory watcher detects, one on which it receives the changes of the
  other device. The primary applies a change to its own \<^verbatim>\<open>sync_dir_<user>\<close> and
  broadcasts it to the user's other devices and to every backup replica. When the primary is
  lost, the remaining servers elect a new one in a ring, and the clients look for it in a list
  of addresses they were given at the start.

  \<^bold>\<open>Theories, from the bottom up.\<close>
  \<^item> \<open>Prelude\<close>: the constants of \<^verbatim>\<open>common/constants.hpp\<close>, lemmas on blocks of bytes and
    little-endian numbers, and \<^verbatim>\<open>std::istringstream\<close> (\<open>getline\<close>, \<open>extract_word\<close>).
  \<^item> \<open>Transitions\<close>: reachable states of a step relation (\<open>reaches\<close>) and the interface of
    its invariants (locales \<open>stable\<close> and \<open>invariant_of\<close>), which \<open>Cluster\<close> and
    \<open>ClientThreads\<close> interpret.
  \<^item> \<open>Commands\<close>: \<^verbatim>\<open>common/communication/commands.hpp\<close> and \<^verbatim>\<open>.cpp\<close>.
  \<^item> \<open>Archives\<close>: the interface to the cereal library (locale \<open>archive_format\<close>; the record
    \<open>codec\<close> is a parameter, \<open>codec_ok\<close> its documented round trip, \<open>pb_codec\<close> a codec with
    that property for the witnesses), and the locales \<open>duplex_in\<close> and \<open>duplex\<close>: what a stream
    buffer promises to whoever reads and writes through it.
  \<^item> \<open>SocketStream\<close>: \<^verbatim>\<open>SocketBuffer\<close> and \<^verbatim>\<open>SocketStream\<close>, interpreted as a
    \<open>duplex\<close>. The system calls are lists of results in the state.
  \<^item> \<open>FileSystem\<close>: a tree of files with the \<^verbatim>\<open>std::filesystem\<close> calls of the program,
    their errors included, on paths that end at their first zero byte;
    \<open>Layout\<close>: the abstract view of it, for each user a map from names to contents, with the
    operations \<open>Put\<close> and \<open>Del\<close> and the messages that carry them.
  \<^item> \<open>Exchange\<close>: \<^verbatim>\<open>FileExchange\<close>, \<^verbatim>\<open>Base\<close>, \<^verbatim>\<open>Sender\<close>;
    \<open>Sockets\<close>: \<^verbatim>\<open>Socket\<close>, \<^verbatim>\<open>Addr\<close>, \<^verbatim>\<open>Ring\<close>;
    \<open>Wiring\<close>: the references from exchanges to streams to sockets when objects are moved.
  \<^item> \<open>Election\<close>: one server's part of the election; \<open>RingElection\<close>: the ring as a step
    relation, refined by \<open>Election\<close>.
  \<^item> \<open>Replica\<close>: \<^verbatim>\<open>BackupHandler\<close> and \<^verbatim>\<open>Backup\<close>; \<open>Composite\<close>:
    \<^verbatim>\<open>ClientComposite\<close>, \<^verbatim>\<open>ClientPool\<close> and the state \<open>srv\<close> of a primary;
    \<open>BroadcastThreads\<close>: \<^verbatim>\<open>BroadcastCommand\<close> run again and again by several
    threads, as a step relation with the calls that failed counted beside the program's
    counter; \<open>BroadcastAlone\<close>: the two models of a broadcast tied together;
    \<open>ClientHandler\<close>: a device on the server; \<open>Isolation\<close>: what a handler may rely on and do
    through \<^verbatim>\<open>CompositeInterface\<close> (locale \<open>composite_interface\<close>, interpreted on
    \<open>Composite\<close> for the frame of a handler and for the ids of the devices); \<open>Primary\<close>:
    accepting, sessions, and the order in which the two threads of a session use the handler;
    \<open>Bystanders\<close>: the limit and the ids of the devices over admissions and
    sessions, and what a whole session leaves as it was.
  \<^item> \<open>Inotify\<close>: the directory watcher; \<open>Client\<close>: \<^verbatim>\<open>client/client.cpp\<close>;
    \<open>UserInput\<close>: the command line.
  \<^item> \<open>Server\<close>: configuration, search for a neighbour, roles, the loop of \<^verbatim>\<open>main\<close>;
    \<open>Cluster\<close>: all servers of a configuration, from the election to their roles, and the loop
    of \<^verbatim>\<open>main\<close> over many turns; \<open>Startup\<close>: arguments and construction of both programs.
  \<^item> \<open>ClientThreads\<close>: the four threads of a client with the mutex, the condition variable, the
    pause flag and the requests to stop they share, and the joins at the end of \<^verbatim>\<open>main\<close>;
    \<open>Messages\<close>: texts of exceptions and enumerations, the status of the two programs, and
    the helpers of \<^verbatim>\<open>common/connections.hpp\<close>.
  \<^item> \<open>Transfers\<close>, \<open>ClientSync\<close>, \<open>Failover\<close>: both ends of the protocol together, for single
    transfers, for continuous synchronisation (locale \<open>replay\<close>, with the client's and the
    handler's loop as its two instances), and for the loss of a primary.
    \<open>Sessions\<close>: the handlers of several devices of a user taking turns in any order on one
    primary; \<open>Tenants\<close>: both threads of the handlers of all users doing so, with the backups
    they share, and a failover to one of these; \<open>Names\<close>: what every operation keeps of the
    tree of files (locale \<open>fs_invariant\<close>, interpreted for the names and for the working
    directory); \<open>CommandLine\<close>: from the lines a user types, through the client, to the
    server's files.

  \<^bold>\<open>How the model reads the code.\<close> A class is a record, a method a function on the record
  and on the files or the server state it touches. A thrown exception is \<open>Inl\<close>, a result
  \<open>Inr\<close>; \<open>None\<close> around a result is a call that never returns (a loop that goes on for ever, a
  lock nobody releases) or an exception out of a \<^verbatim>\<open>noexcept\<close> function or a thread, which
  ends the process. Loops without a bound are partial functions, so that their return is
  always something proved; no fuel is used anywhere. Results of system calls, the network,
  stop tokens and shutdown flags are arguments indexed by the turn or attempt that asks for
  them. Threads that share state are step relations (\<open>ring_step\<close>, \<open>absent_step\<close>,
  \<open>bstep\<close>, \<open>wstep\<close>, \<open>cstep\<close>, \<open>ct_step\<close>) with reachable states; elsewhere a method is
  read sequentially; so is \<open>NewClient\<close>, whose second thread is left to \<open>cstep\<close> and to
  \<open>Tenants\<close>.

  \<^bold>\<open>Bounds.\<close> A stream has one buffer of \<open>kBufferSize = 65536\<close> bytes. The lemmas on writing
  require that the bytes of one message fit in it: what happens otherwise is the subject of
  \<open>stream_write_overrun\<close> and \<open>Send_overruns_buffer\<close>. Ids of servers and the counter of
  broadcasts are bytes and wrap around; ports are 16 bit words in both byte orders.

  \<^bold>\<open>What the lemmas show.\<close>
  \<^item> Streams and exchanges: reading delivers the peer's bytes in order; commands, paths and
    files come back as they were sent; what overruns, short writes, interleaved writing and
    truncation do instead.
  \<^item> Election: agreement on the largest id, completion under every schedule, termination by a
    measure, refinement by the byte-level code; the roles the servers take from it, at the
    start and when a primary was lost; what becomes of an election that one of the servers
    takes no part in, and of a backup that has lost its primary.
  \<^item> Synchronisation: a session's operations reach the server's files, the other devices and
    the backups in order, and each replays to the same map of files; a new device starts
    with the user's whole directory; local changes travel to the server; after a loss the
    client finds the first server that answers and starts from its files. Sessions may
    interleave in any order: devices that change different files converge, devices that
    change one file at the same time may not. With all users at work on both of their
    channels the server is still a sequence of operations, each backup is a copy of it, and a
    client that fails over to a backup has lost nothing. No bytes of a peer give a file an
    improper name. What a user types in a session is done on both sides, in the order of the
    lines.
  \<^item> State: at most two devices with distinct ids, the counter of broadcasts, ownership of
    descriptors, what a handler and a whole session leave untouched (the other users' devices,
    the connection on which the origin receives changes, all but one place of the user),
    references that survive the growth of the vector of backups, the watcher's
    reports being a subsequence of what happened.
  \<^item> Broadcasts: a call of the sequential model is a run of its thread in the model of the
    threads; the counter counts calls under way and calls that failed, modulo 256; two calls
    together can leave the list unprotected; once one has failed a lock that is held stays
    held until the counter has wrapped around.
  \<^item> Threads of a client: mutual exclusion, no action forgotten while the client runs, the one
    way in which its threads block each other for good, and a run that ends in it.
  \<^item> Errors: where the code loses a change, a slot, a lock, a connection or a descriptor, or
    never returns, the theorem says so with the run that does it.

  \<^bold>\<open>Not modelled.\<close> The rendering of tables and of dates (parameters \<open>tables\<close>), which
  libraries do, the lines of diagnostics that are printed along the way, durations of sleeps, and the
  build files: none of them holds state of the service. In \<open>ClientThreads\<close> what the
  server, the network and the user do is left open, and a thread is not left by an exception: what these
  do is in the sequential models of the same methods (\<open>Client\<close>, \<open>Inotify\<close>,
  \<open>UserInput\<close>). A server process that reads outside of an array or dereferences null is a
  value of its own (\<open>oob\<close>, \<open>OutOfRange\<close>, \<open>NullDereference\<close>,
  \<open>ReadsIndeterminate\<close>); nothing is claimed about what follows.
\<close>

end
